(* ===== verification/Prelude.thy ===== *)
theory Prelude
  imports Main "HOL-Library.Word" "HOL-Library.Monad_Syntax" "HOL-Library.Multiset"
begin

text \<open>
  What the components share: names for the C integer types, the collections of
  rewrite rules used by the component proofs (\<open>word_nat\<close> moves unsigned
  word arithmetic that does not wrap to \<open>nat\<close>), and generic lemmas on
  words, lists and \<open>option\<close>.
\<close>

unbundle bit_operations_syntax

section \<open>C integer types\<close>

type_synonym u8 = "8 word"
type_synonym u16 = "16 word"
type_synonym u32 = "32 word"
type_synonym u64 = "64 word"

section \<open>Port input and output\<close>

text \<open>What a routine does to the hardware through the assembly layer, in order: port
  instructions, interrupt service routine registrations, interrupt masks, model-specific
  registers, TLB invalidation.  The value an input instruction returns comes from the device
  and is an argument of the routine's model.\<close>

datatype io_event =
  InB u16 u8 | OutB u16 u8 | OutD u16 u32 | InD u16 u32
| IsrSet nat string | IrqEnable u8 | IrqDisable u8
| RdMsr u32 u64 | WrMsr u32 u64 | InvalidOpcode

section \<open>Characters\<close>

text \<open>The bytes of a string constant.\<close>

definition asc :: "string \<Rightarrow> u8 list" where
  "asc cs = map of_char cs"

lemma asc_simps [simp]: "asc [] = []" "asc (c # cs) = of_char c # asc cs"
  by (simp_all add: asc_def)

section \<open>Loops over a list\<close>

text \<open>A loop that runs its body, which may fail, for every element of a list.\<close>

primrec foldM :: "('a \<Rightarrow> 's \<Rightarrow> 's option) \<Rightarrow> 'a list \<Rightarrow> 's \<Rightarrow> 's option" where
  "foldM f [] s = Some s"
| "foldM f (x # xs) s = do { s \<leftarrow> f x s; foldM f xs s }"

lemma foldM_append: "foldM f (xs @ ys) s = do { s \<leftarrow> foldM f xs s; foldM f ys s }"
  by (induction xs arbitrary: s) (simp_all add: bind_assoc)

lemma foldM_map: "foldM f (map g xs) s = foldM (\<lambda>x. f (g x)) xs s"
  by (induction xs arbitrary: s) simp_all

text \<open>A sequence of operations on a state, each with a result: the results in order.\<close>

primrec run :: "('a \<Rightarrow> 's \<Rightarrow> ('r \<times> 's) option) \<Rightarrow> 'a list \<Rightarrow> 's \<Rightarrow> ('r list \<times> 's) option" where
  "run f [] s = Some ([], s)"
| "run f (x # xs) s = do { (r, s) \<leftarrow> f x s; (rs, s) \<leftarrow> run f xs s; Some (r # rs, s) }"

lemma run_Cons:
  assumes "run f (x # xs) s = Some (rs, t)"
  obtains r rs' s' where "f x s = Some (r, s')" "run f xs s' = Some (rs', t)" "rs = r # rs'"
  using assms by (auto simp: bind_eq_Some_conv)

text \<open>Recursion may go through such a loop.\<close>

lemma foldM_mono [partial_function_mono]:
  assumes "\<And>x s. mono_option (\<lambda>f. F f x s)"
  shows "mono_option (\<lambda>f. foldM (\<lambda>x s. F f x s) xs s)"
proof (induction xs arbitrary: s)
  case (Cons x xs)
  show ?case unfolding foldM.simps by (rule bind_mono [OF assms]) (rule Cons.IH)
qed (simp add: partial_function_mono)

lemma map_option_mono [partial_function_mono]:
  assumes "mono_option B"
  shows "mono_option (\<lambda>f. map_option h (B f))"
  using bind_mono [OF assms, of "\<lambda>y f. Some (h y)"] by (simp add: map_conv_bind_option partial_function_mono comp_def)

section \<open>Collections\<close>

named_theorems word_nat "unsigned word arithmetic read as natural numbers"

section \<open>Unsigned words that do not wrap\<close>

lemmas [word_nat] = word_less_nat_alt word_le_nat_alt

lemma word_eq_unat [word_nat]:
  fixes a b :: "'a::len word"
  shows "a = b \<longleftrightarrow> unat a = unat b"
  by (rule word_unat_eq_iff)

lemma unat_add_nowrap:
  fixes a b :: "'a::len word"
  assumes "unat a + unat b < 2 ^ LENGTH('a)"
  shows "unat (a + b) = unat a + unat b"
  using assms by (simp add: unat_word_ariths)

lemma unat_sub_nowrap:
  fixes a b :: "'a::len word"
  assumes "unat b \<le> unat a"
  shows "unat (a - b) = unat a - unat b"
  using assms by (simp add: unat_sub word_le_nat_alt)

lemma unat_lt64 [simp]: "unat (a::u64) < 18446744073709551616"
  using unsigned_less [of a] by simp

text \<open>
  Words written as \<open>word_of_nat\<close> of numbers below the modulus compare as the
  numbers do.  Addresses built from a base and an offset are handled in this form.
\<close>

lemma unat_of_nat64: "n < 2 ^ 64 \<Longrightarrow> unat (word_of_nat n :: u64) = n"
  by (simp add: unat_of_nat)

lemma of_nat_inj64:
  assumes "a < 2 ^ 64" and "b < 2 ^ 64"
  shows "(word_of_nat a :: u64) = word_of_nat b \<longleftrightarrow> a = b"
  using assms by (metis unat_of_nat64)

lemma of_nat_less64:
  assumes "a < 2 ^ 64" and "b < 2 ^ 64"
  shows "(word_of_nat a :: u64) < word_of_nat b \<longleftrightarrow> a < b"
  using assms by (simp add: word_less_nat_alt unat_of_nat64)

section \<open>Signed words\<close>

lemma sint_scast_32_64 [simp]: "sint (scast (v :: u32) :: u64) = sint v"
  by transfer (simp add: signed_take_bit_signed_take_bit)

lemma sint_of_nat_32 [simp]: "k < 2 ^ 31 \<Longrightarrow> sint (of_nat k :: u32) = int k"
  by (simp add: signed_of_nat signed_take_bit_int_eq_self)

lemma uint_neg_64: "w \<noteq> 0 \<Longrightarrow> uint (- w :: u64) = 2 ^ 64 - uint w"
  by transfer (simp add: zmod_zminus1_eq_if take_bit_eq_mod flip: mod_minus_eq)

lemma sint_64: "sint (w :: u64) = uint w - (if sint w < 0 then 2 ^ 64 else 0)"
proof (cases "sint w < 0")
  case True
  have "uint w = sint w mod 2 ^ 64" using uint_sint [of w] by (simp add: take_bit_eq_mod)
  also have "\<dots> = (sint w + 2 ^ 64) mod 2 ^ 64" by simp
  also have "\<dots> = sint w + 2 ^ 64"
    using True sint_greater_eq [of w] by (intro mod_pos_pos_trivial) simp_all
  finally show ?thesis using True by simp
next
  case False
  then show ?thesis using uint_sint [of w] sint_less [of w] by (simp add: take_bit_eq_mod)
qed

lemma uint_abs_64: "uint (if sint w < 0 then - w else (w :: u64)) = \<bar>sint w\<bar>"
  using sint_64 [of w] uint_neg_64 [of w] by (cases "w = 0") auto

end
