(* ===== verification/Qsort.thy ===== *)
theory Qsort
  imports Prelude
begin

text \<open>
  \<^verbatim>\<open>libc/stdlib/qsort.c\<close>: Hoare's in-place quicksort over an array of
  fixed-size elements.  The array is a list of elements, a pointer into it an index;
  a read or a swap outside the array, and a recursion that never returns, give
  \<open>None\<close>.  The contract of a comparison function is the locale
  \<open>sort_order\<close>; the correctness proof lives inside it, and every comparison
  function of the kernel is an interpretation of it.
\<close>

section \<open>The code\<close>

type_synonym 'a sortcmp = "'a \<Rightarrow> 'a \<Rightarrow> int"

definition swap_elems :: "nat \<Rightarrow> nat \<Rightarrow> 'a list \<Rightarrow> 'a list" where
  "swap_elems i j xs = xs[i := xs ! j, j := xs ! i]"

text \<open>The two inner \<open>do .. while\<close> loops: \<open>i\<close> is the index the first loop
  looks at next, \<open>j\<close> is one past the index the second one looks at next.\<close>

function scan_up :: "'a sortcmp \<Rightarrow> 'a list \<Rightarrow> 'a \<Rightarrow> nat \<Rightarrow> nat option" where
  "scan_up cmp xs pivot i =
     (if i < length xs
      then if cmp (xs ! i) pivot < 0 then scan_up cmp xs pivot (Suc i) else Some i
      else None)"
  by pat_completeness auto
termination
  by (relation "measure (\<lambda>(cmp, xs, pivot, i). length xs - i)") auto

fun scan_down :: "'a sortcmp \<Rightarrow> 'a list \<Rightarrow> 'a \<Rightarrow> nat \<Rightarrow> nat option" where
  "scan_down cmp xs pivot 0 = None"
| "scan_down cmp xs pivot (Suc j) =
     (if j < length xs
      then if cmp (xs ! j) pivot > 0 then scan_down cmp xs pivot j else Some j
      else None)"

declare scan_up.simps [simp del]

text \<open>The outer partition loop; it returns the array and the final \<open>j\<close>.\<close>

partial_function (option) partition_loop ::
  "'a sortcmp \<Rightarrow> 'a \<Rightarrow> 'a list \<Rightarrow> nat \<Rightarrow> nat \<Rightarrow> ('a list \<times> nat) option" where
  "partition_loop cmp pivot xs i j = do {
     i' \<leftarrow> scan_up cmp xs pivot i;
     j' \<leftarrow> scan_down cmp xs pivot j;
     if i' \<ge> j' then Some (xs, j')
     else partition_loop cmp pivot (swap_elems i' j' xs) (Suc i') j'
   }"

text \<open>\<open>qsort cmp xs b num\<close> sorts the \<open>num\<close> elements from index \<open>b\<close>;
  \<open>part\<close> is \<open>(j - b) / size\<close>.  The left part is sorted by a recursive
  call, the right part by the next turn of the \<open>for (;;)\<close> loop.\<close>

partial_function (option) qsort ::
  "'a sortcmp \<Rightarrow> 'a list \<Rightarrow> nat \<Rightarrow> nat \<Rightarrow> 'a list option" where
  "qsort cmp xs b num =
     (if num < 2 then Some xs
      else if b \<ge> length xs then None
      else do {
        r \<leftarrow> partition_loop cmp (xs ! b) xs b (b + num);
        let part = snd r - b;
        ys \<leftarrow> qsort cmp (fst r) b (part + 1);
        qsort cmp ys (b + (part + 1)) (num - (part + 1))
      })"

declare partition_loop.simps [code] qsort.simps [code]

section \<open>Rearranging a window of an array\<close>

definition window_perm :: "nat \<Rightarrow> nat \<Rightarrow> 'a list \<Rightarrow> 'a list \<Rightarrow> bool" where
  "window_perm b n xs ys \<longleftrightarrow>
     take b ys = take b xs \<and> drop (b + n) ys = drop (b + n) xs \<and> mset ys = mset xs"

lemma window_perm_refl [simp]: "window_perm b n xs xs"
  by (simp add: window_perm_def)

lemma window_perm_trans:
  "window_perm b n xs ys \<Longrightarrow> window_perm b n ys zs \<Longrightarrow> window_perm b n xs zs"
  by (simp add: window_perm_def)

lemma window_perm_length: "window_perm b n xs ys \<Longrightarrow> length ys = length xs"
  by (metis window_perm_def size_mset)

lemma take_drop_mono: "take m ys = take m xs \<Longrightarrow> k \<le> m \<Longrightarrow> take k ys = take k xs"
  by (metis min_absorb1 take_take)

lemma drop_mono_eq: "drop k ys = drop k xs \<Longrightarrow> k \<le> m \<Longrightarrow> drop m ys = drop m xs"
  by (metis drop_drop le_add_diff_inverse2)

lemma window_perm_mono:
  assumes "window_perm b' n' xs ys" and "b \<le> b'" and "b' + n' \<le> b + n"
  shows "window_perm b n xs ys"
  using assms take_drop_mono [of b' ys xs b] drop_mono_eq [of "b' + n'" ys xs "b + n"]
  by (simp add: window_perm_def)

lemma mset_three_parts:
  "mset zs = mset (take b zs) + mset (take n (drop b zs)) + mset (drop (b + n) zs)"
proof -
  have "drop b zs = take n (drop b zs) @ drop (b + n) zs"
    using append_take_drop_id [of n "drop b zs"] by (simp add: add.commute)
  then have "mset (drop b zs) = mset (take n (drop b zs)) + mset (drop (b + n) zs)"
    by (metis mset_append)
  moreover have "mset zs = mset (take b zs) + mset (drop b zs)"
    by (metis append_take_drop_id mset_append)
  ultimately show ?thesis by (simp add: add.assoc)
qed

lemma window_mset:
  assumes "window_perm b n xs ys"
  shows "mset (take n (drop b ys)) = mset (take n (drop b xs))"
proof -
  from assms have "take b ys = take b xs" "drop (b + n) ys = drop (b + n) xs"
    and eq: "mset ys = mset xs"
    by (simp_all add: window_perm_def)
  then have "mset ys = mset (take b xs) + mset (take n (drop b ys)) + mset (drop (b + n) xs)"
    using mset_three_parts [of ys b n] by simp
  with eq show ?thesis
    using mset_three_parts [of xs b n] by (metis add_left_cancel add_right_cancel)
qed

lemma window_set:
  "window_perm b n xs ys \<Longrightarrow> set (take n (drop b ys)) = set (take n (drop b xs))"
  by (metis window_mset set_mset_mset)

lemma window_perm_swap:
  assumes "b \<le> i" "i < j" "j < b + n" "b + n \<le> length xs"
  shows "window_perm b n xs (swap_elems i j xs)"
  using assms by (simp add: window_perm_def swap_elems_def mset_swap)

lemma window_as_map:
  "b + n \<le> length xs \<Longrightarrow> take n (drop b xs) = map (nth xs) [b..<b + n]"
  by (rule nth_equalityI) auto

lemma set_window:
  "b + n \<le> length xs \<Longrightarrow> set (take n (drop b xs)) = {xs ! k |k. b \<le> k \<and> k < b + n}"
  by (auto simp: window_as_map)

section \<open>The two scans\<close>

lemma scan_up_finds:
  assumes "i \<le> k" "k < length xs" "\<not> cmp (xs ! k) p < 0"
  shows "\<exists>r. scan_up cmp xs p i = Some r \<and> i \<le> r \<and> r \<le> k \<and> \<not> cmp (xs ! r) p < 0 \<and>
           (\<forall>m. i \<le> m \<and> m < r \<longrightarrow> cmp (xs ! m) p < 0)"
  using assms
proof (induction cmp xs p i rule: scan_up.induct)
  case (1 cmp xs p i)
  show ?case
  proof (cases "cmp (xs ! i) p < 0")
    case True
    with 1 have "Suc i \<le> k" and "i < length xs"
      by (auto simp: not_less_eq_eq le_eq_less_or_eq)
    with True 1 obtain r where "scan_up cmp xs p (Suc i) = Some r" "Suc i \<le> r" "r \<le> k"
      "\<not> cmp (xs ! r) p < 0" "\<forall>m. Suc i \<le> m \<and> m < r \<longrightarrow> cmp (xs ! m) p < 0"
      by blast
    moreover from this have "cmp (xs ! m) p < 0" if "i \<le> m" "m < r" for m
      using that True by (cases "m = i") auto
    ultimately show ?thesis
      using True \<open>i < length xs\<close>
      by (intro exI [of _ r]) (auto simp: scan_up.simps [of cmp xs p i])
  next
    case False
    with 1 show ?thesis by (auto simp: scan_up.simps [of cmp xs p i])
  qed
qed

lemma scan_down_finds:
  assumes "k < j" "j \<le> length xs" "\<not> cmp (xs ! k) p > 0"
  shows "\<exists>r. scan_down cmp xs p j = Some r \<and> k \<le> r \<and> r < j \<and> \<not> cmp (xs ! r) p > 0 \<and>
           (\<forall>m. r < m \<and> m < j \<longrightarrow> cmp (xs ! m) p > 0)"
  using assms
proof (induction j)
  case (Suc j)
  show ?case
  proof (cases "cmp (xs ! j) p > 0")
    case True
    with Suc have "k < j" by (auto simp: less_Suc_eq)
    with Suc obtain r where "scan_down cmp xs p j = Some r" "k \<le> r" "r < j"
      "\<not> cmp (xs ! r) p > 0" "\<forall>m. r < m \<and> m < j \<longrightarrow> cmp (xs ! m) p > 0"
      by auto
    with True Suc.prems show ?thesis
      by (intro exI [of _ r]) (auto simp: less_Suc_eq)
  next
    case False
    with Suc show ?thesis by auto
  qed
qed simp

section \<open>The contract of a comparison function\<close>

locale sort_order =
  fixes cmp :: "'a sortcmp"
  assumes cmp_flip: "cmp x y < 0 \<longleftrightarrow> cmp y x > 0"
    and cmp_trans: "cmp x y \<le> 0 \<Longrightarrow> cmp y z \<le> 0 \<Longrightarrow> cmp x z \<le> 0"
begin

lemma cmp_refl [simp]: "cmp x x = 0"
  using cmp_flip [of x x] by linarith

lemma cmp_flip_le: "cmp x y \<ge> 0 \<longleftrightarrow> cmp y x \<le> 0"
  using cmp_flip [of x y] by linarith

text \<open>The state of the partition loop: what lies left of \<open>i\<close> is at most the
  pivot, what lies from \<open>j\<close> on at least the pivot, and after the first turn
  both ends have moved.\<close>

definition part_inv :: "'a \<Rightarrow> nat \<Rightarrow> nat \<Rightarrow> 'a list \<Rightarrow> nat \<Rightarrow> nat \<Rightarrow> bool" where
  "part_inv p b e xs i j \<longleftrightarrow>
     b \<le> i \<and> i \<le> j \<and> j \<le> e \<and> e \<le> length xs \<and> b + 2 \<le> e \<and>
     (\<forall>k. b \<le> k \<and> k < i \<longrightarrow> cmp (xs ! k) p \<le> 0) \<and>
     (\<forall>k. j \<le> k \<and> k < e \<longrightarrow> cmp (xs ! k) p \<ge> 0) \<and>
     (i = b \<and> j = e \<and> xs ! b = p \<or> b < i \<and> j < e)"

definition part_post :: "'a \<Rightarrow> nat \<Rightarrow> nat \<Rightarrow> 'a list \<Rightarrow> nat \<Rightarrow> bool" where
  "part_post p b e ys j \<longleftrightarrow> b \<le> j \<and> j + 1 < e \<and>
     (\<forall>k. b \<le> k \<and> k \<le> j \<longrightarrow> cmp (ys ! k) p \<le> 0) \<and>
     (\<forall>k. j < k \<and> k < e \<longrightarrow> cmp (ys ! k) p \<ge> 0)"

lemma part_scans:
  assumes "part_inv p b e xs i j"
  obtains i' j' where
    "scan_up cmp xs p i = Some i'" "scan_down cmp xs p j = Some j'"
    "i \<le> i'" "b \<le> j'" "j' < j" "i' < e" "i = b \<Longrightarrow> i' = b" "i - 1 \<le> j'"
    "cmp (xs ! i') p \<ge> 0" "cmp (xs ! j') p \<le> 0"
    "\<And>k. b \<le> k \<Longrightarrow> k < i' \<Longrightarrow> cmp (xs ! k) p \<le> 0"
    "\<And>k. j' < k \<Longrightarrow> k < e \<Longrightarrow> cmp (xs ! k) p \<ge> 0"
proof -
  let ?hi = "if i = b then b else j" and ?lo = "if i = b then b else i - 1"
  from assms have "i \<le> ?hi" "?hi < length xs" "\<not> cmp (xs ! ?hi) p < 0" "?hi < e"
    by (auto simp: part_inv_def split: if_splits)
  from scan_up_finds [where k = ?hi and cmp = cmp and xs = xs and p = p, OF this(1-3)] this(4)
  obtain i' where i': "scan_up cmp xs p i = Some i'" "i \<le> i'" "i' \<le> ?hi" "i' < e"
    "\<not> cmp (xs ! i') p < 0" "\<forall>m. i \<le> m \<and> m < i' \<longrightarrow> cmp (xs ! m) p < 0"
    by auto
  from assms have "?lo < j" "j \<le> length xs" "\<not> cmp (xs ! ?lo) p > 0" "b \<le> ?lo" "i - 1 \<le> ?lo"
    by (auto simp: part_inv_def not_less split: if_splits)
  from scan_down_finds [where k = ?lo and cmp = cmp and xs = xs and p = p, OF this(1-3)] this(4,5)
  obtain j' where j': "scan_down cmp xs p j = Some j'" "b \<le> j'" "i - 1 \<le> j'" "j' < j"
    "\<not> cmp (xs ! j') p > 0" "\<forall>m. j' < m \<and> m < j \<longrightarrow> cmp (xs ! m) p > 0"
    by auto
  show ?thesis
  proof (rule that [OF i'(1) j'(1) i'(2) j'(2) j'(4) i'(4)])
    show "i' = b" if "i = b" using that i'(2,3) by simp
    show "cmp (xs ! k) p \<le> 0" if "b \<le> k" "k < i'" for k
      using that assms i'(6) by (cases "k < i") (auto simp: part_inv_def intro: less_imp_le)
    show "cmp (xs ! k) p \<ge> 0" if "j' < k" "k < e" for k
      using that assms j'(6) by (cases "k < j") (auto simp: part_inv_def intro: less_imp_le)
  qed (use i' j' in auto)
qed

lemma partition_loop_correct:
  assumes "part_inv p b e xs i j"
  shows "\<exists>ys j'. partition_loop cmp p xs i j = Some (ys, j') \<and>
           window_perm b (e - b) xs ys \<and> part_post p b e ys j'"
  using assms
proof (induction j arbitrary: xs i rule: less_induct)
  case (less j)
  from part_scans [OF less.prems] obtain i' j' where s:
    "scan_up cmp xs p i = Some i'" "scan_down cmp xs p j = Some j'"
    "i \<le> i'" "b \<le> j'" "j' < j" "i' < e" "i = b \<Longrightarrow> i' = b" "i - 1 \<le> j'"
    "cmp (xs ! i') p \<ge> 0" "cmp (xs ! j') p \<le> 0"
    "\<And>k. b \<le> k \<Longrightarrow> k < i' \<Longrightarrow> cmp (xs ! k) p \<le> 0"
    "\<And>k. j' < k \<Longrightarrow> k < e \<Longrightarrow> cmp (xs ! k) p \<ge> 0" by blast
  note inv = less.prems [unfolded part_inv_def]
  show ?case
  proof (cases "i' \<ge> j'")
    case True
    have "part_post p b e xs j'"
      unfolding part_post_def
    proof (intro conjI allI impI)
      show "j' + 1 < e" using inv s(5,7) True by auto
      show "cmp (xs ! k) p \<le> 0" if "b \<le> k \<and> k \<le> j'" for k
      proof (cases "k < i'")
        case False
        with that True have "k = j'" by simp
        with s(10) show ?thesis by simp
      qed (use that s(11) in simp)
    qed (use s in auto)
    with True s(1,2) show ?thesis by (simp add: partition_loop.simps)
  next
    case False
    let ?xs = "swap_elems i' j' xs"
    have "part_inv p b e ?xs (Suc i') j'"
      using inv s False by (auto simp: part_inv_def swap_elems_def nth_list_update less_Suc_eq)
    from less.IH [OF s(5) this] obtain ys k where
      "partition_loop cmp p ?xs (Suc i') j' = Some (ys, k)"
      "window_perm b (e - b) ?xs ys" "part_post p b e ys k" by blast
    moreover have "window_perm b (e - b) xs ?xs"
      using inv s False by (intro window_perm_swap) auto
    ultimately show ?thesis
      using False s(1,2) by (auto simp: partition_loop.simps [of cmp p xs i j]
        intro: window_perm_trans)
  qed
qed

lemma window_sorted_join:
  assumes left: "sorted_wrt (\<lambda>x y. cmp x y \<le> 0) (take m (drop b xs))"
    and right: "sorted_wrt (\<lambda>x y. cmp x y \<le> 0) (take (n - m) (drop (b + m) xs))"
    and "m \<le> n" and "\<forall>x \<in> set (take m (drop b xs)). cmp x p \<le> 0"
    and "\<forall>x \<in> set (take (n - m) (drop (b + m) xs)). cmp x p \<ge> 0"
  shows "sorted_wrt (\<lambda>x y. cmp x y \<le> 0) (take n (drop b xs))"
proof -
  have "take n (drop b xs) = take m (drop b xs) @ take (n - m) (drop (b + m) xs)"
    using \<open>m \<le> n\<close> by (metis add.commute drop_drop le_add_diff_inverse take_add)
  then show ?thesis
    using assms cmp_trans [of _ p] cmp_flip_le by (auto simp: sorted_wrt_append)
qed

lemma qsort_sorts_window:
  assumes "b + num \<le> length xs"
  shows "\<exists>ys. qsort cmp xs b num = Some ys \<and> window_perm b num xs ys \<and>
           sorted_wrt (\<lambda>x y. cmp x y \<le> 0) (take num (drop b ys))"
  using assms
proof (induction num arbitrary: b xs rule: less_induct)
  case (less num)
  show ?case
  proof (cases "num < 2")
    case True
    then have "sorted_wrt R (take num zs)" for R :: "'a \<Rightarrow> 'a \<Rightarrow> bool" and zs
      by (cases zs) (auto simp: take_Cons' )
    with True show ?thesis by (simp add: qsort.simps [of cmp xs b num])
  next
    case False
    let ?e = "b + num"
    have "part_inv (xs ! b) b ?e xs b ?e"
      using False less.prems by (simp add: part_inv_def)
    from partition_loop_correct [OF this] obtain xs1 j where
      p: "partition_loop cmp (xs ! b) xs b ?e = Some (xs1, j)"
      "window_perm b num xs xs1" "part_post (xs ! b) b ?e xs1 j" by auto
    let ?m = "j - b + 1"
    have m: "?m < num" "num - ?m < num" "b \<le> j" using p(3) by (auto simp: part_post_def)
    have len1: "length xs1 = length xs" using p(2) by (rule window_perm_length)
    from less.IH [OF m(1), of b xs1] less.prems m(1) len1 obtain xs2 where
      s2: "qsort cmp xs1 b ?m = Some xs2" "window_perm b ?m xs1 xs2"
      "sorted_wrt (\<lambda>x y. cmp x y \<le> 0) (take ?m (drop b xs2))" by auto
    have len2: "length xs2 = length xs" using window_perm_length [OF s2(2)] len1 by simp
    from less.IH [OF m(2), of "b + ?m" xs2] less.prems m(1) len2 obtain xs3 where
      s3: "qsort cmp xs2 (b + ?m) (num - ?m) = Some xs3"
      "window_perm (b + ?m) (num - ?m) xs2 xs3"
      "sorted_wrt (\<lambda>x y. cmp x y \<le> 0) (take (num - ?m) (drop (b + ?m) xs3))"
      by (auto simp: Let_def)
    have left: "take ?m (drop b xs3) = take ?m (drop b xs2)"
      using s3(2) by (simp add: window_perm_def take_drop ac_simps)
    have right: "drop (b + ?m) xs2 = drop (b + ?m) xs1"
      using s2(2) by (simp add: window_perm_def)
    have "\<forall>x \<in> set (take ?m (drop b xs1)). cmp x (xs ! b) \<le> 0"
      using p(3) m less.prems len1 by (auto simp: set_window part_post_def)
    then have l: "\<forall>x \<in> set (take ?m (drop b xs3)). cmp x (xs ! b) \<le> 0"
      using window_set [OF s2(2)] left by simp
    have "\<forall>x \<in> set (take (num - ?m) (drop (b + ?m) xs1)). cmp x (xs ! b) \<ge> 0"
      using p(3) m less.prems len1 by (auto simp: set_window part_post_def)
    then have r: "\<forall>x \<in> set (take (num - ?m) (drop (b + ?m) xs3)). cmp x (xs ! b) \<ge> 0"
      using window_set [OF s3(2)] right by simp
    have "sorted_wrt (\<lambda>x y. cmp x y \<le> 0) (take num (drop b xs3))"
      by (rule window_sorted_join [OF _ s3(3) _ l r]) (use s2(3) left m in auto)
    moreover have "window_perm b num xs xs3"
      using p(2) window_perm_mono [OF s2(2), of b num] window_perm_mono [OF s3(2), of b num] m(1)
      by (auto intro: window_perm_trans)
    moreover have "qsort cmp xs b num = Some xs3"
      using False less.prems p(1) s2(1) s3(1)
      by (simp add: qsort.simps [of cmp xs b num] Let_def)
    ultimately show ?thesis by blast
  qed
qed

lemma qsort_sorts:
  "\<exists>ys. qsort cmp xs 0 (length xs) = Some ys \<and> mset ys = mset xs \<and>
     sorted_wrt (\<lambda>x y. cmp x y \<le> 0) ys"
proof -
  from qsort_sorts_window [of 0 "length xs" xs] obtain ys where
    ys: "qsort cmp xs 0 (length xs) = Some ys" "window_perm 0 (length xs) xs ys"
    "sorted_wrt (\<lambda>x y. cmp x y \<le> 0) (take (length xs) ys)" by auto
  from ys(2) have "length ys = length xs" "mset ys = mset xs"
    by (rule window_perm_length) (use ys(2) in \<open>simp add: window_perm_def\<close>)
  with ys show ?thesis by simp
qed

end

section \<open>Properties\<close>

text \<open>C6: with a consistent comparison function, sorting \<open>num\<close> elements from index \<open>b\<close>
  returns, never leaves the array, permutes only the window it was given, and leaves that
  window in order.\<close>

theorem qsort_correct:
  assumes "\<And>x y. cmp x y < 0 \<longleftrightarrow> cmp y x > 0"
    and "\<And>x y z. cmp x y \<le> 0 \<Longrightarrow> cmp y z \<le> 0 \<Longrightarrow> cmp x z \<le> 0"
    and "b + num \<le> length xs"
  shows "\<exists>ys. qsort cmp xs b num = Some ys \<and>
           take b ys = take b xs \<and> drop (b + num) ys = drop (b + num) xs \<and>
           mset (take num (drop b ys)) = mset (take num (drop b xs)) \<and>
           sorted_wrt (\<lambda>x y. cmp x y \<le> 0) (take num (drop b ys))"
proof -
  have "sort_order cmp" using assms(1,2) by unfold_locales
  from sort_order.qsort_sorts_window [OF this assms(3)] obtain ys where
    ys: "qsort cmp xs b num = Some ys" "window_perm b num xs ys"
      "sorted_wrt (\<lambda>x y. cmp x y \<le> 0) (take num (drop b ys))" by blast
  then show ?thesis using window_mset [OF ys(2)] by (auto simp: window_perm_def)
qed

theorem qsort_correct_witness:
  "\<exists>ys. qsort (\<lambda>x y. x - y) [9, 3, 1, 2, 7] 1 3 = Some ys \<and> take 1 ys = [9::int] \<and>
     mset (take 3 (drop 1 ys)) = {#1, 2, 3#} \<and>
     sorted_wrt (\<lambda>x y. x - y \<le> 0) (take 3 (drop 1 ys))"
proof -
  have "1 + 3 \<le> length [9, 3, 1, 2, 7::int]" by simp
  from qsort_correct [OF _ _ this, of "\<lambda>x y. x - y"] show ?thesis
    by (auto simp: numeral_3_eq_3 add_mset_commute)
qed

end
