(* ===== verification/Pmap.thy ===== *)
theory Pmap
  imports Qsort
begin

text \<open>
  \<^verbatim>\<open>kernel/mem/pmap.c\<close>: the physical memory map.  A region is the record the
  BIOS table holds, the map a list of regions (\<open>count\<close> is its length).  The
  clean-up passes walk the table with two pointers \<open>curr\<close> (\<open>cur\<close> here) and \<open>next\<close> (\<open>nxt\<close>)
  and never touch a region before \<open>cur\<close>, so each pass is a recursion on the part
  of the table from \<open>cur\<close> on.
\<close>

section \<open>Data\<close>

datatype pmemtype =
  PMEMTYPE_USABLE | PMEMTYPE_RESERVED | PMEMTYPE_ACPI | PMEMTYPE_ACPI_NVS
| PMEMTYPE_BAD | PMEMTYPE_UNCACHED | PMEMTYPE_UNMAPPED

primrec pmemtype_val :: "pmemtype \<Rightarrow> u32" where
  "pmemtype_val PMEMTYPE_USABLE = 1"
| "pmemtype_val PMEMTYPE_RESERVED = 2"
| "pmemtype_val PMEMTYPE_ACPI = 3"
| "pmemtype_val PMEMTYPE_ACPI_NVS = 4"
| "pmemtype_val PMEMTYPE_BAD = 5"
| "pmemtype_val PMEMTYPE_UNCACHED = 6"
| "pmemtype_val PMEMTYPE_UNMAPPED = 7"

text \<open>\<open>reg_type\<close> is an \<open>int32_t\<close>: it is compared as \<open>sint\<close>.  The BIOS may
  report values outside the enumeration.\<close>

record pmapregion =
  reg_addr :: u64
  reg_size :: u64
  reg_type :: u32
  reg_flags :: u32

record pmap =
  last_usable :: u64
  region :: "pmapregion list"

text \<open>The module's two variables: the map and \<open>initialized\<close>.\<close>

record pmap_state =
  pm_map :: pmap
  pm_initialized :: bool

section \<open>Operations\<close>

definition add_region :: "u64 \<Rightarrow> u64 \<Rightarrow> pmemtype \<Rightarrow> pmap \<Rightarrow> pmap" where
  "add_region addr sz type m =
     m\<lparr>region := region m @ [\<lparr>reg_addr = addr, reg_size = sz,
        reg_type = pmemtype_val type, reg_flags = 0\<rparr>]\<rparr>"

definition cmp_region :: "pmapregion sortcmp" where
  "cmp_region r1 r2 =
     (if reg_addr r1 > reg_addr r2 then 1
      else if reg_addr r1 < reg_addr r2 then -1
      else if reg_size r1 > reg_size r2 then 1
      else if reg_size r1 < reg_size r2 then -1
      else 0)"

text \<open>\<open>resort r term\<close>: the list is the table from \<open>r\<close> on.\<close>

fun resort :: "pmapregion list \<Rightarrow> pmapregion list" where
  "resort (r # s # rest) =
     (if cmp_region r s < 0 then r # s # rest else s # resort (r # rest))"
| "resort rs = rs"

text \<open>
  \<open>collapse_overlaps\<close> on the table from \<open>cur\<close> on.  \<open>collapse(cur)\<close> drops
  the head, \<open>collapse(nxt)\<close> the second element; \<open>insertafter(nxt)\<close> opens a slot
  whose four fields the code then writes.
\<close>

partial_function (option) collapse_overlaps :: "pmapregion list \<Rightarrow> pmapregion list option" where
  "collapse_overlaps rs = (case rs of
     cur # nxt # rest \<Rightarrow>
       if reg_size cur = 0 then collapse_overlaps (nxt # rest)
       else let cl = reg_addr cur; cr = reg_addr cur + reg_size cur;
                nl = reg_addr nxt; nr = reg_addr nxt + reg_size nxt in
         if min cr nr \<le> max cl nl
         then do { ys \<leftarrow> collapse_overlaps (nxt # rest); Some (cur # ys) }
         else if cl = nl then
           if cr = nr then
             if sint (reg_type nxt) > sint (reg_type cur)
             then collapse_overlaps (nxt # rest)
             else collapse_overlaps (cur # rest)
           else
             if sint (reg_type nxt) > sint (reg_type cur)
             then collapse_overlaps (nxt # rest)
             else collapse_overlaps
                    (cur # resort (nxt\<lparr>reg_size := nr - cr, reg_addr := cr\<rparr> # rest))
         else if cr = nr then
           if sint (reg_type nxt) > sint (reg_type cur)
           then collapse_overlaps (cur\<lparr>reg_size := nl - cl\<rparr> # nxt # rest)
           else collapse_overlaps (cur # rest)
         else if cr < nr then
           if sint (reg_type nxt) > sint (reg_type cur)
           then collapse_overlaps (cur\<lparr>reg_size := nl - cl\<rparr> # nxt # rest)
           else collapse_overlaps
                  (cur # resort (nxt\<lparr>reg_size := nr - cr, reg_addr := cr\<rparr> # rest))
         else
           if sint (reg_type nxt) > sint (reg_type cur)
           then collapse_overlaps
                  (cur\<lparr>reg_size := nl - cl\<rparr> # nxt #
                   resort (\<lparr>reg_addr = nr, reg_size = cr - nr,
                     reg_type = reg_type cur, reg_flags = reg_flags cur\<rparr> # rest))
           else collapse_overlaps (cur # rest)
   | _ \<Rightarrow> Some rs)"

declare collapse_overlaps.simps [code]

text \<open>How many neighbours in a table do not touch: it bounds the turns of
  \<open>fill_gaps\<close>.\<close>

fun gaps :: "pmapregion list \<Rightarrow> nat" where
  "gaps (r # s # rest) =
     (if reg_addr r + reg_size r = reg_addr s then 0 else 1) + gaps (s # rest)"
| "gaps rs = 0"

lemma gaps_cong_head:
  "reg_addr r + reg_size r = reg_addr r' + reg_size r' \<Longrightarrow> gaps (r # rest) = gaps (r' # rest)"
  by (cases rest) auto

function (sequential) fill_gaps :: "u32 \<Rightarrow> pmapregion list \<Rightarrow> pmapregion list" where
  "fill_gaps type (cur # nxt # rest) =
     (let cr = reg_addr cur + reg_size cur; nl = reg_addr nxt in
      if cr = nl then cur # fill_gaps type (nxt # rest)
      else if reg_type cur = type
      then fill_gaps type (cur\<lparr>reg_size := reg_size cur + (nl - cr)\<rparr> # nxt # rest)
      else if reg_type nxt = type
      then fill_gaps type
             (cur # nxt\<lparr>reg_size := reg_size nxt + (nl - cr), reg_addr := cr\<rparr> # rest)
      else fill_gaps type
             (cur # \<lparr>reg_addr = cr, reg_size = nl - cr, reg_type = type, reg_flags = 0\<rparr>
               # nxt # rest))"
| "fill_gaps type rs = rs"
  by pat_completeness auto
termination
proof (relation "measure (\<lambda>(type, rs). 2 * gaps rs + length rs)", goal_cases)
  case (4 type cur nxt rest cr nl)
  let ?nxt = "nxt\<lparr>reg_size := reg_size nxt + (nl - cr), reg_addr := cr\<rparr>"
  have "gaps (?nxt # rest) = gaps (nxt # rest)"
    using 4 by (intro gaps_cong_head) (simp add: algebra_simps)
  with 4 show ?case by simp
qed auto

fun consolidate_neighbors :: "pmapregion list \<Rightarrow> pmapregion list" where
  "consolidate_neighbors (cur # nxt # rest) =
     (if reg_type cur = reg_type nxt
      then consolidate_neighbors (cur\<lparr>reg_size := reg_size cur + reg_size nxt\<rparr> # rest)
      else cur # consolidate_neighbors (nxt # rest))"
| "consolidate_neighbors rs = rs"

definition update_last_usable :: "pmap \<Rightarrow> pmap" where
  "update_last_usable m =
     m\<lparr>last_usable :=
        (case find (\<lambda>r. reg_type r = pmemtype_val PMEMTYPE_USABLE) (rev (region m)) of
           None \<Rightarrow> 0
         | Some r \<Rightarrow> reg_addr r + reg_size r)\<rparr>"

definition normalize_map :: "pmap \<Rightarrow> pmap option" where
  "normalize_map m = do {
     rs \<leftarrow> qsort cmp_region (region m) 0 (length (region m));
     rs \<leftarrow> collapse_overlaps rs;
     let rs = fill_gaps (pmemtype_val PMEMTYPE_RESERVED) rs;
     Some (update_last_usable (m\<lparr>region := consolidate_neighbors rs\<rparr>))
   }"

definition KMEM_VIDEO :: u64 where "KMEM_VIDEO = 0x000a0000"

definition KMEM_VIDEO_SIZE :: u64 where "KMEM_VIDEO_SIZE = 0x00020000"

definition KMEM_KERNEL_IMAGE_END :: u64 where "KMEM_KERNEL_IMAGE_END = 0x00a00000"

definition pmap_init :: "pmap_state \<Rightarrow> pmap_state option" where
  "pmap_init s = do {
     m \<leftarrow> normalize_map
       (add_region 0 0x1000 PMEMTYPE_UNMAPPED
         (add_region 0 KMEM_KERNEL_IMAGE_END PMEMTYPE_RESERVED
           (add_region KMEM_VIDEO KMEM_VIDEO_SIZE PMEMTYPE_UNCACHED (pm_map s))));
     Some (s\<lparr>pm_map := m, pm_initialized := True\<rparr>)
   }"

definition pmap_add :: "u64 \<Rightarrow> u64 \<Rightarrow> pmemtype \<Rightarrow> pmap_state \<Rightarrow> pmap_state option" where
  "pmap_add addr sz type s = do {
     let m = add_region addr sz type (pm_map s);
     m \<leftarrow> (if pm_initialized s then normalize_map m else Some m);
     Some (s\<lparr>pm_map := m\<rparr>)
   }"

section \<open>What a table says about an address\<close>

text \<open>The extent of a region as natural numbers; \<open>ok_region\<close> excludes empty regions
  and regions that reach the end of the 64-bit address space.\<close>

definition rlo :: "pmapregion \<Rightarrow> nat" where
  "rlo r = unat (reg_addr r)"

definition rhi :: "pmapregion \<Rightarrow> nat" where
  "rhi r = unat (reg_addr r) + unat (reg_size r)"

definition ok_region :: "pmapregion \<Rightarrow> bool" where
  "ok_region r \<longleftrightarrow> reg_size r \<noteq> 0 \<and> rhi r < 2 ^ 64"

definition covers :: "pmapregion \<Rightarrow> nat \<Rightarrow> bool" where
  "covers r a \<longleftrightarrow> rlo r \<le> a \<and> a < rhi r"

text \<open>The type a table gives an address: the largest type of the regions that cover it.\<close>

definition region_type_at :: "pmapregion \<Rightarrow> nat \<Rightarrow> int option" where
  "region_type_at r a = (if covers r a then Some (sint (reg_type r)) else None)"

fun type_at :: "pmapregion list \<Rightarrow> nat \<Rightarrow> int option" where
  "type_at [] a = None"
| "type_at (r # rs) a = combine_options max (region_type_at r a) (type_at rs a)"

abbreviation region_le :: "pmapregion \<Rightarrow> pmapregion \<Rightarrow> bool" where
  "region_le r s \<equiv> cmp_region r s \<le> 0"

interpretation region_order: sort_order cmp_region
  by unfold_locales (auto simp: cmp_region_def split: if_splits)

lemma region_le_iff:
  "region_le r s \<longleftrightarrow> rlo r < rlo s \<or> rlo r = rlo s \<and> rhi r \<le> rhi s"
  by (auto simp: cmp_region_def rlo_def rhi_def word_nat split: if_splits)

lemma region_le_lo: "region_le r s \<Longrightarrow> rlo r \<le> rlo s"
  by (auto simp: region_le_iff)

lemma ok_region_lo_hi: "ok_region r \<Longrightarrow> rlo r < rhi r"
  by (simp add: ok_region_def rlo_def rhi_def word_nat)

lemma unat_region_end: "ok_region r \<Longrightarrow> unat (reg_addr r + reg_size r) = rhi r"
  by (simp add: ok_region_def rhi_def unat_add_nowrap)

lemma combine_max_commute: "combine_options max a b = combine_options max b (a::int option)"
  by (rule combine_options_commute) simp

lemma combine_max_assoc:
  "combine_options max (combine_options max a b) c
     = combine_options max a (combine_options max b (c::int option))"
  by (rule combine_options_assoc) simp

lemma combine_max_left_commute:
  "combine_options max a (combine_options max b c)
     = combine_options max b (combine_options max a (c::int option))"
  by (metis combine_max_assoc combine_max_commute)

lemmas combine_max_ac = combine_max_commute combine_max_assoc combine_max_left_commute

lemma type_at_remove1:
  "r \<in> set rs \<Longrightarrow>
     type_at rs a = combine_options max (region_type_at r a) (type_at (remove1 r rs) a)"
  by (induction rs) (auto simp: combine_max_left_commute)

lemma type_at_perm: "mset rs = mset ss \<Longrightarrow> type_at rs a = type_at ss a"
proof (induction rs arbitrary: ss)
  case (Cons r rs)
  then have "r \<in> set ss" and "mset rs = mset (remove1 r ss)"
    by (metis list.set_intros(1) set_mset_mset) (use Cons.prems in \<open>simp flip: Cons.prems\<close>)
  with Cons.IH [of "remove1 r ss"] show ?case by (simp add: type_at_remove1)
qed simp

lemma type_at_append:
  "type_at (rs @ ss) a = combine_options max (type_at rs a) (type_at ss a)"
  by (induction rs) (auto simp: combine_max_assoc)

lemma type_at_none: "(\<forall>r \<in> set rs. \<not> covers r a) \<Longrightarrow> type_at rs a = None"
  by (induction rs) (auto simp: region_type_at_def)

section \<open>Resorting\<close>

lemma mset_resort: "mset (resort rs) = mset rs"
  by (induction rs rule: resort.induct) auto

lemma set_resort [simp]: "set (resort rs) = set rs"
  by (metis mset_resort set_mset_mset)

lemma resort_Nil_iff [simp]: "resort rs = [] \<longleftrightarrow> rs = []"
  by (metis mset_resort mset_zero_iff)

lemma sorted_resort:
  "sorted_wrt region_le rs \<Longrightarrow> sorted_wrt region_le (resort (r # rs))"
proof (induction rs arbitrary: r)
  case (Cons s rs)
  have "region_le r x" if "cmp_region r s < 0" "x \<in> set rs" for x
    using that Cons.prems region_order.cmp_trans [of r s x] by auto
  moreover have "region_le s r" if "\<not> cmp_region r s < 0"
    using that region_order.cmp_flip_le [of r s] by simp
  ultimately show ?case using Cons by auto
qed simp

section \<open>Removing overlaps\<close>

abbreviation ok_table :: "pmapregion list \<Rightarrow> bool" where
  "ok_table rs \<equiv> (\<forall>r \<in> set rs. ok_region r)"

abbreviation apart :: "pmapregion \<Rightarrow> pmapregion \<Rightarrow> bool" where
  "apart r s \<equiv> rhi r \<le> rlo s"

definition same_types :: "pmapregion list \<Rightarrow> pmapregion list \<Rightarrow> bool" where
  "same_types rs ss \<longleftrightarrow> type_at rs = type_at ss"

lemma same_types_refl [simp]: "same_types rs rs"
  by (simp add: same_types_def)

lemma same_typesI: "(\<And>a. type_at rs a = type_at ss a) \<Longrightarrow> same_types rs ss"
  by (auto simp: same_types_def)

lemma same_types_Cons: "same_types rs ss \<Longrightarrow> same_types (r # rs) (r # ss)"
  by (simp add: same_types_def fun_eq_iff)

lemma same_types_trans: "same_types rs ss \<Longrightarrow> same_types ss ts \<Longrightarrow> same_types rs ts"
  by (simp add: same_types_def)

lemma same_types_resort: "same_types (resort rs) rs"
  by (rule same_typesI) (rule type_at_perm [OF mset_resort])

text \<open>The new regions the passes make: a region cut on its left or its right, and the
  remainder of a region that another one splits.\<close>

lemma cut_left:
  fixes r :: pmapregion and x :: u64
  assumes "ok_region r" "unat x < rhi r"
  defines "r' \<equiv> r\<lparr>reg_size := reg_addr r + reg_size r - x, reg_addr := x\<rparr>"
  shows "rlo r' = unat x" "rhi r' = rhi r" "reg_type r' = reg_type r" "ok_region r'"
proof -
  have "unat (reg_addr r + reg_size r - x) = rhi r - unat x"
    using assms(1,2) by (simp add: unat_sub_nowrap unat_region_end)
  then show "rlo r' = unat x" "rhi r' = rhi r" "reg_type r' = reg_type r" "ok_region r'"
    using assms(1,2) by (auto simp: r'_def rlo_def rhi_def ok_region_def)
qed

lemma cut_right:
  fixes r :: pmapregion and x :: u64
  assumes "ok_region r" "rlo r < unat x" "unat x \<le> rhi r"
  defines "r' \<equiv> r\<lparr>reg_size := x - reg_addr r\<rparr>"
  shows "rlo r' = rlo r" "rhi r' = unat x" "reg_type r' = reg_type r" "ok_region r'"
proof -
  have "unat (x - reg_addr r) = unat x - rlo r"
    using assms(2) by (simp add: unat_sub_nowrap rlo_def)
  then show "rlo r' = rlo r" "rhi r' = unat x" "reg_type r' = reg_type r" "ok_region r'"
    using assms(1-3) by (auto simp: r'_def rlo_def rhi_def ok_region_def word_nat)
qed

lemma remainder_region:
  assumes "unat x < unat y"
  shows "rlo \<lparr>reg_addr = x, reg_size = y - x, reg_type = t, reg_flags = f\<rparr> = unat x"
    and "rhi \<lparr>reg_addr = x, reg_size = y - x, reg_type = t, reg_flags = f\<rparr> = unat y"
    and "ok_region \<lparr>reg_addr = x, reg_size = y - x, reg_type = t, reg_flags = f\<rparr>"
  using assms by (auto simp: rlo_def rhi_def ok_region_def unat_sub_nowrap word_nat)

text \<open>The bound on the turns of \<open>collapse_overlaps\<close>.\<close>

definition bulk :: "pmapregion list \<Rightarrow> nat" where
  "bulk rs = sum_list (map (\<lambda>r. 2 * unat (reg_size r) + 1) rs)"

lemma bulk_simps [simp]:
  "bulk [] = 0" "bulk (r # rs) = 2 * unat (reg_size r) + 1 + bulk rs"
  by (simp_all add: bulk_def)

lemma bulk_resort [simp]: "bulk (resort rs) = bulk rs"
proof -
  have "bulk rs = sum_mset (image_mset (\<lambda>r. 2 * unat (reg_size r) + 1) (mset rs))" for rs
    by (simp add: bulk_def flip: sum_mset_sum_list mset_map)
  then show ?thesis by (simp add: mset_resort)
qed

lemma unat_size: "unat (reg_size r) = rhi r - rlo r"
  by (simp add: rhi_def rlo_def)

text \<open>The code's tests on two sorted neighbours, read as natural numbers.\<close>

lemma overlap_tests:
  assumes "ok_region c" "ok_region n" "region_le c n"
  shows "reg_size c \<noteq> 0"
    and "min (reg_addr c + reg_size c) (reg_addr n + reg_size n) \<le> max (reg_addr c) (reg_addr n)
           \<longleftrightarrow> rhi c \<le> rlo n"
    and "reg_addr c = reg_addr n \<longleftrightarrow> rlo c = rlo n"
    and "reg_addr c + reg_size c = reg_addr n + reg_size n \<longleftrightarrow> rhi c = rhi n"
    and "reg_addr c + reg_size c < reg_addr n + reg_size n \<longleftrightarrow> rhi c < rhi n"
  using assms ok_region_lo_hi [of n] ok_region_lo_hi [of c] region_le_lo [of c n]
  by (auto simp: ok_region_def word_nat unat_region_end [OF assms(1)] unat_region_end [OF assms(2)]
        min_def max_def not_le simp flip: rlo_def)

text \<open>What each rewriting of two overlapping neighbours leaves unchanged.\<close>

lemma types_drop_first:
  assumes "rlo n \<le> rlo c" "rhi c \<le> rhi n" "sint (reg_type c) \<le> sint (reg_type n)"
  shows "same_types (n # rest) (c # n # rest)"
proof (rule same_typesI)
  fix a
  have "combine_options max (region_type_at c a) (region_type_at n a) = region_type_at n a"
    using assms by (auto simp: region_type_at_def covers_def)
  then show "type_at (n # rest) a = type_at (c # n # rest) a"
    by (simp flip: combine_max_assoc)
qed

lemma types_drop_second:
  assumes "rlo c \<le> rlo n" "rhi n \<le> rhi c" "sint (reg_type n) \<le> sint (reg_type c)"
  shows "same_types (c # rest) (c # n # rest)"
proof (rule same_typesI)
  fix a
  have "combine_options max (region_type_at c a) (region_type_at n a) = region_type_at c a"
    using assms by (auto simp: region_type_at_def covers_def)
  then show "type_at (c # rest) a = type_at (c # n # rest) a"
    by (simp flip: combine_max_assoc)
qed

lemma types_cut_second:
  assumes "rlo c \<le> rlo n" "rlo n \<le> rhi c" "sint (reg_type n) \<le> sint (reg_type c)"
    and "rlo n' = rhi c" "rhi n' = rhi n" "reg_type n' = reg_type n"
  shows "same_types (c # resort (n' # rest)) (c # n # rest)"
proof (rule same_types_trans [OF same_types_Cons [OF same_types_resort]], rule same_typesI)
  fix a
  have "combine_options max (region_type_at c a) (region_type_at n' a)
      = combine_options max (region_type_at c a) (region_type_at n a)"
    using assms by (auto simp: region_type_at_def covers_def)
  then show "type_at (c # n' # rest) a = type_at (c # n # rest) a"
    by (simp flip: combine_max_assoc)
qed

lemma types_cut_first:
  assumes "rlo c \<le> rlo n" "rlo n \<le> rhi c" "rhi c \<le> rhi n"
    and "sint (reg_type c) \<le> sint (reg_type n)"
    and "rlo c' = rlo c" "rhi c' = rlo n" "reg_type c' = reg_type c"
  shows "same_types (c' # n # rest) (c # n # rest)"
proof (rule same_typesI)
  fix a
  have "combine_options max (region_type_at c' a) (region_type_at n a)
      = combine_options max (region_type_at c a) (region_type_at n a)"
    using assms by (auto simp: region_type_at_def covers_def)
  then show "type_at (c' # n # rest) a = type_at (c # n # rest) a"
    by (simp flip: combine_max_assoc)
qed

lemma types_split_first:
  assumes "rlo c \<le> rlo n" "rhi n \<le> rhi c" "rlo n \<le> rhi n"
    and "sint (reg_type c) \<le> sint (reg_type n)"
    and "rlo c' = rlo c" "rhi c' = rlo n" "reg_type c' = reg_type c"
    and "rlo x = rhi n" "rhi x = rhi c" "reg_type x = reg_type c"
  shows "same_types (c' # n # resort (x # rest)) (c # n # rest)"
proof (rule same_types_trans [OF same_types_Cons [OF same_types_Cons [OF same_types_resort]]],
    rule same_typesI)
  fix a
  have "combine_options max (region_type_at c' a)
          (combine_options max (region_type_at n a) (region_type_at x a))
      = combine_options max (region_type_at c a) (region_type_at n a)"
    using assms by (auto simp: region_type_at_def covers_def)
  then show "type_at (c' # n # x # rest) a = type_at (c # n # rest) a"
    by (simp flip: combine_max_assoc)
qed

text \<open>One turn of the loop: either the neighbours are apart and \<open>curr\<close> moves on, or
  the table is rewritten to a smaller one that says the same.\<close>

definition good_table :: "pmapregion list \<Rightarrow> bool" where
  "good_table rs \<longleftrightarrow> sorted_wrt region_le rs \<and> ok_table rs"

definition shrinks_to :: "pmapregion list \<Rightarrow> pmapregion list \<Rightarrow> bool" where
  "shrinks_to rs rs' \<longleftrightarrow> collapse_overlaps rs = collapse_overlaps rs' \<and>
     good_table rs' \<and> same_types rs' rs \<and> bulk rs' < bulk rs"

lemma good_table_Cons:
  "good_table (r # rs) \<longleftrightarrow> (\<forall>s \<in> set rs. region_le r s) \<and> ok_region r \<and> good_table rs"
  by (auto simp: good_table_def)

lemma good_table_resort:
  "good_table rs \<Longrightarrow> ok_region r \<Longrightarrow> good_table (resort (r # rs))"
  using sorted_resort [of rs r] by (simp add: good_table_def)

lemma shrink_second:
  assumes g: "good_table (c # n # rest)" and "rlo c \<le> rlo n" "rlo n < rhi c" "rhi c < rhi n"
    and "sint (reg_type n) \<le> sint (reg_type c)"
    and eq: "collapse_overlaps (c # n # rest) = collapse_overlaps (c # resort
      (n\<lparr>reg_size := reg_addr n + reg_size n - (reg_addr c + reg_size c),
         reg_addr := reg_addr c + reg_size c\<rparr> # rest))"
  shows "\<exists>rs'. shrinks_to (c # n # rest) rs'"
proof -
  let ?n = "n\<lparr>reg_size := reg_addr n + reg_size n - (reg_addr c + reg_size c),
              reg_addr := reg_addr c + reg_size c\<rparr>"
  have ok: "ok_region c" "ok_region n" using g by (auto simp: good_table_Cons)
  have x: "unat (reg_addr c + reg_size c) = rhi c" using ok(1) by (rule unat_region_end)
  with assms have "unat (reg_addr c + reg_size c) < rhi n" by simp
  note n = cut_left [OF ok(2) this, unfolded x]
  have lo: "rlo c < rhi c" using ok(1) by (rule ok_region_lo_hi)
  have "good_table (c # resort (?n # rest))"
    using g n lo good_table_resort [of rest ?n] by (auto simp: good_table_Cons region_le_iff)
  moreover have "same_types (c # resort (?n # rest)) (c # n # rest)"
    using assms n by (intro types_cut_second) auto
  moreover have "bulk (c # resort (?n # rest)) < bulk (c # n # rest)"
    using assms n lo unat_size [of ?n] unat_size [of n] by simp
  ultimately show ?thesis using eq by (auto simp: shrinks_to_def)
qed

lemma shrink_first:
  assumes g: "good_table (c # n # rest)" and "rlo c < rlo n" "rlo n < rhi c" "rhi c \<le> rhi n"
    and "sint (reg_type c) \<le> sint (reg_type n)"
    and eq: "collapse_overlaps (c # n # rest)
      = collapse_overlaps (c\<lparr>reg_size := reg_addr n - reg_addr c\<rparr> # n # rest)"
  shows "\<exists>rs'. shrinks_to (c # n # rest) rs'"
proof -
  let ?c = "c\<lparr>reg_size := reg_addr n - reg_addr c\<rparr>"
  have ok: "ok_region c" using g by (auto simp: good_table_Cons)
  note c = cut_right [OF ok, of "reg_addr n", folded rlo_def, OF assms(2) less_imp_le [OF assms(3)]]
  have "good_table (?c # n # rest)"
    using g c assms(2) by (auto simp: good_table_Cons region_le_iff)
  moreover have "same_types (?c # n # rest) (c # n # rest)"
    using assms c by (intro types_cut_first) auto
  moreover have "bulk (?c # n # rest) < bulk (c # n # rest)"
    using assms c unat_size [of ?c] unat_size [of c] by simp
  ultimately show ?thesis using eq by (auto simp: shrinks_to_def)
qed

lemma shrink_split:
  assumes g: "good_table (c # n # rest)" and "rlo c < rlo n" "rhi n < rhi c"
    and "sint (reg_type c) \<le> sint (reg_type n)"
    and eq: "collapse_overlaps (c # n # rest)
      = collapse_overlaps (c\<lparr>reg_size := reg_addr n - reg_addr c\<rparr> # n #
          resort (\<lparr>reg_addr = reg_addr n + reg_size n,
            reg_size = reg_addr c + reg_size c - (reg_addr n + reg_size n),
            reg_type = reg_type c, reg_flags = f\<rparr> # rest))"
  shows "\<exists>rs'. shrinks_to (c # n # rest) rs'"
proof -
  let ?c = "c\<lparr>reg_size := reg_addr n - reg_addr c\<rparr>"
  let ?x = "\<lparr>reg_addr = reg_addr n + reg_size n,
              reg_size = reg_addr c + reg_size c - (reg_addr n + reg_size n),
              reg_type = reg_type c, reg_flags = f\<rparr>"
  have ok: "ok_region c" "ok_region n" using g by (auto simp: good_table_Cons)
  have lo: "rlo n < rhi n" using ok(2) by (rule ok_region_lo_hi)
  with assms(3) have "rlo n \<le> rhi c" by simp
  note c = cut_right [OF ok(1), of "reg_addr n", folded rlo_def, OF assms(2) this]
  have "unat (reg_addr n + reg_size n) < unat (reg_addr c + reg_size c)"
    using assms(3) ok by (simp add: unat_region_end)
  note x = remainder_region [OF this, unfolded unat_region_end [OF ok(1)] unat_region_end [OF ok(2)]]
  have "good_table (?c # n # resort (?x # rest))"
    using g c x lo assms(2) good_table_resort [of rest ?x]
    by (auto simp: good_table_Cons region_le_iff)
  moreover have "same_types (?c # n # resort (?x # rest)) (c # n # rest)"
    using assms c x lo by (intro types_split_first) auto
  moreover have "bulk (?c # n # resort (?x # rest)) < bulk (c # n # rest)"
    using assms c x lo unat_size [of ?c] unat_size [of c] unat_size [of n] unat_size [of ?x] by simp
  ultimately show ?thesis using eq by (auto simp: shrinks_to_def)
qed

lemma shrink_drop_first:
  assumes "good_table (c # n # rest)" "rlo n \<le> rlo c" "rhi c \<le> rhi n"
    and "sint (reg_type c) \<le> sint (reg_type n)"
    and "collapse_overlaps (c # n # rest) = collapse_overlaps (n # rest)"
  shows "\<exists>rs'. shrinks_to (c # n # rest) rs'"
  using assms types_drop_first [of n c rest]
  by (auto simp: shrinks_to_def good_table_Cons intro!: exI [of _ "n # rest"])

lemma shrink_drop_second:
  assumes "good_table (c # n # rest)" "rlo c \<le> rlo n" "rhi n \<le> rhi c"
    and "sint (reg_type n) \<le> sint (reg_type c)"
    and "collapse_overlaps (c # n # rest) = collapse_overlaps (c # rest)"
  shows "\<exists>rs'. shrinks_to (c # n # rest) rs'"
  using assms types_drop_second [of c n rest]
  by (auto simp: shrinks_to_def good_table_Cons intro!: exI [of _ "c # rest"])

lemma collapse_overlaps_turn:
  assumes g: "good_table (c # n # rest)"
  shows "rhi c \<le> rlo n \<and> collapse_overlaps (c # n # rest)
           = do { ys \<leftarrow> collapse_overlaps (n # rest); Some (c # ys) }
         \<or> (\<exists>rs'. shrinks_to (c # n # rest) rs')"
proof (cases "rhi c \<le> rlo n")
  case True
  have "ok_region c" "ok_region n" "region_le c n" using g by (auto simp: good_table_Cons)
  note t = overlap_tests [OF this]
  show ?thesis
    using True t(1,2) by (simp add: collapse_overlaps.simps [of "c # n # rest"] Let_def)
next
  case False
  have "ok_region c" "ok_region n" and le: "region_le c n" using g by (auto simp: good_table_Cons)
  note t = overlap_tests [OF this]
  note eq = collapse_overlaps.simps [of "c # n # rest"]
  have lo: "rlo c \<le> rlo n" using le by (rule region_le_lo)
  have "\<exists>rs'. shrinks_to (c # n # rest) rs'"
  proof (cases "rlo c = rlo n")
    case same: True
    with le have "rhi c \<le> rhi n" by (auto simp: region_le_iff)
    show ?thesis
    proof (cases "sint (reg_type n) > sint (reg_type c)")
      case True
      show ?thesis
        by (rule shrink_drop_first [OF g]) (use same True False t \<open>rhi c \<le> rhi n\<close> in \<open>simp_all add: eq Let_def\<close>)
    next
      case low: False
      show ?thesis
      proof (cases "rhi c = rhi n")
        case True
        show ?thesis
          by (rule shrink_drop_second [OF g]) (use same True low False t in \<open>simp_all add: eq\<close>)
      next
        case ne: False
        show ?thesis
          by (rule shrink_second [OF g]) (use same ne low False t \<open>rhi c \<le> rhi n\<close> in \<open>simp_all add: eq Let_def\<close>)
      qed
    qed
  next
    case diff: False
    with lo have lt: "rlo c < rlo n" by simp
    show ?thesis
    proof (cases "sint (reg_type n) > sint (reg_type c)")
      case high: True
      show ?thesis
      proof (cases "rhi c \<le> rhi n")
        case True
        show ?thesis
          by (rule shrink_first [OF g lt _ True]) (use diff high True False t in \<open>auto simp: eq Let_def\<close>)
      next
        case gt: False
        show ?thesis
          by (rule shrink_split [OF g lt, of "reg_flags c"]) (use diff high gt False t in \<open>simp_all add: eq Let_def\<close>)
      qed
    next
      case low: False
      show ?thesis
      proof (cases "rhi c < rhi n")
        case True
        show ?thesis
          by (rule shrink_second [OF g lo _ True]) (use diff low True False t in \<open>simp_all add: eq Let_def\<close>)
      next
        case ge: False
        show ?thesis
          by (rule shrink_drop_second [OF g lo]) (use diff low ge False t in \<open>auto simp: eq Let_def\<close>)
      qed
    qed
  qed
  then show ?thesis ..
qed

text \<open>Where a table's regions are follows from what it says.\<close>

lemma type_at_covered: "type_at rs a \<noteq> None \<longleftrightarrow> (\<exists>r \<in> set rs. covers r a)"
proof (induction rs)
  case (Cons r rs)
  then show ?case
    by (cases "type_at rs a") (auto simp: region_type_at_def)
qed simp

lemma same_types_lower:
  assumes "same_types ys rs" "ok_table ys" "\<forall>r \<in> set rs. b \<le> rlo r" "y \<in> set ys"
  shows "b \<le> rlo y"
proof -
  have "covers y (rlo y)"
    using assms(2,4) ok_region_lo_hi [of y] by (auto simp: covers_def)
  then have "type_at rs (rlo y) \<noteq> None"
    using assms(1,4) type_at_covered [of ys] by (auto simp: same_types_def)
  then have "\<exists>r \<in> set rs. covers r (rlo y)" by (simp only: type_at_covered)
  then obtain r where "r \<in> set rs" "rlo r \<le> rlo y" by (auto simp: covers_def)
  with assms(3) show ?thesis by force
qed

theorem collapse_overlaps_correct:
  assumes "good_table rs"
  shows "\<exists>ys. collapse_overlaps rs = Some ys \<and> sorted_wrt apart ys \<and> ok_table ys \<and>
           same_types ys rs"
  using assms
proof (induction "bulk rs" arbitrary: rs rule: less_induct)
  case less
  show ?case
  proof (cases rs rule: remdups_adj.cases)
    case (3 c n rest)
    have "\<forall>s \<in> set (n # rest). rlo n \<le> rlo s"
      using less.prems 3 by (auto simp: good_table_Cons intro: region_le_lo)
    consider "rhi c \<le> rlo n" "collapse_overlaps rs
           = do { ys \<leftarrow> collapse_overlaps (n # rest); Some (c # ys) }"
      | rs' where "shrinks_to rs rs'"
      using collapse_overlaps_turn [of c n rest] less.prems 3 by blast
    then show ?thesis
    proof cases
      case 1
      have "good_table (n # rest)" "ok_region c" and "bulk (n # rest) < bulk rs"
        using less.prems 3 by (auto simp: good_table_Cons)
      with less.hyps obtain ys where ys: "collapse_overlaps (n # rest) = Some ys"
        "sorted_wrt apart ys" "ok_table ys" "same_types ys (n # rest)" by blast
      have "\<forall>y \<in> set ys. rhi c \<le> rlo y"
        using same_types_lower [OF ys(4,3), of "rlo n"] \<open>\<forall>s \<in> set (n # rest). rlo n \<le> rlo s\<close> 1(1)
        by force
      with 1 ys \<open>ok_region c\<close> 3 show ?thesis by (auto intro: same_types_Cons)
    next
      case 2
      then have "good_table rs'" "bulk rs' < bulk rs" "collapse_overlaps rs = collapse_overlaps rs'"
        "same_types rs' rs" by (auto simp: shrinks_to_def)
      with less.hyps [of rs'] show ?thesis by (auto intro: same_types_trans)
    qed
  qed (use less.prems in \<open>auto simp: collapse_overlaps.simps good_table_def\<close>)
qed

section \<open>Filling the gaps\<close>

text \<open>The addresses from the first to the last region, and the table with its gaps
  filled.\<close>

definition within :: "pmapregion list \<Rightarrow> nat \<Rightarrow> bool" where
  "within rs a \<longleftrightarrow> (\<exists>r \<in> set rs. rlo r \<le> a) \<and> (\<exists>r \<in> set rs. a < rhi r)"

definition filled_type_at :: "int \<Rightarrow> pmapregion list \<Rightarrow> nat \<Rightarrow> int option" where
  "filled_type_at t rs a =
     (if within rs a then Some (case type_at rs a of None \<Rightarrow> t | Some u \<Rightarrow> u) else None)"

abbreviation touch :: "pmapregion \<Rightarrow> pmapregion \<Rightarrow> bool" where
  "touch r s \<equiv> rhi r = rlo s"

lemma within_iff_types:
  assumes "ok_table rs"
  shows "within rs a \<longleftrightarrow> (\<exists>b \<le> a. type_at rs b \<noteq> None) \<and> (\<exists>b \<ge> a. type_at rs b \<noteq> None)"
proof -
  have "(\<exists>r \<in> set rs. rlo r \<le> a) \<longleftrightarrow> (\<exists>b \<le> a. \<exists>r \<in> set rs. covers r b)"
  proof
    assume "\<exists>r \<in> set rs. rlo r \<le> a"
    then obtain r where "r \<in> set rs" "rlo r \<le> a" by blast
    with assms ok_region_lo_hi [of r] show "\<exists>b \<le> a. \<exists>r \<in> set rs. covers r b"
      by (intro exI [of _ "rlo r"]) (auto simp: covers_def)
  qed (force simp: covers_def)
  moreover have "(\<exists>r \<in> set rs. a < rhi r) \<longleftrightarrow> (\<exists>b \<ge> a. \<exists>r \<in> set rs. covers r b)"
  proof
    assume "\<exists>r \<in> set rs. a < rhi r"
    then obtain r where "r \<in> set rs" "a < rhi r" by blast
    with assms ok_region_lo_hi [of r] show "\<exists>b \<ge> a. \<exists>r \<in> set rs. covers r b"
      by (intro exI [of _ "max a (rlo r)"] conjI bexI [of _ r]) (auto simp: covers_def)
  qed (force simp: covers_def)
  ultimately show ?thesis by (simp only: within_def type_at_covered)
qed

lemma same_types_within:
  assumes "same_types ys rs" "ok_table ys" "ok_table rs"
  shows "within ys a = within rs a"
  using assms(1) unfolding within_iff_types [OF assms(2)] within_iff_types [OF assms(3)]
  by (simp add: same_types_def)

lemma same_types_filled:
  assumes "same_types ys rs" "ok_table ys" "ok_table rs"
  shows "filled_type_at t ys a = filled_type_at t rs a"
  using assms(1) unfolding filled_type_at_def same_types_within [OF assms]
  by (simp add: same_types_def)

text \<open>In a table of regions that are apart, the ends are those of the first and the
  last one.\<close>

lemma apart_last_hi:
  "sorted_wrt apart rs \<Longrightarrow> ok_table rs \<Longrightarrow> r \<in> set rs \<Longrightarrow> rhi r \<le> rhi (last rs)"
proof (induction rs)
  case (Cons s rs)
  show ?case
  proof (cases "rs = []")
    case False
    then have "last rs \<in> set rs" by simp
    then have "rhi s \<le> rhi (last rs)"
      using Cons.prems ok_region_lo_hi [of "last rs"] by fastforce
    with Cons False show ?thesis by auto
  qed (use Cons in simp)
qed simp

lemma within_apart:
  assumes "sorted_wrt apart (r # rs)" "ok_table (r # rs)"
  shows "within (r # rs) a \<longleftrightarrow> rlo r \<le> a \<and> a < rhi (last (r # rs))"
proof -
  have "\<forall>s \<in> set rs. rlo r \<le> rlo s"
    using assms ok_region_lo_hi [of r] by force
  then have "(\<exists>s \<in> set (r # rs). rlo s \<le> a) \<longleftrightarrow> rlo r \<le> a" by force
  moreover have "(\<exists>s \<in> set (r # rs). a < rhi s) \<longleftrightarrow> a < rhi (last (r # rs))"
    using apart_last_hi [OF assms] last_in_set [of "r # rs"] by (metis list.distinct(1) order_less_le_trans)
  ultimately show ?thesis by (simp only: within_def)
qed

text \<open>A region grown to the left or the right over a gap.\<close>

lemma grow_right:
  assumes "ok_region c" "rhi c \<le> unat x"
  defines "c' \<equiv> c\<lparr>reg_size := reg_size c + (x - (reg_addr c + reg_size c))\<rparr>"
  shows "rlo c' = rlo c" "rhi c' = unat x" "reg_type c' = reg_type c" "ok_region c'"
proof -
  have "reg_size c + (x - (reg_addr c + reg_size c)) = x - reg_addr c" by simp
  moreover have "rlo c < unat x" using assms ok_region_lo_hi [of c] by simp
  ultimately have "unat (reg_size c + (x - (reg_addr c + reg_size c))) = unat x - rlo c"
    by (simp add: unat_sub_nowrap rlo_def)
  with \<open>rlo c < unat x\<close> show "rlo c' = rlo c" "rhi c' = unat x" "reg_type c' = reg_type c"
    "ok_region c'" by (auto simp: c'_def rlo_def rhi_def ok_region_def word_nat)
qed

lemma grow_left:
  assumes "ok_region n" "unat x \<le> rlo n"
  defines "n' \<equiv> n\<lparr>reg_size := reg_size n + (reg_addr n - x), reg_addr := x\<rparr>"
  shows "rlo n' = unat x" "rhi n' = rhi n" "reg_type n' = reg_type n" "ok_region n'"
proof -
  have "unat (reg_addr n - x) = rlo n - unat x"
    using assms(2) by (simp add: unat_sub_nowrap rlo_def)
  moreover from this have "unat (reg_size n + (reg_addr n - x)) = rhi n - unat x"
    using assms(1,2) by (subst unat_add_nowrap) (auto simp: rlo_def rhi_def ok_region_def)
  ultimately show "rlo n' = unat x" "rhi n' = rhi n" "reg_type n' = reg_type n" "ok_region n'"
    using assms(1,2) ok_region_lo_hi [of n]
    by (auto simp: n'_def rlo_def rhi_def ok_region_def word_nat)
qed

lemma sint_of_type_eq: "reg_type r = t \<Longrightarrow> sint (reg_type r) = sint t"
  by simp

text \<open>\<open>fill_gaps\<close>: every address between the ends gets a type, the regions touch.\<close>

lemma filled_Cons_touch:
  assumes "sorted_wrt apart (c # n # rest)" "ok_table (c # n # rest)" "touch c n"
  shows "filled_type_at t (c # n # rest) a
       = combine_options max (region_type_at c a) (filled_type_at t (n # rest) a)"
proof -
  have "sorted_wrt apart (n # rest)" "ok_table (n # rest)" using assms by auto
  note w = within_apart [OF assms(1,2)] within_apart [OF this]
  have "rlo c < rhi c" "rlo n < rhi n" "rhi n \<le> rhi (last (n # rest))"
    using assms(2) apart_last_hi [of "n # rest" n] \<open>sorted_wrt apart (n # rest)\<close>
    by (auto intro: ok_region_lo_hi)
  moreover have "type_at (n # rest) a = None" if "a < rlo n"
    using that assms(1) \<open>rlo n < rhi n\<close> by (intro type_at_none) (fastforce simp: covers_def)
  ultimately show ?thesis
    using assms(3) by (auto simp: filled_type_at_def w region_type_at_def covers_def
        split: option.splits)
qed

text \<open>The three ways to close a gap agree with the filled table.\<close>

lemma gap_types:
  assumes "sorted_wrt apart (c # n # rest)" "ok_table (c # n # rest)" "a < rlo n"
  shows "type_at (n # rest) a = None" and "type_at rest a = None"
proof -
  have "rlo n < rhi n" using assms(2) by (simp add: ok_region_lo_hi)
  with assms show "type_at (n # rest) a = None" "type_at rest a = None"
    by (intro type_at_none; fastforce simp: covers_def)+
qed

lemma filled_gap:
  assumes "sorted_wrt apart (c # n # rest)" "ok_table (c # n # rest)"
    and "within rs' a = within (c # n # rest) a"
    and "type_at rs' a
       = (if rhi c \<le> a \<and> a < rlo n then Some t else type_at (c # n # rest) a)"
  shows "filled_type_at t rs' a = filled_type_at t (c # n # rest) a"
  using assms(3,4) gap_types [OF assms(1,2)]
  by (auto simp: filled_type_at_def region_type_at_def covers_def)

lemma close_gap_right:
  assumes s: "sorted_wrt apart (c # n # rest)" and ok: "ok_table (c # n # rest)"
    and c: "rlo c' = rlo c" "rhi c' = rlo n" "reg_type c' = reg_type c" "ok_region c'"
    and t: "sint (reg_type c) = t"
  shows "sorted_wrt apart (c' # n # rest)" and "ok_table (c' # n # rest)"
    and "filled_type_at t (c' # n # rest) a = filled_type_at t (c # n # rest) a"
proof -
  have "rlo n < rhi n" using ok by (simp add: ok_region_lo_hi)
  then show s': "sorted_wrt apart (c' # n # rest)" using s c by auto
  show ok': "ok_table (c' # n # rest)" using ok c by auto
  show "filled_type_at t (c' # n # rest) a = filled_type_at t (c # n # rest) a"
  proof (rule filled_gap [OF s ok])
    show "within (c' # n # rest) a = within (c # n # rest) a"
      using c by (simp add: within_apart [OF s ok] within_apart [OF s' ok'])
    show "type_at (c' # n # rest) a
        = (if rhi c \<le> a \<and> a < rlo n then Some t else type_at (c # n # rest) a)"
      using c t s ok_region_lo_hi [of c] ok gap_types [OF s ok, of a]
      by (auto simp: region_type_at_def covers_def)
  qed
qed

lemma close_gap_left:
  assumes s: "sorted_wrt apart (c # n # rest)" and ok: "ok_table (c # n # rest)"
    and n: "rlo n' = rhi c" "rhi n' = rhi n" "reg_type n' = reg_type n" "ok_region n'"
    and t: "sint (reg_type n) = t"
  shows "sorted_wrt apart (c # n' # rest)" and "ok_table (c # n' # rest)"
    and "filled_type_at t (c # n' # rest) a = filled_type_at t (c # n # rest) a"
proof -
  show s': "sorted_wrt apart (c # n' # rest)" using s n by auto
  show ok': "ok_table (c # n' # rest)" using ok n by auto
  show "filled_type_at t (c # n' # rest) a = filled_type_at t (c # n # rest) a"
  proof (rule filled_gap [OF s ok])
    show "within (c # n' # rest) a = within (c # n # rest) a"
      using n by (simp add: within_apart [OF s ok] within_apart [OF s' ok'])
    show "type_at (c # n' # rest) a
        = (if rhi c \<le> a \<and> a < rlo n then Some t else type_at (c # n # rest) a)"
      using n t s gap_types [OF s ok, of a] ok ok_region_lo_hi [of c] ok_region_lo_hi [of n]
      by (auto simp: region_type_at_def covers_def)
  qed
qed

lemma close_gap_insert:
  assumes s: "sorted_wrt apart (c # n # rest)" and ok: "ok_table (c # n # rest)"
    and x: "rlo x = rhi c" "rhi x = rlo n" "ok_region x"
    and t: "sint (reg_type x) = t"
  shows "sorted_wrt apart (c # x # n # rest)" and "ok_table (c # x # n # rest)"
    and "filled_type_at t (c # x # n # rest) a = filled_type_at t (c # n # rest) a"
proof -
  have "rlo n < rhi n" using ok by (simp add: ok_region_lo_hi)
  then show s': "sorted_wrt apart (c # x # n # rest)" using s x by auto
  show ok': "ok_table (c # x # n # rest)" using ok x by auto
  show "filled_type_at t (c # x # n # rest) a = filled_type_at t (c # n # rest) a"
  proof (rule filled_gap [OF s ok])
    show "within (c # x # n # rest) a = within (c # n # rest) a"
      using x by (simp add: within_apart [OF s ok] within_apart [OF s' ok'])
    show "type_at (c # x # n # rest) a
        = (if rhi c \<le> a \<and> a < rlo n then Some t else type_at (c # n # rest) a)"
      using x t gap_types [OF s ok, of a]
      by (auto simp: region_type_at_def covers_def)
  qed
qed

definition filled_table :: "u32 \<Rightarrow> pmapregion list \<Rightarrow> pmapregion list \<Rightarrow> bool" where
  "filled_table t rs ys \<longleftrightarrow> successively touch ys \<and> ok_table ys \<and>
     type_at ys = filled_type_at (sint t) rs \<and> (rs \<noteq> [] \<longrightarrow> ys \<noteq> [] \<and> rlo (hd ys) = rlo (hd rs))"

lemma filled_table_cong:
  assumes "filled_table t rs' ys" "\<And>a. filled_type_at (sint t) rs' a = filled_type_at (sint t) rs a"
    and "rs' \<noteq> []" "rlo (hd rs') = rlo (hd rs)"
  shows "filled_table t rs ys"
  using assms by (auto simp: filled_table_def fun_eq_iff)

lemma fill_gaps_correct:
  assumes "sorted_wrt apart rs" "ok_table rs"
  shows "filled_table t rs (fill_gaps t rs)"
  using assms
proof (induction t rs rule: fill_gaps.induct)
  case (1 t c n rest)
  have ok: "ok_region c" "ok_region n" and le: "rhi c \<le> rlo n" using 1(5,6) by auto
  note cr = unat_region_end [OF ok(1)]
  have touch: "reg_addr c + reg_size c = reg_addr n \<longleftrightarrow> touch c n"
    using cr by (simp add: word_nat rlo_def)
  let ?cr = "reg_addr c + reg_size c"
  let ?c = "c\<lparr>reg_size := reg_size c + (reg_addr n - ?cr)\<rparr>"
  let ?n = "n\<lparr>reg_size := reg_size n + (reg_addr n - ?cr), reg_addr := ?cr\<rparr>"
  let ?x = "\<lparr>reg_addr = ?cr, reg_size = reg_addr n - ?cr, reg_type = t, reg_flags = 0\<rparr>"
  note c = grow_right [OF ok(1), of "reg_addr n", folded rlo_def, OF le]
  note n = grow_left [OF ok(2), of ?cr, unfolded cr, OF le]
  show ?case
  proof (cases "touch c n")
    case True
    have IH: "filled_table t (n # rest) (fill_gaps t (n # rest))"
      using "1.IH"(1) [OF refl refl] "1.prems" True touch by simp
    then have "type_at (c # fill_gaps t (n # rest)) a = filled_type_at (sint t) (c # n # rest) a" for a
      using filled_Cons_touch [OF "1.prems" True, of "sint t" a] by (simp add: filled_table_def)
    with IH ok True touch show ?thesis
      by (auto simp: filled_table_def successively_Cons fun_eq_iff)
  next
    case gap: False
    with le have lt: "rhi c < rlo n" by simp
    have x: "rlo ?x = rhi c" "rhi ?x = rlo n" "ok_region ?x"
      using remainder_region [of ?cr "reg_addr n"] lt cr by (simp_all add: rlo_def)
    have no: "?cr \<noteq> reg_addr n" using gap touch by simp
    consider "reg_type c = t" | "reg_type c \<noteq> t" "reg_type n = t"
      | "reg_type c \<noteq> t" "reg_type n \<noteq> t" by blast
    then show ?thesis
    proof cases
      case 1
      note r = close_gap_right [OF "1.prems" c sint_of_type_eq [OF 1]]
      from "1.IH"(2) [OF refl refl no 1 r(1,2)] r(3) c no 1 show ?thesis
        by (auto intro: filled_table_cong)
    next
      case 2
      note r = close_gap_left [OF "1.prems" n sint_of_type_eq [OF 2(2)]]
      from "1.IH"(3) [OF refl refl no 2 r(1,2)] r(3) no 2 show ?thesis
        by (auto intro: filled_table_cong)
    next
      case 3
      have "sint (reg_type ?x) = sint t" by simp
      note r = close_gap_insert [OF "1.prems" x this]
      from "1.IH"(4) [OF refl refl no 3 r(1,2)] r(3) no 3 show ?thesis
        by (auto intro: filled_table_cong)
    qed
  qed
qed (auto simp: filled_table_def filled_type_at_def fun_eq_iff within_def region_type_at_def covers_def)

section \<open>Merging neighbours\<close>

lemma merge_regions:
  assumes "ok_region c" "ok_region n" "touch c n"
  defines "c' \<equiv> c\<lparr>reg_size := reg_size c + reg_size n\<rparr>"
  shows "rlo c' = rlo c" "rhi c' = rhi n" "reg_type c' = reg_type c" "ok_region c'"
proof -
  have "unat (reg_size c) + unat (reg_size n) < 2 ^ LENGTH(64)"
    using assms by (auto simp: rlo_def rhi_def ok_region_def)
  then have "unat (reg_size c + reg_size n) = unat (reg_size c) + unat (reg_size n)"
    by (rule unat_add_nowrap)
  then show "rlo c' = rlo c" "rhi c' = rhi n" "reg_type c' = reg_type c" "ok_region c'"
    using assms by (auto simp: c'_def rlo_def rhi_def ok_region_def word_nat)
qed

lemma consolidate_neighbors_correct:
  assumes "successively touch rs" "ok_table rs"
  shows "successively touch (consolidate_neighbors rs) \<and> ok_table (consolidate_neighbors rs) \<and>
    distinct_adj (map reg_type (consolidate_neighbors rs)) \<and>
    same_types (consolidate_neighbors rs) rs \<and>
    (rs \<noteq> [] \<longrightarrow> consolidate_neighbors rs \<noteq> [] \<and>
       rlo (hd (consolidate_neighbors rs)) = rlo (hd rs) \<and>
       reg_type (hd (consolidate_neighbors rs)) = reg_type (hd rs))"
  using assms
proof (induction rs rule: consolidate_neighbors.induct)
  case (1 c n rest)
  show ?case
  proof (cases "reg_type c = reg_type n")
    case True
    let ?c = "c\<lparr>reg_size := reg_size c + reg_size n\<rparr>"
    have m: "rlo ?c = rlo c" "rhi ?c = rhi n" "reg_type ?c = reg_type c" "ok_region ?c"
      using merge_regions [of c n] "1.prems" by auto
    have "combine_options max (region_type_at c a) (region_type_at n a) = region_type_at ?c a" for a
      using True m "1.prems" ok_region_lo_hi [of c] ok_region_lo_hi [of n]
      by (auto simp: region_type_at_def covers_def)
    then have same: "same_types (?c # rest) (c # n # rest)"
      by (auto simp: same_types_def fun_eq_iff simp flip: combine_max_assoc)
    have "successively touch (?c # rest)" "ok_table (?c # rest)"
      using "1.prems" m by (auto simp: successively_Cons)
    note IH = "1.IH"(1) [OF True this]
    then have "same_types (consolidate_neighbors (?c # rest)) (c # n # rest)"
      using same_types_trans [OF _ same] by blast
    with IH True m show ?thesis by simp
  next
    case False
    from "1.IH"(2) [OF False] "1.prems" obtain y ys where
      ys: "consolidate_neighbors (n # rest) = y # ys" "rlo y = rlo n" "reg_type y = reg_type n"
      "successively touch (y # ys)" "ok_table (y # ys)" "distinct_adj (map reg_type (y # ys))"
      "same_types (y # ys) (n # rest)"
      by (cases "consolidate_neighbors (n # rest)") auto
    have "same_types (c # y # ys) (c # n # rest)" using ys(7) by (rule same_types_Cons)
    with False ys "1.prems" show ?thesis by simp
  qed
qed (auto simp: same_types_def)

section \<open>The end of the last usable region\<close>

lemma find_rev_last:
  "find P (rev (xs @ [x])) = (if P x then Some x else find P (rev xs))"
  by simp

lemma update_last_usable_correct:
  assumes "ok_table (region m)" "sorted_wrt apart (region m)"
  shows "unat (last_usable (update_last_usable m)) =
    Max (insert 0 (rhi ` {r \<in> set (region m). reg_type r = pmemtype_val PMEMTYPE_USABLE}))"
proof -
  let ?u = "\<lambda>r. reg_type r = pmemtype_val PMEMTYPE_USABLE"
  have "unat (case find ?u (rev rs) of None \<Rightarrow> 0 | Some r \<Rightarrow> reg_addr r + reg_size r) =
      Max (insert 0 (rhi ` {r \<in> set rs. ?u r}))"
    if "ok_table rs" "sorted_wrt apart rs" for rs
    using that
  proof (induction rs rule: rev_induct)
    case (snoc x rs)
    have le: "rhi r \<le> rhi x" if "r \<in> set rs" for r
      using that snoc.prems ok_region_lo_hi [of x] by (force simp: sorted_wrt_append)
    show ?case
    proof (cases "?u x")
      case True
      have "Max (insert 0 (rhi ` {r \<in> set (rs @ [x]). ?u r})) = rhi x"
        using True le by (intro Max_eqI) auto
      with True snoc.prems show ?thesis by (simp add: unat_region_end)
    next
      case False
      then have "{r \<in> set (rs @ [x]). ?u r} = {r \<in> set rs. ?u r}" by auto
      with False snoc show ?thesis by (simp add: sorted_wrt_append)
    qed
  qed simp
  from this [OF assms] show ?thesis by (simp add: update_last_usable_def)
qed

section \<open>The whole clean-up\<close>

lemma touch_apart:
  "successively touch rs \<Longrightarrow> ok_table rs \<Longrightarrow> sorted_wrt apart rs"
proof (induction rs)
  case (Cons r rs)
  then have IH: "sorted_wrt apart rs" by (auto simp: successively_Cons)
  have "rhi r \<le> rlo s" if "s \<in> set rs" for s
  proof (cases rs)
    case (Cons n rest)
    with that IH Cons.prems show ?thesis
      using ok_region_lo_hi [of n] by (auto simp: successively_Cons)
  qed (use that in simp)
  with IH show ?case by simp
qed simp

definition normal_map :: "pmap \<Rightarrow> bool" where
  "normal_map m \<longleftrightarrow> successively touch (region m) \<and> ok_table (region m) \<and>
     distinct_adj (map reg_type (region m)) \<and>
     unat (last_usable m) =
       Max (insert 0 (rhi ` {r \<in> set (region m). reg_type r = pmemtype_val PMEMTYPE_USABLE}))"

lemma normalize_table:
  assumes ok: "ok_table (region m)"
  shows "\<exists>m'. normalize_map m = Some m' \<and> normal_map m' \<and>
    type_at (region m') = filled_type_at (sint (pmemtype_val PMEMTYPE_RESERVED)) (region m)"
proof -
  let ?t = "pmemtype_val PMEMTYPE_RESERVED"
  from region_order.qsort_sorts [of "region m"] obtain rs where
    rs: "qsort cmp_region (region m) 0 (length (region m)) = Some rs"
    "mset rs = mset (region m)" "sorted_wrt region_le rs" by blast
  have okrs: "ok_table rs" using ok rs(2) by (metis set_mset_mset)
  with rs(3) collapse_overlaps_correct [of rs] obtain ys where
    ys: "collapse_overlaps rs = Some ys" "sorted_wrt apart ys" "ok_table ys" "same_types ys rs"
    by (auto simp: good_table_def)
  have f: "filled_table ?t ys (fill_gaps ?t ys)" using ys(2,3) by (rule fill_gaps_correct)
  let ?zs = "consolidate_neighbors (fill_gaps ?t ys)"
  have z: "successively touch ?zs" "ok_table ?zs" "distinct_adj (map reg_type ?zs)"
    "same_types ?zs (fill_gaps ?t ys)"
    using consolidate_neighbors_correct [of "fill_gaps ?t ys"] f by (auto simp: filled_table_def)
  let ?m = "update_last_usable (m\<lparr>region := ?zs\<rparr>)"
  have "normalize_map m = Some ?m" using rs(1) ys(1) by (simp add: normalize_map_def)
  moreover have "normal_map ?m"
    using z touch_apart [OF z(1,2)] update_last_usable_correct [of "m\<lparr>region := ?zs\<rparr>"]
    by (simp add: normal_map_def update_last_usable_def)
  moreover have "type_at ?zs a = filled_type_at (sint ?t) (region m) a" for a
  proof -
    have "type_at ?zs a = filled_type_at (sint ?t) ys a"
      using z(4) f by (simp add: same_types_def filled_table_def)
    also have "\<dots> = filled_type_at (sint ?t) (region m) a"
    proof (rule same_types_filled [OF _ ys(3) ok])
      show "same_types ys (region m)"
        using ys(4) type_at_perm [OF rs(2)] by (auto simp: same_types_def)
    qed
    finally show ?thesis .
  qed
  then have "type_at (region ?m) = filled_type_at (sint ?t) (region m)"
    by (auto simp: update_last_usable_def)
  ultimately show ?thesis by blast
qed

lemma pmemtype_sint: "sint (pmemtype_val t) =
    (case t of PMEMTYPE_USABLE \<Rightarrow> 1 | PMEMTYPE_RESERVED \<Rightarrow> 2 | PMEMTYPE_ACPI \<Rightarrow> 3
     | PMEMTYPE_ACPI_NVS \<Rightarrow> 4 | PMEMTYPE_BAD \<Rightarrow> 5 | PMEMTYPE_UNCACHED \<Rightarrow> 6
     | PMEMTYPE_UNMAPPED \<Rightarrow> 7)"
  by (cases t) simp_all

lemma filled_type_covered:
  assumes "type_at rs a = Some u"
  shows "filled_type_at t rs a = Some u"
proof -
  have "\<exists>r \<in> set rs. covers r a" using assms type_at_covered [of rs a] by simp
  then have "within rs a" by (auto simp: within_def covers_def)
  with assms show ?thesis by (simp add: filled_type_at_def)
qed

lemma covered_type_between:
  assumes "ok_region r" "r \<in> set rs" "covers r a" "\<forall>r \<in> set rs. sint (reg_type r) \<le> k"
  shows "\<exists>u. type_at rs a = Some u \<and> sint (reg_type r) \<le> u \<and> u \<le> k"
  using assms
proof (induction rs)
  case (Cons s rs)
  have top: "\<forall>u. type_at ss a = Some u \<longrightarrow> u \<le> k" if "\<forall>r \<in> set ss. sint (reg_type r) \<le> k" for ss
    using that
  proof (induction ss)
    case (Cons t ss)
    then show ?case by (cases "type_at ss a") (auto simp: region_type_at_def)
  qed simp
  show ?case
  proof (cases "r = s")
    case True
    with Cons.prems top [of rs] show ?thesis
      by (cases "type_at rs a") (auto simp: region_type_at_def)
  next
    case False
    with Cons obtain u where "type_at rs a = Some u" "sint (reg_type r) \<le> u" "u \<le> k" by auto
    with Cons.prems show ?thesis by (auto simp: region_type_at_def)
  qed
qed simp

section \<open>Properties\<close>

definition sample_map :: pmap where
  "sample_map = \<lparr>last_usable = 0, region =
     [\<lparr>reg_addr = 0x100000, reg_size = 0x3ff00000, reg_type = 1, reg_flags = 0\<rparr>,
      \<lparr>reg_addr = 0, reg_size = 0x9fc00, reg_type = 1, reg_flags = 0\<rparr>,
      \<lparr>reg_addr = 0x9fc00, reg_size = 0x400, reg_type = 2, reg_flags = 0\<rparr>,
      \<lparr>reg_addr = 0x3ffe0000, reg_size = 0x20000, reg_type = 3, reg_flags = 0\<rparr>]\<rparr>"

lemma sample_map_ok: "ok_table (region sample_map)"
  by (simp add: sample_map_def ok_region_def rhi_def)

text \<open>C1: \<open>normalize\<close> returns, and the cleaned map gives every address the largest type
  any input region gives it, \<open>RESERVED\<close> in a hole between the lowest and the highest
  region, and nothing outside them.\<close>

theorem normalize_map_types:
  assumes "\<forall>r \<in> set (region m). ok_region r"
  shows "\<exists>m'. normalize_map m = Some m' \<and>
    (\<forall>a. type_at (region m') a =
       (if within (region m) a
        then Some (case type_at (region m) a of
               None \<Rightarrow> sint (pmemtype_val PMEMTYPE_RESERVED) | Some u \<Rightarrow> u)
        else None))"
  using normalize_table [OF assms] unfolding filled_type_at_def fun_eq_iff by blast

theorem normalize_map_types_witness:
  "\<exists>m'. normalize_map sample_map = Some m' \<and> type_at (region m') 0x3ffe0000 = Some 3 \<and>
     type_at (region m') 0xa0000 = Some 2 \<and> type_at (region m') 0x40000000 = None"
  using normalize_map_types [OF sample_map_ok]
  by (force simp: sample_map_def within_def rlo_def rhi_def region_type_at_def covers_def)

text \<open>C2: the cleaned map is in normal form: non-empty regions in address order, each
  starting where the one before ends, no two neighbours of the same type, and
  \<open>last_usable\<close> the end of the last usable region.\<close>

theorem normalize_map_normal:
  assumes "\<forall>r \<in> set (region m). ok_region r"
  shows "\<exists>m'. normalize_map m = Some m' \<and> normal_map m'"
  using normalize_table [OF assms] by blast

theorem normalize_map_normal_witness:
  "\<exists>m'. normalize_map sample_map = Some m' \<and> normal_map m'"
  by (rule normalize_map_normal [OF sample_map_ok])

text \<open>C4: adding a region to an initialized map keeps it in normal form and raises the
  type of the addresses of the new region to at least the new type; addresses the map
  knew keep theirs otherwise.\<close>

theorem pmap_add_types:
  assumes "pm_initialized s" "\<forall>r \<in> set (region (pm_map s)). ok_region r"
    and "sz \<noteq> 0" "unat addr + unat sz < 2 ^ 64"
  shows "\<exists>s'. pmap_add addr sz t s = Some s' \<and> pm_initialized s' \<and> normal_map (pm_map s') \<and>
    (\<forall>a. type_at (region (pm_map s')) a =
       (if unat addr \<le> a \<and> a < unat addr + unat sz
        then Some (case type_at (region (pm_map s)) a of
               None \<Rightarrow> sint (pmemtype_val t) | Some u \<Rightarrow> max u (sint (pmemtype_val t)))
        else case type_at (region (pm_map s)) a of
            None \<Rightarrow> if within (region (add_region addr sz t (pm_map s))) a
                     then Some (sint (pmemtype_val PMEMTYPE_RESERVED)) else None
          | Some u \<Rightarrow> Some u))"
proof -
  let ?m = "add_region addr sz t (pm_map s)"
  let ?r = "\<lparr>reg_addr = addr, reg_size = sz, reg_type = pmemtype_val t, reg_flags = 0\<rparr>"
  have "ok_region ?r" using assms(3,4) by (simp add: ok_region_def rhi_def)
  then have "ok_table (region ?m)" using assms(2) by (auto simp: add_region_def)
  from normalize_table [OF this] obtain m' where m': "normalize_map ?m = Some m'" "normal_map m'"
    "type_at (region m') = filled_type_at (sint (pmemtype_val PMEMTYPE_RESERVED)) (region ?m)"
    by blast
  have app: "type_at (region ?m) a
      = combine_options max (type_at (region (pm_map s)) a) (region_type_at ?r a)" for a
    by (simp add: add_region_def type_at_append)
  have "covers ?r a \<longleftrightarrow> unat addr \<le> a \<and> a < unat addr + unat sz" for a
    by (simp add: covers_def rlo_def rhi_def)
  then have r: "region_type_at ?r a = (if unat addr \<le> a \<and> a < unat addr + unat sz
      then Some (sint (pmemtype_val t)) else None)" for a
    by (simp add: region_type_at_def)
  have "within (region ?m) a" if "type_at (region ?m) a \<noteq> None" for a
    using that type_at_covered [of "region ?m" a] by (auto simp: within_def covers_def)
  with m' assms(1) show ?thesis
    by (auto simp: pmap_add_def filled_type_at_def app r split: option.splits)
qed

theorem pmap_add_types_witness:
  "\<exists>s'. pmap_add 0xa0000 0x20000 PMEMTYPE_UNCACHED \<lparr>pm_map = sample_map, pm_initialized = True\<rparr>
       = Some s' \<and> pm_initialized s' \<and> normal_map (pm_map s') \<and>
     type_at (region (pm_map s')) 0xa0000 = Some 6 \<and> type_at (region (pm_map s')) 0 = Some 1"
  using pmap_add_types [of "\<lparr>pm_map = sample_map, pm_initialized = True\<rparr>" "0x20000" "0xa0000"
    PMEMTYPE_UNCACHED] sample_map_ok
  by (force simp: sample_map_def region_type_at_def covers_def rlo_def rhi_def)

text \<open>C3: whatever BIOS table is found (regions non-empty, types in the enumeration), after
  \<open>pmap_init\<close> the map is initialized and in normal form, the first page is unmapped, no
  address below the end of the kernel image is usable, and video memory is at least
  uncached.\<close>

theorem pmap_init_safe:
  assumes ok: "\<forall>r \<in> set (region (pm_map s)). ok_region r"
    and types: "\<forall>r \<in> set (region (pm_map s)). sint (reg_type r) \<le> 7"
  shows "\<exists>s'. pmap_init s = Some s' \<and> pm_initialized s' \<and> normal_map (pm_map s') \<and>
    (\<forall>a < 0x1000. type_at (region (pm_map s')) a = Some 7) \<and>
    (\<forall>a < 0xa00000. \<exists>u. type_at (region (pm_map s')) a = Some u \<and> 2 \<le> u \<and> u \<le> 7) \<and>
    (\<forall>a < 0xc0000. 0xa0000 \<le> a \<longrightarrow>
       (\<exists>u. type_at (region (pm_map s')) a = Some u \<and> 6 \<le> u \<and> u \<le> 7))"
proof -
  let ?v = "\<lparr>reg_addr = KMEM_VIDEO, reg_size = KMEM_VIDEO_SIZE,
              reg_type = pmemtype_val PMEMTYPE_UNCACHED, reg_flags = 0\<rparr>"
  let ?k = "\<lparr>reg_addr = 0, reg_size = KMEM_KERNEL_IMAGE_END,
              reg_type = pmemtype_val PMEMTYPE_RESERVED, reg_flags = 0\<rparr>"
  let ?z = "\<lparr>reg_addr = 0, reg_size = 0x1000,
              reg_type = pmemtype_val PMEMTYPE_UNMAPPED, reg_flags = 0\<rparr>"
  let ?m = "add_region 0 0x1000 PMEMTYPE_UNMAPPED
         (add_region 0 KMEM_KERNEL_IMAGE_END PMEMTYPE_RESERVED
           (add_region KMEM_VIDEO KMEM_VIDEO_SIZE PMEMTYPE_UNCACHED (pm_map s)))"
  note kmem_values = KMEM_VIDEO_def KMEM_VIDEO_SIZE_def KMEM_KERNEL_IMAGE_END_def
  have new: "ok_region ?v" "ok_region ?k" "ok_region ?z"
    by (simp_all add: ok_region_def rhi_def kmem_values)
  have rs: "set (region ?m) = {?v, ?k, ?z} \<union> set (region (pm_map s))"
    by (auto simp: add_region_def)
  then have "ok_table (region ?m)" using ok new by auto
  from normalize_table [OF this] obtain m' where m': "normalize_map ?m = Some m'" "normal_map m'"
    "type_at (region m') = filled_type_at (sint (pmemtype_val PMEMTYPE_RESERVED)) (region ?m)"
    by blast
  have "\<forall>r \<in> set (region ?m). sint (reg_type r) \<le> 7" using rs types by auto
  then have cov: "\<exists>u. type_at (region m') a = Some u \<and> sint (reg_type r) \<le> u \<and> u \<le> 7"
    if "ok_region r" "r \<in> set (region ?m)" "covers r a" for r a
    using covered_type_between [OF that, of 7] m'(3) by (auto intro: filled_type_covered)
  have "type_at (region m') a = Some 7" if "a < 0x1000" for a
    using cov [OF new(3), of a] that rs by (auto simp: covers_def rlo_def rhi_def)
  moreover have "\<exists>u. type_at (region m') a = Some u \<and> 2 \<le> u \<and> u \<le> 7" if "a < 0xa00000" for a
    using cov [OF new(2), of a] that rs by (auto simp: covers_def rlo_def rhi_def kmem_values)
  moreover have "\<exists>u. type_at (region m') a = Some u \<and> 6 \<le> u \<and> u \<le> 7"
    if "a < 0xc0000" "0xa0000 \<le> a" for a
    using cov [OF new(1), of a] that rs by (auto simp: covers_def rlo_def rhi_def kmem_values)
  ultimately show ?thesis using m'(1,2) by (simp add: pmap_init_def)
qed

theorem pmap_init_safe_witness:
  "\<exists>s'. pmap_init \<lparr>pm_map = sample_map, pm_initialized = False\<rparr> = Some s' \<and>
     normal_map (pm_map s') \<and> type_at (region (pm_map s')) 0 = Some 7"
  using pmap_init_safe [of "\<lparr>pm_map = sample_map, pm_initialized = False\<rparr>"] sample_map_ok
  by (force simp: sample_map_def)


end
