(* ===== verification/Fifo.thy ===== *)
theory Fifo
  imports Prelude
begin

text \<open>
  Ring buffers.  The kernel keeps its queues in fixed arrays with a head index, a tail
  index and a count (the keyboard's input buffer, the records and the text of the log).
  \<open>ring_list\<close> is the queue such an array represents; \<open>bounded_fifo\<close> is the interface
  a bounded queue offers, with what its clients may conclude for whole sequences of calls.
\<close>

section \<open>The list a ring represents\<close>

definition ring_list :: "nat \<Rightarrow> nat \<Rightarrow> nat \<Rightarrow> 'a list \<Rightarrow> 'a list" where
  "ring_list N h n xs = map (\<lambda>i. xs ! ((h + i) mod N)) [0..<n]"

lemma ring_list_length [simp]: "length (ring_list N h n xs) = n"
  by (simp add: ring_list_def)

lemma ring_list_0 [simp]: "ring_list N h 0 xs = []"
  by (simp add: ring_list_def)

lemma ring_list_empty_iff [simp]: "ring_list N h n xs = [] \<longleftrightarrow> n = 0"
  by (simp add: ring_list_def)

lemma ring_list_nth: "i < n \<Longrightarrow> ring_list N h n xs ! i = xs ! ((h + i) mod N)"
  by (simp add: ring_list_def)

lemma mod_shift_neq:
  fixes h i n N :: nat
  assumes "i < n" and "n < N"
  shows "(h + i) mod N \<noteq> (h + n) mod N"
proof
  assume "(h + i) mod N = (h + n) mod N"
  then have "(int h + int i) mod int N = (int h + int n) mod int N"
    by (metis of_nat_add zmod_int)
  then have "int N dvd int n - int i"
    by (metis add_diff_cancel_left mod_eq_dvd_iff)
  then have "N dvd n - i" using assms by (metis int_dvd_int_iff of_nat_diff less_imp_le)
  then show False using assms by (meson dvd_imp_le leD less_imp_diff_less zero_less_diff)
qed

lemma ring_list_snoc:
  assumes "length xs = N" and "n < N"
  shows "ring_list N h (Suc n) (xs[(h + n) mod N := x]) = ring_list N h n xs @ [x]"
proof (rule nth_equalityI)
  fix i assume "i < length (ring_list N h (Suc n) (xs[(h + n) mod N := x]))"
  then consider "i < n" | "i = n" by fastforce
  then show "ring_list N h (Suc n) (xs[(h + n) mod N := x]) ! i = (ring_list N h n xs @ [x]) ! i"
    by cases (use assms mod_shift_neq [of i n N h] in
      \<open>auto simp: ring_list_nth nth_append nth_list_update\<close>)
qed simp

lemma ring_list_Cons:
  assumes "h < N"
  shows "ring_list N h (Suc n) xs = xs ! h # ring_list N ((h + 1) mod N) n xs"
proof (rule nth_equalityI)
  fix i assume "i < length (ring_list N h (Suc n) xs)"
  then show "ring_list N h (Suc n) xs ! i = (xs ! h # ring_list N ((h + 1) mod N) n xs) ! i"
    using assms by (cases i) (auto simp: ring_list_nth mod_simps)
qed simp

text \<open>Adding a block behind the last element.\<close>

lemma ring_list_block:
  assumes "length bs = k" and "n + k \<le> N"
    and new: "\<And>i. i < k \<Longrightarrow> ys ! ((h + n + i) mod N) = bs ! i"
    and old: "\<And>j. j < N \<Longrightarrow> (\<And>i. i < k \<Longrightarrow> j \<noteq> (h + n + i) mod N) \<Longrightarrow> ys ! j = xs ! j"
  shows "ring_list N h (n + k) ys = ring_list N h n xs @ bs"
proof (rule nth_equalityI)
  show "length (ring_list N h (n + k) ys) = length (ring_list N h n xs @ bs)" using assms(1) by simp
next
  fix i assume "i < length (ring_list N h (n + k) ys)"
  then have i: "i < n + k" by simp
  show "ring_list N h (n + k) ys ! i = (ring_list N h n xs @ bs) ! i"
  proof (cases "i < n")
    case True
    have "(h + i) mod N \<noteq> (h + n + j) mod N" if "j < k" for j
      using mod_shift_neq [of i "n + j" N h] True that assms(2) by (simp add: add.assoc)
    moreover have "(h + i) mod N < N" using i assms(2) by (intro mod_less_divisor) simp
    ultimately have "ys ! ((h + i) mod N) = xs ! ((h + i) mod N)" by (intro old)
    then show ?thesis using True i by (simp add: ring_list_nth nth_append)
  next
    case False
    then show ?thesis using new [of "i - n"] i by (simp add: ring_list_nth nth_append)
  qed
qed

text \<open>A block copied at the tail, in one piece or split at the end of the array.\<close>

lemma ring_copy_whole:
  assumes "length xs = N" "t + length bs \<le> N" "t mod N = (h + n) mod N" "n + length bs \<le> N"
    "bs \<noteq> []"
  shows "ring_list N h (n + length bs) (take t xs @ bs @ drop (t + length bs) xs)
       = ring_list N h n xs @ bs"
proof (rule ring_list_block [OF refl assms(4)])
  have pos: "(h + n + i) mod N = t + i" if "i < length bs" for i
  proof -
    have "(h + n + i) mod N = (t + i) mod N" using assms(3) by (metis mod_add_left_eq)
    then show ?thesis using assms(2) that by simp
  qed
  show "(take t xs @ bs @ drop (t + length bs) xs) ! ((h + n + i) mod N) = bs ! i"
    if "i < length bs" for i
    using that assms(1,2) by (simp add: pos nth_append)
  show "(take t xs @ bs @ drop (t + length bs) xs) ! j = xs ! j"
    if "j < N" "\<And>i. i < length bs \<Longrightarrow> j \<noteq> (h + n + i) mod N" for j
  proof (cases "j < t \<or> t + length bs \<le> j")
    case True
    then show ?thesis using assms(1,2) that(1) by (auto simp: nth_append)
  next
    case False
    then have "j = t + (j - t)" "j - t < length bs" by auto
    then show ?thesis using that(2) [of "j - t"] pos [of "j - t"] by simp
  qed
qed

lemma ring_copy_split:
  assumes "length xs = N" "t \<le> N" "N < t + length bs" "t mod N = (h + n) mod N"
    "n + length bs \<le> N"
  defines "a \<equiv> N - t"
  defines "ys \<equiv> take t xs @ take a bs"
  shows "ring_list N h (n + length bs) (drop a bs @ drop (length bs - a) ys)
       = ring_list N h n xs @ bs"
proof (rule ring_list_block [OF refl assms(5)])
  have la: "a < length bs" "length ys = N" using assms(1-3) by (auto simp: a_def ys_def)
  have pos: "(h + n + i) mod N = (if i < a then t + i else i - a)" if "i < length bs" for i
  proof -
    have "(h + n + i) mod N = (t + i) mod N" using assms(4) by (metis mod_add_left_eq)
    also have "\<dots> = (if i < a then t + i else i - a)"
    proof (cases "i < a")
      case False
      then have "t + i = N + (i - a)" "i - a < N" using that assms(2,5) by (auto simp: a_def)
      then have "(t + i) mod N = i - a" by (metis mod_add_self1 mod_less)
      then show ?thesis using False by simp
    qed (use assms(2) in \<open>auto simp: a_def\<close>)
    finally show ?thesis .
  qed
  have len: "length bs \<le> N" using assms(5) by simp
  show "(drop a bs @ drop (length bs - a) ys) ! ((h + n + i) mod N) = bs ! i"
    if i: "i < length bs" for i
  proof (cases "i < a")
    case True
    have "ys ! (t + i) = bs ! i" using True la assms(1,2) by (simp add: ys_def nth_append)
    moreover have le: "length bs - a \<le> t + i" using len assms(2) by (simp add: a_def)
    moreover have "drop (length bs - a) ys ! (t + i - (length bs - a)) = ys ! (t + i)"
      using le len la by (subst nth_drop) auto
    ultimately show ?thesis using True i la by (simp add: pos nth_append)
  next
    case False
    then have "i - a < length bs - a" using i by linarith
    then show ?thesis using False i la by (simp add: pos nth_append)
  qed
  show "(drop a bs @ drop (length bs - a) ys) ! j = xs ! j"
    if j: "j < N" "\<And>i. i < length bs \<Longrightarrow> j \<noteq> (h + n + i) mod N" for j
  proof -
    have "\<not> j < length bs - a"
    proof
      assume "j < length bs - a"
      then have "a + j < length bs" by linarith
      then show False using j(2) [of "a + j"] pos [of "a + j"] by simp
    qed
    moreover have "j < t"
    proof (rule ccontr)
      assume "\<not> j < t"
      then have "j - t < a" "j = t + (j - t)" using j(1) assms(2) by (auto simp: a_def)
      then show False using j(2) [of "j - t"] pos [of "j - t"] la(1) by simp
    qed
    moreover have "drop (length bs - a) ys ! (j - (length bs - a)) = ys ! j" if "length bs - a \<le> j"
      using that len la by (subst nth_drop) auto
    moreover have "ys ! j = xs ! j" if "j < t"
      using that assms(1,2) by (simp add: ys_def nth_append)
    ultimately show ?thesis by (simp add: nth_append)
  qed
qed

section \<open>Bounded queues\<close>

datatype 'a fifo_op = Enq 'a | Deq

text \<open>The queue of a bounded list: a full one drops what is added to it.\<close>

fun fifo_spec :: "nat \<Rightarrow> 'a fifo_op list \<Rightarrow> 'a list \<Rightarrow> 'a option list \<times> 'a list" where
  "fifo_spec cap [] q = ([], q)"
| "fifo_spec cap (Enq x # ops) q =
     fifo_spec cap ops (if List.length q < cap then q @ [x] else q)"
| "fifo_spec cap (Deq # ops) q =
     (case q of
        [] \<Rightarrow> let (outs, q') = fifo_spec cap ops [] in (None # outs, q')
      | x # q1 \<Rightarrow> let (outs, q') = fifo_spec cap ops q1 in (Some x # outs, q'))"

text \<open>The same operations on an implementation.\<close>

fun fifo_impl :: "('a \<Rightarrow> 's \<Rightarrow> 's) \<Rightarrow> ('s \<Rightarrow> 'a option \<times> 's) \<Rightarrow> 'a fifo_op list \<Rightarrow> 's
    \<Rightarrow> 'a option list \<times> 's" where
  "fifo_impl enq deq [] s = ([], s)"
| "fifo_impl enq deq (Enq x # ops) s = fifo_impl enq deq ops (enq x s)"
| "fifo_impl enq deq (Deq # ops) s =
     (let (r, s1) = deq s; (outs, s2) = fifo_impl enq deq ops s1 in (r # outs, s2))"

locale bounded_fifo =
  fixes enq :: "'a \<Rightarrow> 's \<Rightarrow> 's"
    and deq :: "'s \<Rightarrow> 'a option \<times> 's"
    and inv :: "'s \<Rightarrow> bool"
    and contents :: "'s \<Rightarrow> 'a list"
    and cap :: nat
  assumes enq_inv: "inv s \<Longrightarrow> inv (enq x s)"
    and enq_contents: "inv s \<Longrightarrow>
      contents (enq x s) = (if length (contents s) < cap then contents s @ [x] else contents s)"
    and deq_inv: "inv s \<Longrightarrow> inv (snd (deq s))"
    and deq_empty: "inv s \<Longrightarrow> contents s = [] \<Longrightarrow> deq s = (None, s)"
    and deq_cons: "inv s \<Longrightarrow> contents s = x # q \<Longrightarrow>
      fst (deq s) = Some x \<and> contents (snd (deq s)) = q"
    and cap_bound: "inv s \<Longrightarrow> length (contents s) \<le> cap"
begin

lemma run_inv: "inv s \<Longrightarrow> inv (snd (fifo_impl enq deq ops s))"
proof (induction ops arbitrary: s)
  case (Cons op ops)
  then show ?case
    by (cases op) (auto simp: enq_inv split_beta deq_inv)
qed simp

lemma run_refines:
  "inv s \<Longrightarrow>
     fifo_spec cap ops (contents s)
       = (fst (fifo_impl enq deq ops s), contents (snd (fifo_impl enq deq ops s)))"
proof (induction ops arbitrary: s)
  case (Cons op ops)
  show ?case
  proof (cases op)
    case (Enq x)
    then show ?thesis
      using Cons.IH [OF enq_inv [OF Cons.prems, of x]] by (simp add: enq_contents [OF Cons.prems])
  next
    case Deq
    note IH = Cons.IH [OF deq_inv [OF Cons.prems]]
    show ?thesis
    proof (cases "contents s")
      case Nil
      then show ?thesis
        using IH deq_empty [OF Cons.prems Nil] Deq by (simp add: split_beta)
    next
      case (Cons x q)
      then show ?thesis
        using IH deq_cons [OF Cons.prems Cons] Deq by (simp add: split_beta)
    qed
  qed
qed simp

text \<open>Nothing is reordered: the results of a run that only takes are a prefix of the queue.\<close>

lemma drain:
  assumes "inv s" and "n \<le> length (contents s)"
  shows "fst (fifo_impl enq deq (replicate n Deq) s) = map Some (take n (contents s))
       \<and> contents (snd (fifo_impl enq deq (replicate n Deq) s)) = drop n (contents s)"
  using assms
proof (induction n arbitrary: s)
  case (Suc n)
  then obtain x q where q: "contents s = x # q" by (cases "contents s") auto
  note d = deq_cons [OF Suc.prems(1) q]
  show ?case
    using Suc.IH [OF deq_inv [OF Suc.prems(1)]] Suc.prems(2) q d by (auto simp: split_beta)
qed simp

end

end
