(* ===== verification/Keyboard.thy ===== *)
theory Keyboard
  imports Fifo
begin

text \<open>
  \<^verbatim>\<open>kernel/device/keyboard.c\<close> and \<^verbatim>\<open>include/kernel/device/keyboard.h\<close>: the keyboard
  interrupt handler, which turns scan codes into key records and stores them in a ring
  buffer of 32 entries, and the consumers \<open>kb_getkey\<close> and \<open>kb_getchar\<close>, which the
  handler may interrupt between any two of their steps.
\<close>

section \<open>Data\<close>

definition MAX_BUFSIZ :: nat where "MAX_BUFSIZ = 32"

definition KEYBRK_DOWN :: u8 where "KEYBRK_DOWN = 0"
definition KEYBRK_UP :: u8 where "KEYBRK_UP = 1"

definition META_SHIFT :: u8 where "META_SHIFT = 1"
definition META_CTRL :: u8 where "META_CTRL = 2"
definition META_ALT :: u8 where "META_ALT = 4"
definition META_ESCAPED :: u8 where "META_ESCAPED = 8"
definition META_CAPSLOCK :: u8 where "META_CAPSLOCK = 16"
definition META_NUMLOCK :: u8 where "META_NUMLOCK = 32"
definition META_SCRLOCK :: u8 where "META_SCRLOCK = 64"

lemmas meta_defs = META_SHIFT_def META_CTRL_def META_ALT_def META_ESCAPED_def
  META_CAPSLOCK_def META_NUMLOCK_def META_SCRLOCK_def

datatype keycode =
  KEY_BACKSPACE | KEY_TAB | KEY_ENTER | KEY_ESCAPE | KEY_CTRL | KEY_SHIFT | KEY_ALT
| KEY_PRTSCR | KEY_CAPSLOCK | KEY_NUMLOCK | KEY_SCRLOCK
| KEY_INSERT | KEY_END | KEY_DOWN | KEY_PGDN | KEY_LEFT | KEY_CENTER | KEY_RIGHT | KEY_HOME
| KEY_UP | KEY_PGUP | KEY_DEL | KEY_MINUS | KEY_PLUS
| KEY_F1 | KEY_F2 | KEY_F3 | KEY_F4 | KEY_F5 | KEY_F6 | KEY_F7 | KEY_F8 | KEY_F9
| KEY_F10 | KEY_F11 | KEY_F12 | KEY_SCANESC | KEY_INVALID

primrec kc :: "keycode \<Rightarrow> u8" where
  "kc KEY_BACKSPACE = 0x08"
| "kc KEY_TAB = 0x09"
| "kc KEY_ENTER = 0x0d"
| "kc KEY_ESCAPE = 0x1b"
| "kc KEY_CTRL = 0x81"
| "kc KEY_SHIFT = 0x82"
| "kc KEY_ALT = 0x83"
| "kc KEY_PRTSCR = 0x90"
| "kc KEY_CAPSLOCK = 0x91"
| "kc KEY_NUMLOCK = 0x92"
| "kc KEY_SCRLOCK = 0x93"
| "kc KEY_INSERT = 0xa0"
| "kc KEY_END = 0xa1"
| "kc KEY_DOWN = 0xa2"
| "kc KEY_PGDN = 0xa3"
| "kc KEY_LEFT = 0xa4"
| "kc KEY_CENTER = 0xa5"
| "kc KEY_RIGHT = 0xa6"
| "kc KEY_HOME = 0xa7"
| "kc KEY_UP = 0xa8"
| "kc KEY_PGUP = 0xa9"
| "kc KEY_DEL = 0xaa"
| "kc KEY_MINUS = 0xab"
| "kc KEY_PLUS = 0xac"
| "kc KEY_F1 = 0xb0"
| "kc KEY_F2 = 0xb1"
| "kc KEY_F3 = 0xb2"
| "kc KEY_F4 = 0xb3"
| "kc KEY_F5 = 0xb4"
| "kc KEY_F6 = 0xb5"
| "kc KEY_F7 = 0xb6"
| "kc KEY_F8 = 0xb7"
| "kc KEY_F9 = 0xb8"
| "kc KEY_F10 = 0xb9"
| "kc KEY_F11 = 0xba"
| "kc KEY_F12 = 0xbb"
| "kc KEY_SCANESC = 0xfe"
| "kc KEY_INVALID = 0xff"

record key =
  key_brk :: u8
  key_meta :: u8
  key_code :: u8
  key_ch :: u8

definition null_key :: key where
  "null_key = \<lparr>key_brk = 0, key_meta = 0, key_code = 0, key_ch = 0\<rparr>"

record keylayout =
  shifted :: "u8 list"
  unshifted :: "u8 list"

text \<open>The US English scan map; a scan code without its break bit is below 128, the length
  of both tables.\<close>

definition ps2_layout :: keylayout where
  "ps2_layout = \<lparr>
     shifted =
       [kc KEY_INVALID, kc KEY_ESCAPE] @ asc ''!@#$%^&*()_+'' @ [kc KEY_BACKSPACE, kc KEY_TAB]
       @ asc ''QWERTYUIOP{}'' @ [kc KEY_ENTER, kc KEY_CTRL] @ asc ''ASDFGHJKL:''
       @ [0x22] @ asc ''~'' @ [kc KEY_SHIFT] @ asc ''|ZXCVBNM<>?''
       @ [kc KEY_SHIFT, kc KEY_PRTSCR, kc KEY_ALT, 0x20, kc KEY_CAPSLOCK,
          kc KEY_F1, kc KEY_F2, kc KEY_F3, kc KEY_F4, kc KEY_F5, kc KEY_F6, kc KEY_F7,
          kc KEY_F8, kc KEY_F9, kc KEY_F10, kc KEY_NUMLOCK, kc KEY_SCRLOCK, kc KEY_HOME,
          kc KEY_UP, kc KEY_PGUP, kc KEY_MINUS, kc KEY_LEFT, kc KEY_CENTER, kc KEY_RIGHT,
          kc KEY_PLUS, kc KEY_END, kc KEY_DOWN, kc KEY_PGDN, kc KEY_INSERT, kc KEY_DEL]
       @ replicate 3 (kc KEY_INVALID) @ [kc KEY_F11, kc KEY_F12] @ replicate 7 (kc KEY_INVALID)
       @ [kc KEY_SCANESC, kc KEY_SCANESC] @ replicate 30 (kc KEY_INVALID),
     unshifted =
       [kc KEY_INVALID, kc KEY_ESCAPE] @ asc ''1234567890-='' @ [kc KEY_BACKSPACE, kc KEY_TAB]
       @ asc ''qwertyuiop[]'' @ [kc KEY_ENTER, kc KEY_CTRL] @ asc ''asdfghjkl;''
       @ [0x27] @ asc ''`'' @ [kc KEY_SHIFT, 0x5c] @ asc ''zxcvbnm,./''
       @ [kc KEY_SHIFT, kc KEY_PRTSCR, kc KEY_ALT, 0x20, kc KEY_CAPSLOCK,
          kc KEY_F1, kc KEY_F2, kc KEY_F3, kc KEY_F4, kc KEY_F5, kc KEY_F6, kc KEY_F7,
          kc KEY_F8, kc KEY_F9, kc KEY_F10, kc KEY_NUMLOCK, kc KEY_SCRLOCK, kc KEY_HOME,
          kc KEY_UP, kc KEY_PGUP, kc KEY_MINUS, kc KEY_LEFT, kc KEY_CENTER, kc KEY_RIGHT,
          kc KEY_PLUS, kc KEY_END, kc KEY_DOWN, kc KEY_PGDN, kc KEY_INSERT, kc KEY_DEL]
       @ replicate 3 (kc KEY_INVALID) @ [kc KEY_F11, kc KEY_F12] @ replicate 7 (kc KEY_INVALID)
       @ [kc KEY_SCANESC, kc KEY_SCANESC] @ replicate 30 (kc KEY_INVALID)\<rparr>"

record kbstate =
  layout :: keylayout
  kb_meta_mask :: u8
  buf_head :: u8
  buf_tail :: u8
  buf_size :: u8
  buf :: "key list"

section \<open>The interrupt handler\<close>

definition toggle :: "u8 \<Rightarrow> kbstate \<Rightarrow> kbstate" where
  "toggle flag s =
     (if kb_meta_mask s AND flag \<noteq> 0
      then s\<lparr>kb_meta_mask := kb_meta_mask s AND NOT flag\<rparr>
      else s\<lparr>kb_meta_mask := kb_meta_mask s OR flag\<rparr>)"

definition addkey :: "u8 \<Rightarrow> u8 \<Rightarrow> u8 \<Rightarrow> u8 \<Rightarrow> kbstate \<Rightarrow> kbstate" where
  "addkey brk mt code c s0 =
     (let s = s0\<lparr>kb_meta_mask := kb_meta_mask s0 AND NOT META_ESCAPED\<rparr> in
      if unat (buf_size s) = MAX_BUFSIZ then s
      else
        let k = \<lparr>key_brk = brk, key_meta = mt, key_code = code, key_ch = c\<rparr>;
            s = s\<lparr>buf := (buf s)[unat (buf_tail s) := k], buf_tail := buf_tail s + 1\<rparr>;
            s = (if unat (buf_tail s) = MAX_BUFSIZ then s\<lparr>buf_tail := 0\<rparr> else s)
        in s\<lparr>buf_size := buf_size s + 1\<rparr>)"

definition PIC_PORT_CMD_MASTER :: u16 where "PIC_PORT_CMD_MASTER = 0x20"
definition PIC_CMD_EOI :: u8 where "PIC_CMD_EOI = 0x20"
definition KB_PORT_DATA :: u16 where "KB_PORT_DATA = 0x60"

text \<open>The two \<open>switch\<close> statements on the key code.\<close>

definition keyup_meta :: "u8 \<Rightarrow> kbstate \<Rightarrow> kbstate" where
  "keyup_meta k s =
     (if k = kc KEY_SHIFT then s\<lparr>kb_meta_mask := kb_meta_mask s AND NOT META_SHIFT\<rparr>
      else if k = kc KEY_CTRL then s\<lparr>kb_meta_mask := kb_meta_mask s AND NOT META_CTRL\<rparr>
      else if k = kc KEY_ALT then s\<lparr>kb_meta_mask := kb_meta_mask s AND NOT META_ALT\<rparr>
      else if k = kc KEY_CAPSLOCK then toggle META_CAPSLOCK s
      else if k = kc KEY_NUMLOCK then toggle META_NUMLOCK s
      else if k = kc KEY_SCRLOCK then toggle META_SCRLOCK s
      else s)"

definition keydown_meta :: "u8 \<Rightarrow> kbstate \<Rightarrow> kbstate" where
  "keydown_meta k s =
     (if k = kc KEY_SHIFT then s\<lparr>kb_meta_mask := kb_meta_mask s OR META_SHIFT\<rparr>
      else if k = kc KEY_CTRL then s\<lparr>kb_meta_mask := kb_meta_mask s OR META_CTRL\<rparr>
      else if k = kc KEY_ALT then s\<lparr>kb_meta_mask := kb_meta_mask s OR META_ALT\<rparr>
      else s)"

definition is_lower :: "u8 \<Rightarrow> bool" where
  "is_lower k \<longleftrightarrow> 0x61 \<le> k \<and> k \<le> 0x7a"

text \<open>The character of a key press: the key itself without Ctrl and Alt, a control code
  for Ctrl with a letter, none otherwise.\<close>

definition key_char :: "u8 \<Rightarrow> u8 \<Rightarrow> u8 \<Rightarrow> u8" where
  "key_char mt keycode ukeycode =
     (if keycode < 0x80 then
        if mt AND (META_CTRL OR META_ALT) = 0 then keycode
        else if mt AND (META_CTRL OR META_ALT) = META_CTRL then
          if is_lower ukeycode then ukeycode - 0x61 + 1 else 0
        else 0
      else 0)"

text \<open>\<open>isr_keyboard data s\<close>: \<open>data\<close> is the byte the keyboard's data port delivers.\<close>

definition isr_keyboard :: "u8 \<Rightarrow> kbstate \<Rightarrow> kbstate \<times> io_event list" where
  "isr_keyboard data s =
     (let keyup = data AND 0x80 \<noteq> 0;
          scancode = data AND NOT 0x80;
          shift = kb_meta_mask s AND META_SHIFT \<noteq> 0;
          ukeycode = unshifted (layout s) ! unat scancode;
          s' =
            (if ukeycode = kc KEY_SCANESC
             then s\<lparr>kb_meta_mask := kb_meta_mask s OR META_ESCAPED\<rparr>
             else
               let shift = (if kb_meta_mask s AND META_CAPSLOCK \<noteq> 0 \<and> is_lower ukeycode
                            then \<not> shift else shift);
                   keycode = (if shift then shifted (layout s) ! unat scancode else ukeycode)
               in if keyup
                  then let s = keyup_meta keycode s
                       in addkey KEYBRK_UP (kb_meta_mask s) ukeycode 0 s
                  else let s = keydown_meta keycode s
                       in addkey KEYBRK_DOWN (kb_meta_mask s) ukeycode
                            (key_char (kb_meta_mask s) keycode ukeycode) s)
      in (s', [InB KB_PORT_DATA data, OutB PIC_PORT_CMD_MASTER PIC_CMD_EOI]))"

section \<open>Initialization and the consumers\<close>

definition TRAP_IRQ_KEYBOARD :: nat where "TRAP_IRQ_KEYBOARD = 0x21"
definition IRQ_KEYBOARD :: u8 where "IRQ_KEYBOARD = 1"

definition kb_init :: "kbstate \<Rightarrow> kbstate \<times> io_event list" where
  "kb_init s =
     (s\<lparr>layout := ps2_layout, kb_meta_mask := 0, buf_head := 0, buf_tail := 0,
        buf_size := 0, buf := replicate MAX_BUFSIZ null_key\<rparr>,
      [IsrSet TRAP_IRQ_KEYBOARD ''isr_keyboard'', IrqEnable IRQ_KEYBOARD])"

definition kb_setlayout :: "keylayout \<Rightarrow> kbstate \<Rightarrow> kbstate" where
  "kb_setlayout l s = s\<lparr>layout := l\<rparr>"

definition kb_meta :: "kbstate \<Rightarrow> u8" where
  "kb_meta s = kb_meta_mask s"

text \<open>The common tail of both consumers: take the entry at the head of the ring.\<close>

definition kb_take :: "kbstate \<Rightarrow> key \<times> kbstate" where
  "kb_take s =
     (let k = buf s ! unat (buf_head s);
          s = s\<lparr>buf_head := buf_head s + 1\<rparr>;
          s = (if unat (buf_head s) = MAX_BUFSIZ then s\<lparr>buf_head := 0\<rparr> else s)
      in (k, s\<lparr>buf_size := buf_size s - 1\<rparr>))"

definition kb_getkey :: "kbstate \<Rightarrow> bool \<times> key \<times> kbstate" where
  "kb_getkey s =
     (if buf_size s = 0 then (False, null_key, s)
      else let (k, s') = kb_take s in (True, k, s'))"

function kb_getchar :: "kbstate \<Rightarrow> u8 \<times> kbstate" where
  "kb_getchar s =
     (if buf_size s = 0 then (0, s)
      else let (k, s') = kb_take s
           in if key_ch k \<noteq> 0 then (key_ch k, s') else kb_getchar s')"
  by pat_completeness auto
termination
proof (relation "measure (\<lambda>s. unat (buf_size s))", goal_cases)
  case (2 s x k s')
  then have "buf_size s' = buf_size s - 1" by (auto simp: kb_take_def Let_def split: if_splits)
  with 2 show ?case by (simp add: unat_minus_one unat_gt_0)
qed simp

declare kb_getchar.simps [simp del]

section \<open>The ring buffer is a bounded queue\<close>

definition kb_contents :: "kbstate \<Rightarrow> key list" where
  "kb_contents s = ring_list MAX_BUFSIZ (unat (buf_head s)) (unat (buf_size s)) (buf s)"

definition kb_inv :: "kbstate \<Rightarrow> bool" where
  "kb_inv s \<longleftrightarrow>
     unat (buf_head s) < MAX_BUFSIZ \<and> unat (buf_size s) \<le> MAX_BUFSIZ \<and>
     unat (buf_tail s) = (unat (buf_head s) + unat (buf_size s)) mod MAX_BUFSIZ \<and>
     length (buf s) = MAX_BUFSIZ"

definition layout_ok :: "keylayout \<Rightarrow> bool" where
  "layout_ok l \<longleftrightarrow> length (shifted l) = 128 \<and> length (unshifted l) = 128"

definition kb_put :: "key \<Rightarrow> kbstate \<Rightarrow> kbstate" where
  "kb_put k s = addkey (key_brk k) (key_meta k) (key_code k) (key_ch k) s"

definition kb_deq :: "kbstate \<Rightarrow> key option \<times> kbstate" where
  "kb_deq s = (case kb_getkey s of (b, k, s') \<Rightarrow> (if b then Some k else None, s'))"

lemma ps2_layout_ok: "layout_ok ps2_layout"
  by (simp add: layout_ok_def ps2_layout_def)

lemma unat_u8_Suc: "unat (a::u8) < 255 \<Longrightarrow> unat (a + 1) = Suc (unat a)"
  by (simp add: unat_word_ariths)

lemma unat_u8_pred: "a \<noteq> 0 \<Longrightarrow> unat ((a::u8) - 1) = unat a - 1"
  by (rule unat_minus_one)

lemma ring_wrap: "unat (a::u8) < MAX_BUFSIZ \<Longrightarrow>
    unat (if unat (a + 1) = MAX_BUFSIZ then 0 else a + 1) = (unat a + 1) mod MAX_BUFSIZ"
  by (auto simp: MAX_BUFSIZ_def unat_u8_Suc mod_if)

lemma addkey_fields:
  assumes "kb_inv s"
  shows "kb_inv (addkey b m c h s)"
    and "kb_contents (addkey b m c h s) =
      (if length (kb_contents s) < MAX_BUFSIZ
       then kb_contents s @ [\<lparr>key_brk = b, key_meta = m, key_code = c, key_ch = h\<rparr>]
       else kb_contents s)"
    and "layout (addkey b m c h s) = layout s"
    and "kb_meta_mask (addkey b m c h s) = kb_meta_mask s AND NOT META_ESCAPED"
proof -
  let ?k = "\<lparr>key_brk = b, key_meta = m, key_code = c, key_ch = h\<rparr>"
  let ?s = "addkey b m c h s"
  have tl: "unat (buf_tail s) < MAX_BUFSIZ" using assms by (simp add: kb_inv_def MAX_BUFSIZ_def)
  show "layout ?s = layout s" "kb_meta_mask ?s = kb_meta_mask s AND NOT META_ESCAPED"
    by (auto simp: addkey_def Let_def)
  have "kb_inv ?s \<and> kb_contents ?s = (if length (kb_contents s) < MAX_BUFSIZ
      then kb_contents s @ [?k] else kb_contents s)"
  proof (cases "unat (buf_size s) = MAX_BUFSIZ")
    case True
    then show ?thesis using assms by (simp add: addkey_def kb_inv_def kb_contents_def)
  next
    case False
    then have lt: "unat (buf_size s) < MAX_BUFSIZ" using assms by (simp add: kb_inv_def)
    have sz: "unat (buf_size s + 1) = Suc (unat (buf_size s))"
      using lt by (intro unat_u8_Suc) (simp add: MAX_BUFSIZ_def)
    have hd: "buf_head ?s = buf_head s"
      and bs: "buf_size ?s = buf_size s + 1"
      and bf: "buf ?s = (buf s)[unat (buf_tail s) := ?k]"
      and bt: "buf_tail ?s = (if unat (buf_tail s + 1) = MAX_BUFSIZ then 0 else buf_tail s + 1)"
      using False by (auto simp: addkey_def Let_def)
    have bt': "unat (buf_tail ?s) = (unat (buf_tail s) + 1) mod MAX_BUFSIZ"
      unfolding bt by (rule ring_wrap [OF tl])
    have "kb_inv ?s"
      using assms lt by (simp add: kb_inv_def hd bs bf bt' sz mod_simps)
    moreover have "kb_contents ?s = kb_contents s @ [?k]"
      using assms lt by (simp add: kb_contents_def hd bs bf sz kb_inv_def ring_list_snoc)
    ultimately show ?thesis using lt by (simp add: kb_contents_def)
  qed
  then show "kb_inv ?s"
    and "kb_contents ?s = (if length (kb_contents s) < MAX_BUFSIZ
      then kb_contents s @ [?k] else kb_contents s)" by blast+
qed

lemma kb_take_fields:
  assumes "kb_inv s" and "buf_size s \<noteq> 0"
  shows "kb_inv (snd (kb_take s))"
    and "kb_contents s = fst (kb_take s) # kb_contents (snd (kb_take s))"
    and "layout (snd (kb_take s)) = layout s"
    and "kb_meta_mask (snd (kb_take s)) = kb_meta_mask s"
proof -
  let ?s = "snd (kb_take s)"
  have hl: "unat (buf_head s) < MAX_BUFSIZ" using assms by (simp add: kb_inv_def)
  have sz: "unat (buf_size s) = Suc (unat (buf_size s - 1))"
    using assms(2) by (simp add: unat_u8_pred unat_gt_0 Suc_diff_1)
  have f: "fst (kb_take s) = buf s ! unat (buf_head s)" "buf_size ?s = buf_size s - 1"
    "buf ?s = buf s" "buf_tail ?s = buf_tail s"
    "buf_head ?s = (if unat (buf_head s + 1) = MAX_BUFSIZ then 0 else buf_head s + 1)"
    by (auto simp: kb_take_def Let_def)
  have hd: "unat (buf_head ?s) = (unat (buf_head s) + 1) mod MAX_BUFSIZ"
    unfolding f(5) by (rule ring_wrap [OF hl])
  show "layout ?s = layout s" "kb_meta_mask ?s = kb_meta_mask s"
    by (auto simp: kb_take_def Let_def)
  show "kb_inv ?s"
    using assms sz by (simp add: kb_inv_def f(1-4) hd mod_simps MAX_BUFSIZ_def)
  show "kb_contents s = fst (kb_take s) # kb_contents ?s"
    using ring_list_Cons [OF hl] by (simp add: kb_contents_def f(1-4) hd sz)
qed

lemma kb_put_contents:
  "kb_inv s \<Longrightarrow> kb_contents (kb_put k s)
     = (if length (kb_contents s) < MAX_BUFSIZ then kb_contents s @ [k] else kb_contents s)"
  by (simp add: kb_put_def addkey_fields)

interpretation kbq: bounded_fifo kb_put kb_deq kb_inv kb_contents MAX_BUFSIZ
proof unfold_locales
  fix s :: kbstate and k assume inv: "kb_inv s"
  show "kb_inv (kb_put k s)" using inv by (simp add: kb_put_def addkey_fields)
  show "kb_contents (kb_put k s)
      = (if length (kb_contents s) < MAX_BUFSIZ then kb_contents s @ [k] else kb_contents s)"
    using inv by (rule kb_put_contents)
  show "kb_inv (snd (kb_deq s))"
    using inv kb_take_fields(1) [OF inv] by (auto simp: kb_deq_def kb_getkey_def split_beta)
  show "length (kb_contents s) \<le> MAX_BUFSIZ" using inv by (simp add: kb_contents_def kb_inv_def)
next
  fix s :: kbstate assume "kb_inv s" "kb_contents s = []"
  then show "kb_deq s = (None, s)"
    by (simp add: kb_deq_def kb_getkey_def kb_contents_def unat_eq_0)
next
  fix s :: kbstate and x q assume a: "kb_inv s" "kb_contents s = x # q"
  then have "buf_size s \<noteq> 0" by (auto simp: kb_contents_def)
  with a kb_take_fields(2) [OF a(1) this] show "fst (kb_deq s) = Some x \<and> kb_contents (snd (kb_deq s)) = q"
    by (auto simp: kb_deq_def kb_getkey_def split_beta)
qed

section \<open>What one interrupt does\<close>

text \<open>The key record an interrupt generates; none for the scan escape prefix.\<close>

definition isr_key :: "u8 \<Rightarrow> kbstate \<Rightarrow> key option" where
  "isr_key data s =
     (let u = unshifted (layout s) ! unat (data AND NOT 0x80);
          sh = ((kb_meta_mask s AND META_SHIFT \<noteq> 0)
                \<noteq> (kb_meta_mask s AND META_CAPSLOCK \<noteq> 0 \<and> is_lower u));
          k = (if sh then shifted (layout s) ! unat (data AND NOT 0x80) else u);
          up = data AND 0x80 \<noteq> 0;
          mt = kb_meta_mask (if up then keyup_meta k s else keydown_meta k s)
      in if u = kc KEY_SCANESC then None
         else Some \<lparr>key_brk = (if up then KEYBRK_UP else KEYBRK_DOWN), key_meta = mt, key_code = u,
                key_ch = (if up then 0 else key_char mt k u)\<rparr>)"

lemma keyup_meta_upd: "keyup_meta k s = s\<lparr>kb_meta_mask := kb_meta_mask (keyup_meta k s)\<rparr>"
  by (simp add: keyup_meta_def toggle_def)

lemma keydown_meta_upd: "keydown_meta k s = s\<lparr>kb_meta_mask := kb_meta_mask (keydown_meta k s)\<rparr>"
  by (simp add: keydown_meta_def)

lemma isr_decompose:
  "isr_keyboard d s =
     ((case isr_key d s of
         None \<Rightarrow> s\<lparr>kb_meta_mask := kb_meta_mask s OR META_ESCAPED\<rparr>
       | Some k \<Rightarrow> kb_put k (s\<lparr>kb_meta_mask := key_meta k\<rparr>)),
      [InB KB_PORT_DATA d, OutB PIC_PORT_CMD_MASTER PIC_CMD_EOI])"
proof -
  have up: "keyup_meta k s = s\<lparr>kb_meta_mask := m\<rparr>" if "m = kb_meta_mask (keyup_meta k s)" for k m
    using that keyup_meta_upd by blast
  have dn: "keydown_meta k s = s\<lparr>kb_meta_mask := m\<rparr>" if "m = kb_meta_mask (keydown_meta k s)" for k m
    using that keydown_meta_upd by blast
  show ?thesis
    unfolding isr_keyboard_def isr_key_def kb_put_def Let_def
    by (simp split: option.split) (simp add: up [symmetric] dn [symmetric])
qed

lemma kb_inv_meta [simp]: "kb_inv (s\<lparr>kb_meta_mask := m\<rparr>) = kb_inv s"
  by (simp add: kb_inv_def)

lemma kb_contents_meta [simp]: "kb_contents (s\<lparr>kb_meta_mask := m\<rparr>) = kb_contents s"
  by (simp add: kb_contents_def)

text \<open>The key records an interrupt stores.\<close>

definition isr_stored :: "u8 \<Rightarrow> kbstate \<Rightarrow> key list" where
  "isr_stored d s = (case isr_key d s of None \<Rightarrow> []
     | Some k \<Rightarrow> if unat (buf_size s) < MAX_BUFSIZ then [k] else [])"

lemma isr_ring:
  assumes "kb_inv s"
  shows "kb_inv (fst (isr_keyboard d s))"
    and "kb_contents (fst (isr_keyboard d s)) = kb_contents s @ isr_stored d s"
    and "layout (fst (isr_keyboard d s)) = layout s"
proof -
  let ?s = "fst (isr_keyboard d s)"
  have "length (kb_contents s) = unat (buf_size s)" by (simp add: kb_contents_def)
  then have "kb_inv ?s \<and> kb_contents ?s = kb_contents s @ isr_stored d s \<and> layout ?s = layout s"
    using assms
    by (cases "isr_key d s") (simp_all add: isr_decompose isr_stored_def kb_put_def addkey_fields)
  then show "kb_inv ?s" "kb_contents ?s = kb_contents s @ isr_stored d s" "layout ?s = layout s"
    by blast+
qed

section \<open>Interrupts between the steps of a consumer\<close>

text \<open>
  A consumer tests the count, copies the entry at the head and advances the head, wraps
  the head, and only then decrements the count.  The handler may run between any two of
  these steps.  \<open>produced\<close> and \<open>consumed\<close> record the history.
\<close>

datatype kb_phase = Idle | Checked | Read key | Wrapped key

record kbsys =
  kb :: kbstate
  phase :: kb_phase
  produced :: "key list"
  consumed :: "key list"

inductive kb_step :: "kbsys \<Rightarrow> kbsys \<Rightarrow> bool" where
  interrupt: "kb_step c (c\<lparr>kb := fst (isr_keyboard d (kb c)),
                           produced := produced c @ isr_stored d (kb c)\<rparr>)"
| check_empty: "phase c = Idle \<Longrightarrow> buf_size (kb c) = 0 \<Longrightarrow> kb_step c c"
| check_some: "phase c = Idle \<Longrightarrow> buf_size (kb c) \<noteq> 0 \<Longrightarrow> kb_step c (c\<lparr>phase := Checked\<rparr>)"
| read_head: "phase c = Checked \<Longrightarrow>
    kb_step c (c\<lparr>kb := (kb c)\<lparr>buf_head := buf_head (kb c) + 1\<rparr>,
                phase := Read (buf (kb c) ! unat (buf_head (kb c)))\<rparr>)"
| wrap_head: "phase c = Read k \<Longrightarrow>
    kb_step c (c\<lparr>kb := (if unat (buf_head (kb c)) = MAX_BUFSIZ then (kb c)\<lparr>buf_head := 0\<rparr> else kb c),
                phase := Wrapped k\<rparr>)"
| release: "phase c = Wrapped k \<Longrightarrow>
    kb_step c (c\<lparr>kb := (kb c)\<lparr>buf_size := buf_size (kb c) - 1\<rparr>,
                phase := Idle, consumed := consumed c @ [k]\<rparr>)"

definition kb_boot :: "kbstate \<Rightarrow> kbsys" where
  "kb_boot s = \<lparr>kb = fst (kb_init s), phase = Idle, produced = [], consumed = []\<rparr>"

inductive kb_reach :: "kbsys \<Rightarrow> bool" where
  boot: "kb_reach (kb_boot s)"
| step: "kb_reach c \<Longrightarrow> kb_step c c' \<Longrightarrow> kb_reach c'"

inductive_cases kb_stepE: "kb_step c c'"

text \<open>The ring with the consumer's unfinished step undone.\<close>

definition rewind :: "kbsys \<Rightarrow> kbstate" where
  "rewind c =
     (let h = buf_head (kb c) in
      case phase c of
        Read k \<Rightarrow> (kb c)\<lparr>buf_head := h - 1\<rparr>
      | Wrapped k \<Rightarrow> (kb c)\<lparr>buf_head := (if h = 0 then 31 else h - 1)\<rparr>
      | _ \<Rightarrow> kb c)"

definition kbsys_inv :: "kbsys \<Rightarrow> bool" where
  "kbsys_inv c \<longleftrightarrow>
     kb_inv (rewind c) \<and> produced c = consumed c @ kb_contents (rewind c) \<and>
     (phase c \<noteq> Idle \<longrightarrow> buf_size (kb c) \<noteq> 0) \<and>
     (case phase c of
        Read k \<Rightarrow> k = hd (kb_contents (rewind c))
      | Wrapped k \<Rightarrow> k = hd (kb_contents (rewind c)) \<and> unat (buf_head (kb c)) < MAX_BUFSIZ
      | _ \<Rightarrow> True)"

text \<open>The handler does not touch the head.\<close>

lemma isr_key_head [simp]: "isr_key d (s\<lparr>buf_head := h\<rparr>) = isr_key d s"
  unfolding isr_key_def Let_def by (simp add: keyup_meta_def keydown_meta_def toggle_def)

lemma kb_put_head:
  "kb_put k (s\<lparr>buf_head := h\<rparr>) = (kb_put k s)\<lparr>buf_head := h\<rparr>"
  "buf_head (kb_put k s) = buf_head s"
  by (simp_all add: kb_put_def addkey_def Let_def)

lemma isr_head:
  "isr_keyboard d (s\<lparr>buf_head := h\<rparr>) = ((fst (isr_keyboard d s))\<lparr>buf_head := h\<rparr>, snd (isr_keyboard d s))"
  "buf_head (fst (isr_keyboard d s)) = buf_head s"
  "isr_stored d (s\<lparr>buf_head := h\<rparr>) = isr_stored d s"
    apply (simp add: isr_decompose split: option.split)
    apply (metis kb_put_head(1) kbstate.surjective kbstate.update_convs(2) kbstate.update_convs(3))
   apply (simp add: isr_decompose kb_put_head(2) split: option.split)
  apply (simp add: isr_stored_def split: option.split)
  done

lemma rewind_size [simp]: "buf_size (rewind c) = buf_size (kb c)"
  by (simp add: rewind_def Let_def split: kb_phase.split)

lemma rewind_interrupt:
  "rewind (c\<lparr>kb := fst (isr_keyboard d (kb c)), produced := p\<rparr>) = fst (isr_keyboard d (rewind c))"
  "isr_stored d (rewind c) = isr_stored d (kb c)"
  by (simp_all add: rewind_def Let_def isr_head split: kb_phase.split)

lemma kbsys_inv_interrupt:
  assumes "kbsys_inv c"
  shows "kbsys_inv (c\<lparr>kb := fst (isr_keyboard d (kb c)),
                     produced := produced c @ isr_stored d (kb c)\<rparr>)" (is "kbsys_inv ?c")
proof -
  have inv: "kb_inv (rewind c)" using assms by (simp add: kbsys_inv_def)
  have rw: "rewind ?c = fst (isr_keyboard d (rewind c))" by (rule rewind_interrupt)
  note ring = isr_ring [OF inv, of d]
  have q: "kb_contents (rewind ?c) = kb_contents (rewind c) @ isr_stored d (kb c)"
    by (simp only: rw ring(2) rewind_interrupt(2))
  have sz: "buf_size (kb c) \<noteq> 0 \<Longrightarrow> kb_contents (rewind c) \<noteq> []"
    by (simp add: kb_contents_def unat_eq_0)
  have "buf_size (kb c) \<noteq> 0 \<Longrightarrow> kb_contents (rewind ?c) \<noteq> []"
    using q sz by simp
  then have sz': "buf_size (kb c) \<noteq> 0 \<Longrightarrow> buf_size (kb ?c) \<noteq> 0"
    unfolding rewind_size [symmetric, of ?c] by (auto simp: kb_contents_def)
  have kbi: "kb_inv (rewind ?c)" unfolding rw by (rule ring(1))
  have "phase ?c = phase c" "consumed ?c = consumed c" "produced ?c = produced c @ isr_stored d (kb c)"
    "buf_head (kb ?c) = buf_head (kb c)" by (simp_all add: isr_head)
  with kbi q sz sz' assms show ?thesis
    unfolding kbsys_inv_def by (auto split: kb_phase.splits)
qed

lemma kbsys_inv_read:
  assumes "kbsys_inv c" and "phase c = Checked"
  shows "kbsys_inv (c\<lparr>kb := (kb c)\<lparr>buf_head := buf_head (kb c) + 1\<rparr>,
                phase := Read (buf (kb c) ! unat (buf_head (kb c)))\<rparr>)" (is "kbsys_inv ?c")
proof -
  have c: "rewind c = kb c" "rewind ?c = kb c" using assms(2) by (simp_all add: rewind_def)
  have inv: "kb_inv (kb c)" and sz: "buf_size (kb c) \<noteq> 0"
    using assms c by (auto simp: kbsys_inv_def)
  have "hd (kb_contents (kb c)) = buf (kb c) ! unat (buf_head (kb c))"
    using kb_take_fields(2) [OF inv sz] by (simp add: kb_take_def Let_def)
  then show ?thesis using assms c by (simp add: kbsys_inv_def)
qed

lemma kbsys_inv_wrap:
  assumes "kbsys_inv c" and "phase c = Read k"
  shows "kbsys_inv (c\<lparr>kb := (if unat (buf_head (kb c)) = MAX_BUFSIZ then (kb c)\<lparr>buf_head := 0\<rparr> else kb c),
                phase := Wrapped k\<rparr>)" (is "kbsys_inv ?c")
proof -
  let ?h = "buf_head (kb c)"
  have rc: "rewind c = (kb c)\<lparr>buf_head := ?h - 1\<rparr>" using assms(2) by (simp add: rewind_def Let_def)
  have h: "unat (?h - 1) < 32" using assms(1) by (simp add: kbsys_inv_def rc kb_inv_def MAX_BUFSIZ_def)
  have nz: "?h \<noteq> 0" using h by (auto simp: unsigned_minus_1_eq_mask mask_eq_exp_minus_1)
  then have le: "unat ?h \<le> 32" using h by (simp add: unat_u8_pred)
  have h32: "?h = 32 \<longleftrightarrow> unat ?h = MAX_BUFSIZ" by (simp add: MAX_BUFSIZ_def word_eq_unat)
  have rw: "rewind ?c = rewind c"
    using nz assms(2) by (auto simp: rewind_def Let_def h32 [symmetric])
  have "unat (buf_head (kb ?c)) < MAX_BUFSIZ" using le by (auto simp: MAX_BUFSIZ_def)
  then show ?thesis using assms rw by (auto simp: kbsys_inv_def)
qed

lemma kbsys_inv_release:
  assumes "kbsys_inv c" and "phase c = Wrapped k"
  shows "kbsys_inv (c\<lparr>kb := (kb c)\<lparr>buf_size := buf_size (kb c) - 1\<rparr>,
                phase := Idle, consumed := consumed c @ [k]\<rparr>)" (is "kbsys_inv ?c")
proof -
  let ?h = "buf_head (kb c)"
  have rc: "rewind c = (kb c)\<lparr>buf_head := (if ?h = 0 then 31 else ?h - 1)\<rparr>"
    using assms(2) by (simp add: rewind_def Let_def)
  have inv: "kb_inv (rewind c)" and sz: "buf_size (rewind c) \<noteq> 0" and hl: "unat ?h < 32"
    and k: "k = hd (kb_contents (rewind c))"
    and pc: "produced c = consumed c @ kb_contents (rewind c)"
    using assms by (auto simp: kbsys_inv_def MAX_BUFSIZ_def)
  have "unat (if unat (buf_head (rewind c) + 1) = MAX_BUFSIZ then 0 else buf_head (rewind c) + 1) = unat ?h"
    using hl by (auto simp: rc MAX_BUFSIZ_def unat_u8_pred)
  then have "snd (kb_take (rewind c)) = (kb c)\<lparr>buf_size := buf_size (kb c) - 1\<rparr>"
    by (auto simp: kb_take_def Let_def rc word_eq_unat)
  then have "snd (kb_take (rewind c)) = rewind ?c" by (simp add: rewind_def)
  then show ?thesis
    using kb_take_fields [OF inv sz] k pc by (auto simp: kbsys_inv_def)
qed

lemma kbsys_inv_step: "kb_step c c' \<Longrightarrow> kbsys_inv c \<Longrightarrow> kbsys_inv c'"
proof (induction rule: kb_step.induct)
  case (interrupt c d)
  then show ?case by (rule kbsys_inv_interrupt)
next
  case (check_empty c)
  then show ?case by simp
next
  case (check_some c)
  then show ?case by (simp add: kbsys_inv_def rewind_def)
next
  case (read_head c)
  then show ?case by (simp add: kbsys_inv_read)
next
  case (wrap_head c k)
  then show ?case by (simp add: kbsys_inv_wrap)
next
  case (release c k)
  then show ?case by (simp add: kbsys_inv_release)
qed

lemma kb_init_inv: "kb_inv (fst (kb_init s))" "kb_contents (fst (kb_init s)) = []"
  by (simp_all add: kb_init_def kb_inv_def kb_contents_def MAX_BUFSIZ_def)

lemma kb_reach_inv: "kb_reach c \<Longrightarrow> kbsys_inv c"
proof (induction rule: kb_reach.induct)
  case (boot s)
  show ?case using kb_init_inv [of s]
    by (simp add: kbsys_inv_def kb_boot_def rewind_def)
next
  case (step c c')
  then show ?case using kbsys_inv_step by blast
qed

section \<open>Modifier keys as booleans\<close>

record metas =
  m_shift :: bool
  m_ctrl :: bool
  m_alt :: bool
  m_escaped :: bool
  m_caps :: bool
  m_num :: bool
  m_scr :: bool

definition metas_of :: "u8 \<Rightarrow> metas" where
  "metas_of m = \<lparr>m_shift = (m AND META_SHIFT \<noteq> 0), m_ctrl = (m AND META_CTRL \<noteq> 0),
     m_alt = (m AND META_ALT \<noteq> 0), m_escaped = (m AND META_ESCAPED \<noteq> 0),
     m_caps = (m AND META_CAPSLOCK \<noteq> 0), m_num = (m AND META_NUMLOCK \<noteq> 0),
     m_scr = (m AND META_SCRLOCK \<noteq> 0)\<rparr>"

text \<open>What a scan code does to the modifiers, on the default layout: Shift, Ctrl and Alt are
  held between press and release, the three locks flip on release, and the escape prefix
  marks only the next key.\<close>

definition metas_step :: "u8 \<Rightarrow> metas \<Rightarrow> metas" where
  "metas_step d v =
     (let u = unshifted ps2_layout ! unat (d AND 0x7f); up = d AND 0x80 \<noteq> 0 in
      if u = kc KEY_SCANESC then v\<lparr>m_escaped := True\<rparr>
      else \<lparr>m_shift = (if u = kc KEY_SHIFT then \<not> up else m_shift v),
            m_ctrl = (if u = kc KEY_CTRL then \<not> up else m_ctrl v),
            m_alt = (if u = kc KEY_ALT then \<not> up else m_alt v),
            m_escaped = False,
            m_caps = (if u = kc KEY_CAPSLOCK then m_caps v \<noteq> up else m_caps v),
            m_num = (if u = kc KEY_NUMLOCK then m_num v \<noteq> up else m_num v),
            m_scr = (if u = kc KEY_SCRLOCK then m_scr v \<noteq> up else m_scr v)\<rparr>)"

lemma meta_and_bit:
  fixes m :: u8
  shows "(m AND META_SHIFT = 0) = (\<not> bit m 0)" "(m AND META_CTRL = 0) = (\<not> bit m 1)"
    "(m AND META_ALT = 0) = (\<not> bit m 2)" "(m AND META_ESCAPED = 0) = (\<not> bit m 3)"
    "(m AND META_CAPSLOCK = 0) = (\<not> bit m 4)" "(m AND META_NUMLOCK = 0) = (\<not> bit m 5)"
    "(m AND META_SCRLOCK = 0) = (\<not> bit m 6)"
  using and_exp_eq_0_iff_not_bit [of m 0] and_exp_eq_0_iff_not_bit [of m 1]
    and_exp_eq_0_iff_not_bit [of m 2] and_exp_eq_0_iff_not_bit [of m 3]
    and_exp_eq_0_iff_not_bit [of m 4] and_exp_eq_0_iff_not_bit [of m 5]
    and_exp_eq_0_iff_not_bit [of m 6]
  by (simp_all add: meta_defs)

lemma meta_bits:
  "META_SHIFT = 2 ^ 0" "META_CTRL = 2 ^ 1" "META_ALT = 2 ^ 2" "META_ESCAPED = 2 ^ 3"
  "META_CAPSLOCK = 2 ^ 4" "META_NUMLOCK = 2 ^ 5" "META_SCRLOCK = 2 ^ 6"
  by (simp_all add: meta_defs)

lemma bit_pow8: "bit (2 ^ n :: u8) i \<longleftrightarrow> i = n \<and> n < 8"
  by (auto simp: bit_exp_iff possible_bit_def)

definition is_meta_key :: "u8 \<Rightarrow> bool" where
  "is_meta_key k \<longleftrightarrow> k \<in> set (map kc [KEY_SHIFT, KEY_CTRL, KEY_ALT, KEY_CAPSLOCK, KEY_NUMLOCK, KEY_SCRLOCK])"

definition layout_entry_ok :: "nat \<Rightarrow> bool" where
  "layout_entry_ok i \<longleftrightarrow>
     (let u = unshifted ps2_layout ! i; c = shifted ps2_layout ! i in
      (if is_meta_key u \<or> is_meta_key c then c = u else True) \<and>
      (if is_lower u then c = u - 0x20 \<and> 0x41 \<le> c \<and> c \<le> 0x5a else True))"

lemma ps2_unshifted:
  "unshifted ps2_layout = [
       255, 27, 49, 50, 51, 52, 53, 54, 55, 56, 57, 48, 45, 61, 8, 9,
       113, 119, 101, 114, 116, 121, 117, 105, 111, 112, 91, 93, 13, 129, 97, 115,
       100, 102, 103, 104, 106, 107, 108, 59, 39, 96, 130, 92, 122, 120, 99, 118,
       98, 110, 109, 44, 46, 47, 130, 144, 131, 32, 145, 176, 177, 178, 179, 180,
       181, 182, 183, 184, 185, 146, 147, 167, 168, 169, 171, 164, 165, 166, 172, 161,
       162, 163, 160, 170, 255, 255, 255, 186, 187, 255, 255, 255, 255, 255, 255, 255,
       254, 254, 255, 255, 255, 255, 255, 255, 255, 255, 255, 255, 255, 255, 255, 255,
       255, 255, 255, 255, 255, 255, 255, 255, 255, 255, 255, 255, 255, 255, 255, 255]"
  by (simp add: ps2_layout_def numeral_eq_Suc)

lemma ps2_shifted:
  "shifted ps2_layout = [
       255, 27, 33, 64, 35, 36, 37, 94, 38, 42, 40, 41, 95, 43, 8, 9,
       81, 87, 69, 82, 84, 89, 85, 73, 79, 80, 123, 125, 13, 129, 65, 83,
       68, 70, 71, 72, 74, 75, 76, 58, 34, 126, 130, 124, 90, 88, 67, 86,
       66, 78, 77, 60, 62, 63, 130, 144, 131, 32, 145, 176, 177, 178, 179, 180,
       181, 182, 183, 184, 185, 146, 147, 167, 168, 169, 171, 164, 165, 166, 172, 161,
       162, 163, 160, 170, 255, 255, 255, 186, 187, 255, 255, 255, 255, 255, 255, 255,
       254, 254, 255, 255, 255, 255, 255, 255, 255, 255, 255, 255, 255, 255, 255, 255,
       255, 255, 255, 255, 255, 255, 255, 255, 255, 255, 255, 255, 255, 255, 255, 255]"
  by (simp add: ps2_layout_def numeral_eq_Suc)

lemma layout_entries:
  "list_all (\<lambda>(u, c). (if is_meta_key u \<or> is_meta_key c then c = u else True) \<and>
      (if is_lower u then c = u - 0x20 \<and> 0x41 \<le> c \<and> c \<le> 0x5a else True))
     (zip (unshifted ps2_layout) (shifted ps2_layout))"
  by (simp add: ps2_unshifted ps2_shifted is_meta_key_def is_lower_def)

lemma layout_entry:
  assumes "i < 128"
  shows "layout_entry_ok i"
proof -
  have "zip (unshifted ps2_layout) (shifted ps2_layout) ! i
      = (unshifted ps2_layout ! i, shifted ps2_layout ! i)"
    using assms ps2_layout_ok by (simp add: layout_ok_def)
  then have "case (unshifted ps2_layout ! i, shifted ps2_layout ! i) of (u, c) \<Rightarrow>
      (if is_meta_key u \<or> is_meta_key c then c = u else True) \<and>
      (if is_lower u then c = u - 0x20 \<and> 0x41 \<le> c \<and> c \<le> 0x5a else True)"
    using layout_entries [unfolded list_all_length] assms ps2_layout_ok
    by (metis (no_types, lifting) length_zip layout_ok_def min.idem)
  then show ?thesis by (simp only: layout_entry_ok_def Let_def prod.case)
qed

lemma scan_index: "unat (d AND NOT 0x80 :: u8) < 128" "d AND NOT 0x80 = (d AND 0x7f :: u8)"
proof -
  have "NOT 0x80 = (0x7f::u8)" by code_simp
  then show eq: "d AND NOT 0x80 = (d AND 0x7f :: u8)" by metis
  have "(d AND 0x7f :: u8) = take_bit 7 d" by (simp add: take_bit_eq_mask mask_eq_exp_minus_1)
  then have "unat (d AND 0x7f :: u8) < 2 ^ 7"
    by (metis take_bit_nat_less_exp unsigned_take_bit_eq)
  then show "unat (d AND NOT 0x80 :: u8) < 128" unfolding eq by simp
qed

lemma isr_meta:
  "kb_meta_mask (fst (isr_keyboard d s)) =
     (case isr_key d s of None \<Rightarrow> kb_meta_mask s OR META_ESCAPED
      | Some k \<Rightarrow> key_meta k AND NOT META_ESCAPED)"
  by (auto simp: isr_decompose kb_put_def addkey_def Let_def split: option.split)

definition metas_key :: "u8 \<Rightarrow> bool \<Rightarrow> metas \<Rightarrow> metas" where
  "metas_key u up v =
     v\<lparr>m_shift := (if u = kc KEY_SHIFT then \<not> up else m_shift v),
       m_ctrl := (if u = kc KEY_CTRL then \<not> up else m_ctrl v),
       m_alt := (if u = kc KEY_ALT then \<not> up else m_alt v),
       m_caps := (if u = kc KEY_CAPSLOCK then m_caps v \<noteq> up else m_caps v),
       m_num := (if u = kc KEY_NUMLOCK then m_num v \<noteq> up else m_num v),
       m_scr := (if u = kc KEY_SCRLOCK then m_scr v \<noteq> up else m_scr v)\<rparr>"

lemma metas_bits:
  "metas_of m = \<lparr>m_shift = bit m 0, m_ctrl = bit m 1, m_alt = bit m 2, m_escaped = bit m 3,
     m_caps = bit m 4, m_num = bit m 5, m_scr = bit m 6\<rparr>"
  by (simp add: metas_of_def meta_and_bit)

lemma bit_set8: "bit (m OR 2 ^ n :: u8) i \<longleftrightarrow> bit m i \<or> (i = n \<and> n < 8)"
  by (auto simp: bit_or_iff bit_pow8)

lemma bit_clr8: "bit (m AND NOT (2 ^ n) :: u8) i \<longleftrightarrow> bit m i \<and> i \<noteq> n"
  by (auto simp: bit_and_iff bit_not_iff bit_pow8 possible_bit_def dest: bit_imp_le_length)

lemma toggle_mask:
  assumes "n < 8"
  shows "bit (kb_meta_mask (toggle (2 ^ n) s)) i \<longleftrightarrow> bit (kb_meta_mask s) i \<noteq> (i = n)"
proof -
  have "(kb_meta_mask s AND 2 ^ n = 0) = (\<not> bit (kb_meta_mask s) n)"
    by (rule and_exp_eq_0_iff_not_bit)
  then show ?thesis
    using assms by (auto simp: toggle_def bit_set8 bit_clr8)
qed

lemma meta_bit_clr:
  fixes m :: u8
  shows 
    "bit (m AND NOT META_SHIFT) i \<longleftrightarrow> bit m i \<and> i \<noteq> 0" "bit (m AND NOT META_CTRL) i \<longleftrightarrow> bit m i \<and> i \<noteq> 1" 
    "bit (m AND NOT META_ALT) i \<longleftrightarrow> bit m i \<and> i \<noteq> 2" "bit (m AND NOT META_ESCAPED) i \<longleftrightarrow> bit m i \<and> i \<noteq> 3" 
    "bit (m AND NOT META_CAPSLOCK) i \<longleftrightarrow> bit m i \<and> i \<noteq> 4" "bit (m AND NOT META_NUMLOCK) i \<longleftrightarrow> bit m i \<and> i \<noteq> 5" 
    "bit (m AND NOT META_SCRLOCK) i \<longleftrightarrow> bit m i \<and> i \<noteq> 6"
  unfolding meta_bits by (rule bit_clr8)+

lemma meta_bit_set:
  fixes m :: u8
  shows 
    "bit (m OR META_SHIFT) i \<longleftrightarrow> bit m i \<or> i = 0" "bit (m OR META_CTRL) i \<longleftrightarrow> bit m i \<or> i = 1" 
    "bit (m OR META_ALT) i \<longleftrightarrow> bit m i \<or> i = 2" "bit (m OR META_ESCAPED) i \<longleftrightarrow> bit m i \<or> i = 3" 
    "bit (m OR META_CAPSLOCK) i \<longleftrightarrow> bit m i \<or> i = 4" "bit (m OR META_NUMLOCK) i \<longleftrightarrow> bit m i \<or> i = 5" 
    "bit (m OR META_SCRLOCK) i \<longleftrightarrow> bit m i \<or> i = 6"
  unfolding meta_bits bit_set8 by simp_all

lemma meta_bit_toggle:
  "bit (kb_meta_mask (toggle META_CAPSLOCK s)) i \<longleftrightarrow> bit (kb_meta_mask s) i \<noteq> (i = 4)"
  "bit (kb_meta_mask (toggle META_NUMLOCK s)) i \<longleftrightarrow> bit (kb_meta_mask s) i \<noteq> (i = 5)"
  "bit (kb_meta_mask (toggle META_SCRLOCK s)) i \<longleftrightarrow> bit (kb_meta_mask s) i \<noteq> (i = 6)"
  unfolding meta_bits by (simp_all add: toggle_mask del: power_numeral power.simps power_0 power_one_right One_nat_def)

lemma keyup_metas: "metas_of (kb_meta_mask (keyup_meta k s)) = metas_key k True (metas_of (kb_meta_mask s))"
  unfolding metas_bits keyup_meta_def metas_key_def
  by (simp add: meta_bit_toggle meta_bit_clr)

lemma keydown_metas:
  "metas_of (kb_meta_mask (keydown_meta k s)) = metas_key k False (metas_of (kb_meta_mask s))"
  unfolding metas_bits keydown_meta_def metas_key_def
  by (simp add: meta_bit_set)

lemma metas_key_other: "\<not> is_meta_key u \<Longrightarrow> metas_key u up v = v"
  by (auto simp: metas_key_def is_meta_key_def)

lemma isr_metas:
  assumes "layout s = ps2_layout"
  shows "metas_of (kb_meta_mask (fst (isr_keyboard d s))) = metas_step d (metas_of (kb_meta_mask s))"
proof -
  define i where "i = unat (d AND NOT 0x80)"
  define u where "u = unshifted ps2_layout ! i"
  define c where "c = shifted ps2_layout ! i"
  define up where "up \<longleftrightarrow> d AND 0x80 \<noteq> 0"
  define v where "v = metas_of (kb_meta_mask s)"
  have entry: "layout_entry_ok i" by (rule layout_entry) (simp only: i_def scan_index(1))
  then have mc: "(is_meta_key u \<or> is_meta_key c) \<longrightarrow> c = u"
    unfolding layout_entry_ok_def u_def c_def Let_def by presburger
  have same: "metas_key k up v = metas_key u up v" if "k = u \<or> k = c" for k
    using that mc metas_key_other by metis
  have esc: "u = kc KEY_SCANESC \<Longrightarrow> isr_key d s = None"
    using assms by (simp add: isr_key_def Let_def u_def i_def)
  have step: "metas_step d v = (if u = kc KEY_SCANESC then v\<lparr>m_escaped := True\<rparr>
      else (metas_key u up v)\<lparr>m_escaped := False\<rparr>)"
    unfolding metas_step_def Let_def u_def up_def i_def scan_index(2) metas_key_def by simp
  show ?thesis
  proof (cases "u = kc KEY_SCANESC")
    case True
    have "metas_of (kb_meta_mask s OR META_ESCAPED) = (metas_of (kb_meta_mask s))\<lparr>m_escaped := True\<rparr>"
      unfolding metas_bits by (simp add: meta_bit_set)
    then show ?thesis using True esc step by (simp add: isr_meta v_def)
  next
    case False
    obtain k sh where k: "k = (if sh then c else u)" and
      key: "isr_key d s = Some \<lparr>key_brk = (if up then KEYBRK_UP else KEYBRK_DOWN),
         key_meta = kb_meta_mask (if up then keyup_meta k s else keydown_meta k s), key_code = u,
         key_ch = (if up then 0 else key_char (kb_meta_mask (if up then keyup_meta k s else keydown_meta k s)) k u)\<rparr>"
      using False assms by (simp only: isr_key_def Let_def u_def c_def i_def up_def if_False)
    have "metas_of (key_meta (the (isr_key d s))) = metas_key u up v"
      using same [of k] k by (cases up) (simp_all add: key keyup_metas keydown_metas v_def split: if_splits)
    moreover have "metas_of (m AND NOT META_ESCAPED) = (metas_of m)\<lparr>m_escaped := False\<rparr>" for m
      unfolding metas_bits by (simp add: meta_bit_clr)
    ultimately show ?thesis using False step key by (simp add: isr_meta v_def)
  qed
qed

section \<open>Properties\<close>

text \<open>C8: the ring buffer refines a list queue of 32 keys.  After \<open>kb_init\<close>, any sequence of
  key arrivals and calls of \<open>kb_getkey\<close> returns what a list queue returns that drops a key
  when 32 are waiting, and leaves the ring representing that queue.\<close>

theorem kb_queue_refines:
  "fifo_spec 32 ops [] =
     (fst (fifo_impl kb_put kb_deq ops (fst (kb_init s))),
      kb_contents (snd (fifo_impl kb_put kb_deq ops (fst (kb_init s)))))"
  using kbq.run_refines [OF kb_init_inv(1), of ops s] kb_init_inv(2) [of s]
  by (simp add: MAX_BUFSIZ_def)

text \<open>C7: with the interrupt handler running between any two steps of a consumer, no key is
  lost, duplicated or reordered: what the consumer has returned is a prefix of what the
  handler has stored, the count is the number of keys not yet returned, and between two
  calls the ring holds exactly those keys.\<close>

theorem kb_no_key_lost:
  assumes "kb_reach c"
  shows "take (length (consumed c)) (produced c) = consumed c
       \<and> length (produced c) = length (consumed c) + unat (buf_size (kb c))
       \<and> unat (buf_size (kb c)) \<le> 32
       \<and> (phase c = Idle \<longrightarrow> drop (length (consumed c)) (produced c) = kb_contents (kb c))"
proof -
  have inv: "kb_inv (rewind c)" "produced c = consumed c @ kb_contents (rewind c)"
    using kb_reach_inv [OF assms] by (auto simp: kbsys_inv_def)
  moreover have "length (kb_contents (rewind c)) = unat (buf_size (kb c))"
    by (simp add: kb_contents_def)
  moreover have "phase c = Idle \<Longrightarrow> rewind c = kb c" by (simp add: rewind_def)
  ultimately show ?thesis by (simp add: kb_inv_def MAX_BUFSIZ_def)
qed

text \<open>\<open>kb_getchar\<close> returns the character of the first waiting key that has one, removing
  it and the keys before it, or 0 after emptying the ring when no waiting key has one.\<close>

lemma kb_getchar_first_char:
  assumes "kb_inv s"
  shows "case dropWhile (\<lambda>k. key_ch k = 0) (kb_contents s) of
           [] \<Rightarrow> fst (kb_getchar s) = 0 \<and> kb_contents (snd (kb_getchar s)) = []
         | k # q \<Rightarrow> fst (kb_getchar s) = key_ch k \<and> kb_contents (snd (kb_getchar s)) = q"
  using assms
proof (induction s rule: kb_getchar.induct)
  case (1 s)
  show ?case
  proof (cases "buf_size s = 0")
    case True
    then show ?thesis by (simp add: kb_contents_def kb_getchar.simps [of s])
  next
    case False
    note t = kb_take_fields [OF "1.prems" False]
    show ?thesis
    proof (cases "key_ch (fst (kb_take s)) = 0")
      case True
      then have eq: "kb_getchar s = kb_getchar (snd (kb_take s))"
        using False by (simp add: kb_getchar.simps [of s] split_beta)
      have dw: "dropWhile (\<lambda>k. key_ch k = 0) (kb_contents s)
          = dropWhile (\<lambda>k. key_ch k = 0) (kb_contents (snd (kb_take s)))"
        using True t(2) by simp
      show ?thesis
        unfolding eq dw
        using "1.IH" [OF False refl, of "fst (kb_take s)" "snd (kb_take s)"] t(1) True by simp
    next
      case nz: False
      then show ?thesis using t False by (simp add: kb_getchar.simps [of s] split_beta)
    qed
  qed
qed

definition kb_run :: "u8 list \<Rightarrow> kbstate \<Rightarrow> kbstate" where
  "kb_run ds s = fold (\<lambda>d s. fst (isr_keyboard d s)) ds s"

lemma isr_layout [simp]: "layout (fst (isr_keyboard d s)) = layout s"
  by (auto simp: isr_decompose kb_put_def addkey_def Let_def split: option.split)

text \<open>C9: on the default layout the modifier byte behaves as seven booleans: Shift, Ctrl and
  Alt follow press and release, the locks flip on each release, and an escape prefix marks
  exactly the next key, over every sequence of scan codes.\<close>

theorem kb_modifiers_track:
  "metas_of (kb_meta_mask (kb_run ds (fst (kb_init s)))) = fold metas_step ds (metas_of 0)"
proof -
  have "layout t = ps2_layout \<Longrightarrow>
      metas_of (kb_meta_mask (kb_run ds t)) = fold metas_step ds (metas_of (kb_meta_mask t))" for t
    by (induction ds arbitrary: t) (simp_all add: kb_run_def isr_metas)
  then show ?thesis by (simp add: kb_init_def)
qed

text \<open>Pressing a letter key without Ctrl and Alt yields a key-down record with the
  lower-case code, whose character is upper-case exactly when one of Shift and Caps Lock is
  in force.\<close>

lemma kb_letter_case:
  assumes "layout s = ps2_layout" and "d AND 0x80 = 0"
    and "is_lower (unshifted ps2_layout ! unat (d AND 0x7f))"
    and "\<not> m_ctrl (metas_of (kb_meta_mask s))" and "\<not> m_alt (metas_of (kb_meta_mask s))"
  shows "isr_key d s = Some \<lparr>key_brk = KEYBRK_DOWN, key_meta = kb_meta_mask s,
           key_code = unshifted ps2_layout ! unat (d AND 0x7f),
           key_ch = (if m_shift (metas_of (kb_meta_mask s)) \<noteq> m_caps (metas_of (kb_meta_mask s))
                     then unshifted ps2_layout ! unat (d AND 0x7f) - 0x20
                     else unshifted ps2_layout ! unat (d AND 0x7f))\<rparr>"
proof -
  define u where "u = unshifted ps2_layout ! unat (d AND 0x7f)"
  define c where "c = shifted ps2_layout ! unat (d AND 0x7f)"
  have low: "is_lower u" using assms(3) by (simp add: u_def)
  have "layout_entry_ok (unat (d AND 0x7f))"
    using layout_entry [OF scan_index(1) [of d]] by (simp only: scan_index(2))
  then have c: "c = u - 0x20" "c \<le> 0x5a" "0x41 \<le> c"
    using low unfolding layout_entry_ok_def u_def c_def Let_def by metis+
  have small: "u < 0x80" "c < 0x80" using low c(2) by (auto simp: is_lower_def word_le_nat_alt word_less_nat_alt)
  have nometa: "keydown_meta k s = s" if "k < 0x80" for k
    using that by (auto simp: keydown_meta_def)
  have nesc: "u \<noteq> kc KEY_SCANESC" using small by auto
  have ca: "kb_meta_mask s AND (META_CTRL OR META_ALT) = 0"
    using assms(4,5) by (simp add: metas_of_def bit.conj_disj_distrib)
  define k where "k = (if m_shift (metas_of (kb_meta_mask s)) \<noteq> m_caps (metas_of (kb_meta_mask s)) then c else u)"
  have k: "k < 0x80" using small by (simp add: k_def)
  have "isr_key d s = Some \<lparr>key_brk = KEYBRK_DOWN, key_meta = kb_meta_mask (keydown_meta k s),
      key_code = u, key_ch = key_char (kb_meta_mask (keydown_meta k s)) k u\<rparr>"
    using assms(2) low nesc unfolding isr_key_def Let_def scan_index(2) assms(1)
    unfolding u_def [symmetric] c_def [symmetric] by (simp add: k_def metas_of_def)
  then show ?thesis using k c by (simp add: nometa key_char_def ca k_def u_def)
qed

section \<open>Concrete runs\<close>

definition any_kb :: kbstate where
  "any_kb = \<lparr>layout = ps2_layout, kb_meta_mask = 0, buf_head = 0, buf_tail = 0, buf_size = 0, buf = []\<rparr>"

definition kb_demo :: kbsys where
  "kb_demo = (kb_boot any_kb)\<lparr>kb := fst (isr_keyboard 0x1e (fst (kb_init any_kb))),
     produced := isr_stored 0x1e (fst (kb_init any_kb))\<rparr>"

lemma kb_demo_reach: "kb_reach kb_demo"
proof -
  have "kb_step (kb_boot any_kb) kb_demo"
    using kb_step.interrupt [where c = "kb_boot any_kb" and d = "0x1e"] by (simp add: kb_demo_def kb_boot_def)
  then show ?thesis using kb_reach.intros by blast
qed

theorem kb_no_key_lost_witness: "length (produced kb_demo) = unat (buf_size (kb kb_demo))"
proof -
  have "consumed kb_demo = []" by (simp add: kb_demo_def kb_boot_def)
  then show ?thesis using kb_no_key_lost [OF kb_demo_reach] by simp
qed

end
