(* ===== verification/Tty.thy ===== *)
theory Tty
  imports Prelude
begin

text \<open>
  \<^verbatim>\<open>kernel/device/tty.c\<close> and \<^verbatim>\<open>include/kernel/device/tty.h\<close>: four virtual consoles in the
  video memory.  A console owns 4096 words, 50 rows of 80 cells and a rest; the screen shows
  25 of the rows.  Video memory is a map from word offsets, counted from the first console's
  buffer at 0xb8000, to cells; offsets below 0 are the memory in front of it.  Pointers into
  it are such offsets.  The bytes the CRT controller's command port delivers are a
  sequence fixed with the state; what is sent to the ports is recorded in order.
\<close>

section \<open>Data\<close>

definition MAX_TTYS :: int where "MAX_TTYS = 4"

definition CRTC_PORT_CMD :: u16 where "CRTC_PORT_CMD = 0x3d4"
definition CRTC_PORT_DATA :: u16 where "CRTC_PORT_DATA = 0x3d5"
definition CRTC_CMD_STARTADDR_HI :: u8 where "CRTC_CMD_STARTADDR_HI = 0x0c"
definition CRTC_CMD_STARTADDR_LO :: u8 where "CRTC_CMD_STARTADDR_LO = 0x0d"
definition CRTC_CMD_CURSORADDR_HI :: u8 where "CRTC_CMD_CURSORADDR_HI = 0x0e"
definition CRTC_CMD_CURSORADDR_LO :: u8 where "CRTC_CMD_CURSORADDR_LO = 0x0f"

definition SCREEN_ROWS :: int where "SCREEN_ROWS = 25"
definition SCREEN_COLS :: int where "SCREEN_COLS = 80"
definition SCREEN_SIZE :: int where "SCREEN_SIZE = SCREEN_ROWS * SCREEN_COLS"

lemmas screen_defs = SCREEN_ROWS_def SCREEN_COLS_def SCREEN_SIZE_def

datatype textcolor =
  TEXTCOLOR_BLACK | TEXTCOLOR_BLUE | TEXTCOLOR_GREEN | TEXTCOLOR_CYAN | TEXTCOLOR_RED
| TEXTCOLOR_MAGENTA | TEXTCOLOR_BROWN | TEXTCOLOR_LTGRAY | TEXTCOLOR_GRAY | TEXTCOLOR_LTBLUE
| TEXTCOLOR_LTGREEN | TEXTCOLOR_LTCYAN | TEXTCOLOR_LTRED | TEXTCOLOR_LTMAGENTA
| TEXTCOLOR_YELLOW | TEXTCOLOR_WHITE

primrec textcolor_val :: "textcolor \<Rightarrow> u16" where
  "textcolor_val TEXTCOLOR_BLACK = 0"
| "textcolor_val TEXTCOLOR_BLUE = 1"
| "textcolor_val TEXTCOLOR_GREEN = 2"
| "textcolor_val TEXTCOLOR_CYAN = 3"
| "textcolor_val TEXTCOLOR_RED = 4"
| "textcolor_val TEXTCOLOR_MAGENTA = 5"
| "textcolor_val TEXTCOLOR_BROWN = 6"
| "textcolor_val TEXTCOLOR_LTGRAY = 7"
| "textcolor_val TEXTCOLOR_GRAY = 8"
| "textcolor_val TEXTCOLOR_LTBLUE = 9"
| "textcolor_val TEXTCOLOR_LTGREEN = 10"
| "textcolor_val TEXTCOLOR_LTCYAN = 11"
| "textcolor_val TEXTCOLOR_LTRED = 12"
| "textcolor_val TEXTCOLOR_LTMAGENTA = 13"
| "textcolor_val TEXTCOLOR_YELLOW = 14"
| "textcolor_val TEXTCOLOR_WHITE = 15"

record screenpos =
  sp_x :: u8
  sp_y :: u8

record tty =
  textcolor_cur :: u16
  textcolor_orig :: u16
  pos :: screenpos
  ybuf :: u8
  screen :: int
  tlcorner :: int

record tty_state =
  ttys :: "tty list"
  active_tty :: nat
  vram :: "int \<Rightarrow> u16"
  port_in :: "nat \<Rightarrow> u8"
  port_reads :: nat
  tty_io :: "io_event list"

section \<open>Operations\<close>

definition color :: "textcolor \<Rightarrow> textcolor \<Rightarrow> u16" where
  "color fg bg = push_bit 12 (textcolor_val bg) OR push_bit 8 (textcolor_val fg)"

definition tty_id :: "int \<Rightarrow> nat" where
  "tty_id tid = (if tid < 0 \<or> tid \<ge> MAX_TTYS then 0 else nat tid)"

definition upd_tty :: "nat \<Rightarrow> (tty \<Rightarrow> tty) \<Rightarrow> tty_state \<Rightarrow> tty_state" where
  "upd_tty i f s = s\<lparr>ttys := (ttys s)[i := f (ttys s ! i)]\<rparr>"

text \<open>The exchange with the CRT controller that sets a register pair.\<close>

definition crtc_set :: "u8 \<Rightarrow> u8 \<Rightarrow> int \<Rightarrow> tty_state \<Rightarrow> tty_state" where
  "crtc_set lo hi offset s =
     (let save = port_in s (port_reads s) in
      s\<lparr>port_reads := port_reads s + 1,
        tty_io := tty_io s @
          [InB CRTC_PORT_CMD save,
           OutB CRTC_PORT_CMD lo, OutB CRTC_PORT_DATA (word_of_int offset),
           OutB CRTC_PORT_CMD hi, OutB CRTC_PORT_DATA (word_of_int (drop_bit 8 offset)),
           OutB CRTC_PORT_CMD save]\<rparr>)"

definition update_buffer_offset :: "tty_state \<Rightarrow> tty_state" where
  "update_buffer_offset s =
     crtc_set CRTC_CMD_STARTADDR_LO CRTC_CMD_STARTADDR_HI (tlcorner (ttys s ! active_tty s)) s"

definition update_cursor :: "tty_state \<Rightarrow> tty_state" where
  "update_cursor s =
     (let t = ttys s ! active_tty s in
      crtc_set CRTC_CMD_CURSORADDR_LO CRTC_CMD_CURSORADDR_HI
        (uint (ybuf t) * SCREEN_COLS + uint (sp_x (pos t)) + screen t) s)"

definition init_tty :: "nat \<Rightarrow> tty" where
  "init_tty tid = \<lparr>textcolor_cur = color TEXTCOLOR_WHITE TEXTCOLOR_BLACK,
     textcolor_orig = color TEXTCOLOR_WHITE TEXTCOLOR_BLACK,
     pos = \<lparr>sp_x = 0, sp_y = 0\<rparr>, ybuf = 0, screen = int tid * 0x1000, tlcorner = int tid * 0x1000\<rparr>"

definition tty_init :: "tty_state \<Rightarrow> tty_state" where
  "tty_init s = s\<lparr>ttys := map init_tty [0..<4], active_tty := 0\<rparr>"

definition tty_activate :: "int \<Rightarrow> tty_state \<Rightarrow> tty_state" where
  "tty_activate tid s =
     (let i = tty_id tid in
      if i = active_tty s then s
      else update_cursor (update_buffer_offset (s\<lparr>active_tty := i\<rparr>)))"

definition tty_set_textcolor :: "int \<Rightarrow> textcolor \<Rightarrow> textcolor \<Rightarrow> tty_state \<Rightarrow> tty_state" where
  "tty_set_textcolor tid fg bg s =
     upd_tty (tty_id tid) (\<lambda>t. t\<lparr>textcolor_cur := color fg bg, textcolor_orig := color fg bg\<rparr>) s"

definition textcolor_of :: "u16 \<Rightarrow> textcolor" where
  "textcolor_of n =
     [TEXTCOLOR_BLACK, TEXTCOLOR_BLUE, TEXTCOLOR_GREEN, TEXTCOLOR_CYAN, TEXTCOLOR_RED,
      TEXTCOLOR_MAGENTA, TEXTCOLOR_BROWN, TEXTCOLOR_LTGRAY, TEXTCOLOR_GRAY, TEXTCOLOR_LTBLUE,
      TEXTCOLOR_LTGREEN, TEXTCOLOR_LTCYAN, TEXTCOLOR_LTRED, TEXTCOLOR_LTMAGENTA,
      TEXTCOLOR_YELLOW, TEXTCOLOR_WHITE] ! unat n"

definition tty_get_textcolor_fg :: "int \<Rightarrow> tty_state \<Rightarrow> textcolor" where
  "tty_get_textcolor_fg tid s =
     textcolor_of (drop_bit 8 (textcolor_orig (ttys s ! tty_id tid)) AND 0x0f)"

definition tty_get_textcolor_bg :: "int \<Rightarrow> tty_state \<Rightarrow> textcolor" where
  "tty_get_textcolor_bg tid s =
     textcolor_of (drop_bit 12 (textcolor_orig (ttys s ! tty_id tid)) AND 0x0f)"

definition tty_set_textcolor_fg :: "int \<Rightarrow> textcolor \<Rightarrow> tty_state \<Rightarrow> tty_state" where
  "tty_set_textcolor_fg tid fg s =
     (let c = color fg (tty_get_textcolor_bg tid s) in
      upd_tty (tty_id tid) (\<lambda>t. t\<lparr>textcolor_cur := c, textcolor_orig := c\<rparr>) s)"

definition tty_set_textcolor_bg :: "int \<Rightarrow> textcolor \<Rightarrow> tty_state \<Rightarrow> tty_state" where
  "tty_set_textcolor_bg tid bg s =
     (let c = color (tty_get_textcolor_fg tid s) bg in
      upd_tty (tty_id tid) (\<lambda>t. t\<lparr>textcolor_cur := c, textcolor_orig := c\<rparr>) s)"

text \<open>\<open>memsetw\<close> and \<open>memcpy\<close> of the assembly library, on words.\<close>

definition memsetw :: "int \<Rightarrow> u16 \<Rightarrow> int \<Rightarrow> (int \<Rightarrow> u16) \<Rightarrow> int \<Rightarrow> u16" where
  "memsetw dst w n m = (\<lambda>a. if dst \<le> a \<and> a < dst + n then w else m a)"

definition copy_words :: "int \<Rightarrow> int \<Rightarrow> int \<Rightarrow> (int \<Rightarrow> u16) \<Rightarrow> int \<Rightarrow> u16" where
  "copy_words dst src n m = (\<lambda>a. if dst \<le> a \<and> a < dst + n then m (src + (a - dst)) else m a)"

text \<open>\<open>c | ' '\<close>\<close>

definition blank :: "u16 \<Rightarrow> u16" where
  "blank c = c OR 0x20"

definition tty_clear :: "int \<Rightarrow> tty_state \<Rightarrow> tty_state" where
  "tty_clear tid s =
     (let i = tty_id tid; t = ttys s ! i;
          s = s\<lparr>vram := memsetw (screen t) (blank (textcolor_cur t)) (SCREEN_SIZE * 2) (vram s)\<rparr>;
          s = upd_tty i (\<lambda>t. t\<lparr>pos := \<lparr>sp_x = 0, sp_y = 0\<rparr>, ybuf := 0, tlcorner := screen t\<rparr>) s
      in if active_tty s = i then update_cursor (update_buffer_offset s) else s)"

definition tty_setpos :: "int \<Rightarrow> screenpos \<Rightarrow> tty_state \<Rightarrow> tty_state" where
  "tty_setpos tid p s =
     (let i = tty_id tid; t = ttys s ! i;
          diff = uint (sp_y p) - uint (sp_y (pos t));
          s = upd_tty i (\<lambda>t. t\<lparr>pos := p, ybuf := word_of_int (uint (ybuf t) + diff)\<rparr>) s
      in if active_tty s = i then update_cursor s else s)"

definition tty_getpos :: "int \<Rightarrow> tty_state \<Rightarrow> screenpos" where
  "tty_getpos tid s = pos (ttys s ! tty_id tid)"

text \<open>\<open>char\<close> is signed.\<close>

definition colorcode :: "u8 \<Rightarrow> int \<Rightarrow> int" where
  "colorcode x orig =
     (let code = sint x in
      if code \<ge> 0x30 \<and> code \<le> 0x39 then code - 0x30
      else if code \<ge> 0x61 \<and> code \<le> 0x66 then code - 0x61 + 10
      else if code \<ge> 0x41 \<and> code \<le> 0x46 then code - 0x41 + 10
      else if code = 0x2d then orig
      else -1)"

text \<open>The block that handles a line feed at the end of \<open>tty_printchar\<close>, for console \<open>i\<close>;
  \<open>scroll_row\<close> is its inner block, for a cursor below the last row.\<close>

definition scroll_row :: "nat \<Rightarrow> tty_state \<Rightarrow> tty_state" where
  "scroll_row i s =
     (let s = upd_tty i (\<lambda>t. t\<lparr>pos := (pos t)\<lparr>sp_y := sp_y (pos t) - 1\<rparr>\<rparr>) s;
          s = (if uint (ybuf (ttys s ! i)) = SCREEN_ROWS * 2
               then upd_tty i (\<lambda>t. t\<lparr>ybuf := ybuf t - word_of_int SCREEN_ROWS\<rparr>) s else s);
          t = ttys s ! i;
          s = s\<lparr>vram := memsetw (screen t + uint (ybuf t) * SCREEN_COLS) (blank (textcolor_cur t))
                           (SCREEN_COLS * 2) (vram s)\<rparr>;
          s = upd_tty i (\<lambda>t. t\<lparr>tlcorner := screen t + (uint (ybuf t) + 1) * SCREEN_COLS - SCREEN_SIZE\<rparr>) s
      in if i = active_tty s then update_buffer_offset s else s)"

definition do_linefeed :: "nat \<Rightarrow> tty_state \<Rightarrow> tty_state" where
  "do_linefeed i s =
     (let t = ttys s ! i;
          row = screen t + uint (ybuf t) * SCREEN_COLS;
          s = s\<lparr>vram := copy_words (row - SCREEN_SIZE) row SCREEN_COLS (vram s)\<rparr>;
          s = upd_tty i (\<lambda>t. t\<lparr>pos := (pos t)\<lparr>sp_y := sp_y (pos t) + 1\<rparr>, ybuf := ybuf t + 1\<rparr>) s
      in if uint (sp_y (pos (ttys s ! i))) = SCREEN_ROWS then scroll_row i s else s)"

text \<open>The character at an index of a null-terminated string.\<close>

definition char_at :: "u8 list \<Rightarrow> nat \<Rightarrow> u8" where
  "char_at str n = (if n < length str then str ! n else 0)"

definition put_cell :: "int \<Rightarrow> u16 \<Rightarrow> tty_state \<Rightarrow> tty_state" where
  "put_cell a w s = s\<lparr>vram := (vram s)(a := w)\<rparr>"

text \<open>The escape sequences: how far \<open>*strptr\<close> moves, and the new state.\<close>

definition escape_seq :: "nat \<Rightarrow> u8 list \<Rightarrow> tty_state \<Rightarrow> nat \<times> tty_state" where
  "escape_seq i str s =
     (let t = ttys s ! i in
      if char_at str 1 = 0x5b \<and> char_at str 2 \<noteq> 0 \<and> char_at str 3 = 0x5d then
        let code = colorcode (char_at str 2) (uint (drop_bit 8 (textcolor_orig t) AND 0x0f)) in
        if code \<noteq> -1
        then (3, upd_tty i (\<lambda>t. t\<lparr>textcolor_cur :=
                   (textcolor_cur t AND 0xf000) OR word_of_int (push_bit 8 code)\<rparr>) s)
        else (0, s)
      else if char_at str 1 = 0x7b \<and> char_at str 2 \<noteq> 0 \<and> char_at str 3 = 0x7d then
        let code = colorcode (char_at str 2) (uint (drop_bit 12 (textcolor_orig t))) in
        if code \<noteq> -1
        then (3, upd_tty i (\<lambda>t. t\<lparr>textcolor_cur :=
                   (textcolor_cur t AND 0x0f00) OR word_of_int (push_bit 12 code)\<rparr>) s)
        else (0, s)
      else (0, s))"

definition set_x :: "nat \<Rightarrow> u8 \<Rightarrow> tty_state \<Rightarrow> tty_state" where
  "set_x i x s = upd_tty i (\<lambda>t. t\<lparr>pos := (pos t)\<lparr>sp_x := x\<rparr>\<rparr>) s"

text \<open>\<open>str\<close> is the rest of the string, from the character to print on.\<close>

definition tty_printchar :: "nat \<Rightarrow> u8 list \<Rightarrow> tty_state \<Rightarrow> nat \<times> tty_state" where
  "tty_printchar i str s =
     (let ch = char_at str 0; t = ttys s ! i in
      if ch = 0x0a then (0, do_linefeed i (set_x i 0 s))
      else if ch = 0x1b then escape_seq i str s
      else if ch = 0x08 then
        (0, if sp_x (pos t) > 0
            then let s = set_x i (sp_x (pos t) - 1) s; t = ttys s ! i
                 in put_cell (screen t + (uint (ybuf t) * SCREEN_COLS + uint (sp_x (pos t))))
                      (blank (textcolor_cur t)) s
            else s)
      else
        let value = textcolor_cur t OR scast ch;
            offset = uint (ybuf t) * SCREEN_COLS + uint (sp_x (pos t));
            s = put_cell (screen t + offset) value s;
            x = sp_x (pos t) + 1
        in (0, if uint x = SCREEN_COLS then do_linefeed i (set_x i 0 s) else set_x i x s))"

function print_chars :: "nat \<Rightarrow> u8 list \<Rightarrow> tty_state \<Rightarrow> tty_state" where
  "print_chars i [] s = s"
| "print_chars i (c # cs) s =
     (let (n, s') = tty_printchar i (c # cs) s in print_chars i (drop n cs) s')"
  by pat_completeness auto
termination
  by (relation "measure (\<lambda>(i, cs, s). length cs)") auto

definition tty_print :: "int \<Rightarrow> u8 list \<Rightarrow> tty_state \<Rightarrow> tty_state" where
  "tty_print tid str s =
     (let i = tty_id tid; s = print_chars i str s
      in if i = active_tty s then update_cursor s else s)"

definition tty_printc :: "int \<Rightarrow> u8 \<Rightarrow> tty_state \<Rightarrow> tty_state" where
  "tty_printc tid ch s =
     (let i = tty_id tid; s = snd (tty_printchar i [ch] s)
      in if i = active_tty s then update_cursor s else s)"

section \<open>The terminal a console implements\<close>

text \<open>A plain terminal: 25 by 80 cells, a cursor and two colours.  No virtual buffer.\<close>

record terminal =
  cells :: "int \<Rightarrow> int \<Rightarrow> u16"
  cur_x :: int
  cur_y :: int
  t_color :: u16
  t_orig :: u16

definition term_linefeed :: "terminal \<Rightarrow> terminal" where
  "term_linefeed T =
     (if cur_y T = 24
      then T\<lparr>cells := (\<lambda>r c. if r = 24 then blank (t_color T) else cells T (r + 1) c)\<rparr>
      else T\<lparr>cur_y := cur_y T + 1\<rparr>)"

definition term_put :: "u16 \<Rightarrow> terminal \<Rightarrow> terminal" where
  "term_put w T = T\<lparr>cells := (\<lambda>r c. if r = cur_y T \<and> c = cur_x T then w else cells T r c)\<rparr>"

text \<open>The effect of an escape sequence at the head of \<open>str\<close> on the current colour.\<close>

definition esc_effect :: "u8 list \<Rightarrow> u16 \<Rightarrow> u16 \<Rightarrow> nat \<times> u16" where
  "esc_effect str c orig =
     (if char_at str 1 = 0x5b \<and> char_at str 2 \<noteq> 0 \<and> char_at str 3 = 0x5d
         \<and> colorcode (char_at str 2) (uint (drop_bit 8 orig AND 0x0f)) \<noteq> -1
      then (3, (c AND 0xf000) OR word_of_int (push_bit 8
                 (colorcode (char_at str 2) (uint (drop_bit 8 orig AND 0x0f)))))
      else if char_at str 1 = 0x7b \<and> char_at str 2 \<noteq> 0 \<and> char_at str 3 = 0x7d
         \<and> colorcode (char_at str 2) (uint (drop_bit 12 orig)) \<noteq> -1
      then (3, (c AND 0x0f00) OR word_of_int (push_bit 12
                 (colorcode (char_at str 2) (uint (drop_bit 12 orig)))))
      else (0, c))"

definition term_char :: "u8 list \<Rightarrow> terminal \<Rightarrow> nat \<times> terminal" where
  "term_char str T =
     (let ch = char_at str 0 in
      if ch = 0x0a then (0, term_linefeed (T\<lparr>cur_x := 0\<rparr>))
      else if ch = 0x1b then
        (let (n, c) = esc_effect str (t_color T) (t_orig T) in (n, T\<lparr>t_color := c\<rparr>))
      else if ch = 0x08 then
        (0, if cur_x T > 0 then term_put (blank (t_color T)) (T\<lparr>cur_x := cur_x T - 1\<rparr>) else T)
      else
        let T = term_put (t_color T OR scast ch) T
        in (0, if cur_x T = 79 then term_linefeed (T\<lparr>cur_x := 0\<rparr>)
               else T\<lparr>cur_x := cur_x T + 1\<rparr>))"

function term_chars :: "u8 list \<Rightarrow> terminal \<Rightarrow> terminal" where
  "term_chars [] T = T"
| "term_chars (c # cs) T = (let (n, T') = term_char (c # cs) T in term_chars (drop n cs) T')"
  by pat_completeness auto
termination
  by (relation "measure (\<lambda>(cs, T). length cs)") auto

text \<open>Console \<open>i\<close> is consistent: the cursor is on the screen, the virtual row is the screen
  row until the screen is full and runs ahead of it afterwards, and every row the cursor has
  left beyond the first 25 has its copy 25 rows higher.\<close>

definition con_inv :: "nat \<Rightarrow> tty_state \<Rightarrow> bool" where
  "con_inv i s \<longleftrightarrow> i < length (ttys s) \<and>
     (let t = ttys s ! i; x = uint (sp_x (pos t)); y = uint (sp_y (pos t)); yb = uint (ybuf t) in
      x < 80 \<and> y \<le> 24 \<and> y \<le> yb \<and> yb \<le> 49 \<and> (y = 24 \<or> yb = y) \<and>
      tlcorner t = screen t + (yb - y) * 80 \<and>
      (\<forall>r c. 25 \<le> r \<longrightarrow> r < yb \<longrightarrow> 0 \<le> c \<longrightarrow> c < 80 \<longrightarrow>
         vram s (screen t + (r - 25) * 80 + c) = vram s (screen t + r * 80 + c)))"

text \<open>What the hardware shows from the top-left corner on is the terminal's screen.\<close>

definition displays :: "nat \<Rightarrow> tty_state \<Rightarrow> terminal \<Rightarrow> bool" where
  "displays i s T \<longleftrightarrow>
     (let t = ttys s ! i in
      cur_x T = uint (sp_x (pos t)) \<and> cur_y T = uint (sp_y (pos t)) \<and>
      t_color T = textcolor_cur t \<and> t_orig T = textcolor_orig t \<and>
      (\<forall>r c. 0 \<le> r \<longrightarrow> r < 25 \<longrightarrow> 0 \<le> c \<longrightarrow> c < 80 \<longrightarrow>
         vram s (tlcorner t + r * 80 + c) = cells T r c))"

lemma uint_u8_Suc: "uint (a::u8) < 255 \<Longrightarrow> uint (a + 1) = uint a + 1"
  by (simp add: uint_word_ariths)

lemma uint_u8_pred: "uint (a::u8) > 0 \<Longrightarrow> uint (a - 1) = uint a - 1"
proof -
  assume "uint a > 0"
  then have "a \<noteq> 0" by auto
  then have "unat (a - 1) = unat a - 1" "unat a > 0" by (simp_all add: unat_minus_one unat_gt_0)
  then show "uint (a - 1) = uint a - 1" by (simp only: uint_nat of_nat_diff)
qed

lemma upd_tty_simps [simp]:
  "i < length (ttys s) \<Longrightarrow> ttys (upd_tty i f s) ! i = f (ttys s ! i)"
  "length (ttys (upd_tty i f s)) = length (ttys s)"
  "vram (upd_tty i f s) = vram s" "active_tty (upd_tty i f s) = active_tty s"
  "j \<noteq> i \<Longrightarrow> ttys (upd_tty i f s) ! j = ttys s ! j"
  by (simp_all add: upd_tty_def)

lemma update_simps [simp]:
  "ttys (update_buffer_offset s) = ttys s" "vram (update_buffer_offset s) = vram s"
  "active_tty (update_buffer_offset s) = active_tty s"
  "ttys (update_cursor s) = ttys s" "vram (update_cursor s) = vram s"
  "active_tty (update_cursor s) = active_tty s"
  by (simp_all add: update_buffer_offset_def update_cursor_def crtc_set_def Let_def)

lemma linefeed_low:
  assumes "i < length (ttys s)" and "uint (sp_y (pos (ttys s ! i))) < 24"
  defines "t \<equiv> ttys s ! i"
  shows "vram (do_linefeed i s)
      = copy_words (screen t + uint (ybuf t) * 80 - 2000) (screen t + uint (ybuf t) * 80) 80 (vram s)"
    "ttys (do_linefeed i s) ! i = t\<lparr>pos := (pos t)\<lparr>sp_y := sp_y (pos t) + 1\<rparr>, ybuf := ybuf t + 1\<rparr>"
    "length (ttys (do_linefeed i s)) = length (ttys s)"
proof -
  have "uint (sp_y (pos t) + 1) \<noteq> 25" using assms by (simp add: uint_u8_Suc)
  then show "vram (do_linefeed i s)
      = copy_words (screen t + uint (ybuf t) * 80 - 2000) (screen t + uint (ybuf t) * 80) 80 (vram s)"
    "ttys (do_linefeed i s) ! i = t\<lparr>pos := (pos t)\<lparr>sp_y := sp_y (pos t) + 1\<rparr>, ybuf := ybuf t + 1\<rparr>"
    "length (ttys (do_linefeed i s)) = length (ttys s)"
    using assms(1) by (simp_all add: do_linefeed_def Let_def screen_defs t_def)
qed

lemma scroll_row_fields:
  assumes "i < length (ttys s)"
  defines "t \<equiv> ttys s ! i"
  defines "yb \<equiv> if uint (ybuf t) = 50 then ybuf t - 25 else ybuf t"
  shows "vram (scroll_row i s) = memsetw (screen t + uint yb * 80) (blank (textcolor_cur t)) 160 (vram s)"
    "ttys (scroll_row i s) ! i = t\<lparr>pos := (pos t)\<lparr>sp_y := sp_y (pos t) - 1\<rparr>, ybuf := yb,
       tlcorner := screen t + (uint yb + 1) * 80 - 2000\<rparr>"
    "length (ttys (scroll_row i s)) = length (ttys s)"
  using assms(1) by (simp_all add: scroll_row_def Let_def screen_defs t_def yb_def)

lemma linefeed_scroll:
  assumes "i < length (ttys s)" and "uint (sp_y (pos (ttys s ! i))) = 24"
    and "uint (ybuf (ttys s ! i)) \<le> 49"
  defines "t \<equiv> ttys s ! i"
  defines "yb \<equiv> if uint (ybuf t) = 49 then 25 else uint (ybuf t) + 1"
  shows "vram (do_linefeed i s)
      = memsetw (screen t + yb * 80) (blank (textcolor_cur t)) 160
          (copy_words (screen t + uint (ybuf t) * 80 - 2000) (screen t + uint (ybuf t) * 80) 80 (vram s))"
    "uint (ybuf (ttys (do_linefeed i s) ! i)) = yb"
    "tlcorner (ttys (do_linefeed i s) ! i) = screen t + (yb + 1) * 80 - 2000"
    "pos (ttys (do_linefeed i s) ! i) = pos t" "screen (ttys (do_linefeed i s) ! i) = screen t"
    "textcolor_cur (ttys (do_linefeed i s) ! i) = textcolor_cur t"
    "textcolor_orig (ttys (do_linefeed i s) ! i) = textcolor_orig t"
    "length (ttys (do_linefeed i s)) = length (ttys s)"
proof -
  let ?m = "copy_words (screen t + uint (ybuf t) * 80 - 2000) (screen t + uint (ybuf t) * 80) 80 (vram s)"
  define yb1 where "yb1 = ybuf t + 1"
  let ?t = "t\<lparr>pos := (pos t)\<lparr>sp_y := sp_y (pos t) + 1\<rparr>, ybuf := yb1\<rparr>"
  have y: "uint (sp_y (pos t) + 1) = 25" using assms(2) by (simp add: uint_u8_Suc t_def)
  have b: "uint yb1 = uint (ybuf t) + 1"
    using assms(3) unfolding yb1_def by (intro uint_u8_Suc) (simp add: t_def)
  have "yb1 = 50" if "uint yb1 = 50" using that by (intro word_uint_eqI) simp
  define yb2 where "yb2 = (if uint yb1 = 50 then yb1 - 25 else yb1)"
  have yb: "uint yb2 = yb"
    using b \<open>uint yb1 = 50 \<Longrightarrow> yb1 = 50\<close> by (auto simp: yb_def yb2_def)
  define s1 where "s1 = upd_tty i (\<lambda>_. ?t) (s\<lparr>vram := ?m\<rparr>)"
  have s1: "ttys s1 ! i = ?t" "vram s1 = ?m" "length (ttys s1) = length (ttys s)" "i < length (ttys s1)"
    using assms(1) by (simp_all add: s1_def)
  have "do_linefeed i s = scroll_row i s1"
    using assms(1) y
    by (simp add: do_linefeed_def Let_def screen_defs t_def [symmetric] s1_def upd_tty_def yb1_def)
  moreover have "(if uint (ybuf (ttys s1 ! i)) = 50 then ybuf (ttys s1 ! i) - 25 else ybuf (ttys s1 ! i)) = yb2"
    by (simp add: s1 yb2_def)
  note f = scroll_row_fields [OF s1(4), unfolded this]
  ultimately show "vram (do_linefeed i s) = memsetw (screen t + yb * 80) (blank (textcolor_cur t)) 160 ?m"
    "uint (ybuf (ttys (do_linefeed i s) ! i)) = yb"
    "tlcorner (ttys (do_linefeed i s) ! i) = screen t + (yb + 1) * 80 - 2000"
    "pos (ttys (do_linefeed i s) ! i) = pos t" "screen (ttys (do_linefeed i s) ! i) = screen t"
    "textcolor_cur (ttys (do_linefeed i s) ! i) = textcolor_cur t"
    "textcolor_orig (ttys (do_linefeed i s) ! i) = textcolor_orig t"
    "length (ttys (do_linefeed i s)) = length (ttys s)"
    using f s1 yb by simp_all
qed

lemma cell_eq:
  fixes r r' c c' :: int
  assumes "0 \<le> c" "c < 80" "0 \<le> c'" "c' < 80"
  shows "r * 80 + c = r' * 80 + c' \<longleftrightarrow> r = r' \<and> c = c'"
proof
  assume eq: "r * 80 + c = r' * 80 + c'"
  consider "r < r'" | "r = r'" | "r' < r" by linarith
  then show "r = r' \<and> c = c'" using eq assms by cases linarith+
qed simp

lemma row_between:
  fixes r k c :: int
  assumes "0 \<le> c" "c < 80"
  shows "k * 80 \<le> r * 80 + c \<longleftrightarrow> k \<le> r" "r * 80 + c < k * 80 \<longleftrightarrow> r < k"
  using assms by linarith+

lemma linefeed_refines:
  assumes inv: "con_inv i s" and disp: "displays i s T"
  shows "con_inv i (do_linefeed i s) \<and> displays i (do_linefeed i s) (term_linefeed T)"
proof -
  define t where "t = ttys s ! i"
  define y where "y = uint (sp_y (pos t))"
  define yb where "yb = uint (ybuf t)"
  have i: "i < length (ttys s)" and x: "uint (sp_x (pos t)) < 80" and y: "y \<le> 24" "y \<le> yb" "yb \<le> 49"
    "y = 24 \<or> yb = y" and tl: "tlcorner t = screen t + (yb - y) * 80"
    and shadow: "\<And>r c. 25 \<le> r \<Longrightarrow> r < yb \<Longrightarrow> 0 \<le> c \<Longrightarrow> c < 80 \<Longrightarrow>
         vram s (screen t + (r - 25) * 80 + c) = vram s (screen t + r * 80 + c)"
    using inv by (auto simp: con_inv_def Let_def t_def y_def yb_def)
  have d: "cur_x T = uint (sp_x (pos t))" "cur_y T = y" "t_color T = textcolor_cur t"
    "t_orig T = textcolor_orig t" and cells: "\<And>r c. 0 \<le> r \<Longrightarrow> r < 25 \<Longrightarrow> 0 \<le> c \<Longrightarrow> c < 80 \<Longrightarrow>
         vram s (screen t + (yb - y + r) * 80 + c) = cells T r c"
    using disp by (auto simp: displays_def Let_def t_def [symmetric] y_def tl algebra_simps)
  define m where "m = copy_words (screen t + yb * 80 - 2000) (screen t + yb * 80) 80 (vram s)"
  have m: "m (screen t + r * 80 + c) = (if r = yb - 25 then vram s (screen t + yb * 80 + c)
      else vram s (screen t + r * 80 + c))" if "0 \<le> c" "c < 80" for r c
  proof (cases "r = yb - 25")
    case True
    show ?thesis unfolding True using that by (simp add: m_def copy_words_def algebra_simps)
  next
    case False
    then have "r < yb - 25 \<or> yb - 24 \<le> r" by linarith
    then have "r * 80 + c < (yb - 25) * 80 \<or> (yb - 24) * 80 \<le> r * 80 + c"
      by (simp only: row_between [OF that])
    then show ?thesis using False by (auto simp: m_def copy_words_def algebra_simps)
  qed
  show ?thesis
  proof (cases "y = 24")
    case False
    then have lt: "uint (sp_y (pos (ttys s ! i))) < 24" using y by (simp add: y_def t_def)
    note lf = linefeed_low [OF i lt, folded t_def, folded yb_def, folded m_def]
    have uy: "uint (sp_y (pos t) + 1) = y + 1" using y unfolding y_def by (intro uint_u8_Suc) simp
    have ub: "uint (ybuf t + 1) = yb + 1" using y unfolding yb_def by (intro uint_u8_Suc) simp
    have eq: "yb = y" using False y by simp
    have "con_inv i (do_linefeed i s)"
      using i x y False tl eq by (simp add: con_inv_def lf uy ub)
    moreover have "displays i (do_linefeed i s) (term_linefeed T)"
      using False d eq cells y tl
      by (auto simp: displays_def lf uy term_linefeed_def m [where r = r for r])
    ultimately show ?thesis ..
  next
    case True
    define yn where "yn = (if yb = 49 then 25 else yb + 1)"
    have a: "uint (sp_y (pos (ttys s ! i))) = 24" "uint (ybuf (ttys s ! i)) \<le> 49"
      using True y by (simp_all add: y_def yb_def t_def)
    note lf = linefeed_scroll [OF i a, folded t_def, folded yb_def, folded yn_def m_def]
    have yn: "25 \<le> yn" "yn \<le> 49" using True y by (auto simp: yn_def)
    have v: "vram (do_linefeed i s) (screen t + r * 80 + c)
        = (if r = yn \<or> r = yn + 1 then blank (textcolor_cur t) else m (screen t + r * 80 + c))"
      if "0 \<le> c" "c < 80" for r c
    proof -
      have "r = yn \<or> r = yn + 1 \<longleftrightarrow> yn * 80 \<le> r * 80 + c \<and> r * 80 + c < (yn + 2) * 80"
        unfolding row_between [OF that] by auto
      then show ?thesis by (simp add: lf memsetw_def algebra_simps)
    qed
    have keep: "vram (do_linefeed i s) (screen t + r * 80 + c) = m (screen t + r * 80 + c)"
      if "0 \<le> c" "c < 80" "r < yn" for r c using v that by simp
    have "con_inv i (do_linefeed i s)"
    proof -
      have "vram (do_linefeed i s) (screen t + (r - 25) * 80 + c)
          = vram (do_linefeed i s) (screen t + r * 80 + c)"
        if rc: "25 \<le> r" "r < yn" "0 \<le> c" "c < 80" for r c
      proof -
        have "yb \<noteq> 49" "r \<le> yb" using rc by (auto simp: yn_def split: if_splits)
        then show ?thesis
          using keep [of c r] keep [of c "r - 25"] rc m [of c r] m [of c "r - 25"] shadow [of r c] y(3)
          by auto
      qed
      then show ?thesis
        using i x True yn
        by (simp add: con_inv_def lf Let_def y_def [symmetric] algebra_simps)
    qed
    moreover have "displays i (do_linefeed i s) (term_linefeed T)"
    proof -
      have "vram (do_linefeed i s) (screen t + (yn - 24 + r) * 80 + c)
          = (if r = 24 then blank (t_color T) else cells T (r + 1) c)"
        if rc: "0 \<le> r" "r < 25" "0 \<le> c" "c < 80" for r c
      proof (cases "r = 24")
        case True
        then show ?thesis using v [of c yn] rc d by simp
      next
        case r: False
        have k: "vram (do_linefeed i s) (screen t + (yn - 24 + r) * 80 + c)
            = m (screen t + (yn - 24 + r) * 80 + c)"
          using keep [of c "yn - 24 + r"] rc r by simp
        have c1: "vram s (screen t + (yb - 24 + (r + 1)) * 80 + c) = cells T (r + 1) c"
          using cells [of "r + 1" c] rc r True by simp
        show ?thesis
        proof (cases "yb = 49")
          case False
          then have e: "yn - 24 + r = yb - 24 + (r + 1)" by (simp add: yn_def)
          show ?thesis unfolding e using k [unfolded e] c1 r rc m [of c "yb - 24 + (r + 1)"] by simp
        next
          case w: True
          then have e: "yn - 24 + r = (yb - 24 + (r + 1)) - 25" by (simp add: yn_def)
          show ?thesis
            unfolding e using k [unfolded e] c1 r rc w m [of c "(yb - 24 + (r + 1)) - 25"] shadow [of "yb - 24 + (r + 1)" c]
            by (auto split: if_splits)
        qed
      qed
      then show ?thesis
        using d True
        by (simp add: displays_def lf Let_def y_def [symmetric] term_linefeed_def algebra_simps)
    qed
    ultimately show ?thesis ..
  qed
qed

section \<open>Characters\<close>

definition shows_term :: "nat \<Rightarrow> tty_state \<Rightarrow> terminal \<Rightarrow> bool" where
  "shows_term i s T \<longleftrightarrow> con_inv i s \<and> displays i s T"

lemma set_x_fields:
  assumes "i < length (ttys s)"
  shows "ttys (set_x i x s) ! i = (ttys s ! i)\<lparr>pos := (pos (ttys s ! i))\<lparr>sp_x := x\<rparr>\<rparr>"
    "vram (set_x i x s) = vram s" "length (ttys (set_x i x s)) = length (ttys s)"
  using assms by (simp_all add: set_x_def)

lemma set_x_shows:
  assumes "shows_term i s T" and "uint x < 80"
  shows "shows_term i (set_x i x s) (T\<lparr>cur_x := uint x\<rparr>)"
proof -
  have "i < length (ttys s)" using assms(1) by (simp add: shows_term_def con_inv_def)
  then show ?thesis
    using assms by (auto simp: shows_term_def con_inv_def displays_def set_x_fields Let_def)
qed

lemma put_cell_shows:
  assumes "shows_term i s T"
  shows "shows_term i (put_cell (screen (ttys s ! i)
      + (uint (ybuf (ttys s ! i)) * 80 + uint (sp_x (pos (ttys s ! i))))) w s) (term_put w T)"
proof -
  define t where "t = ttys s ! i"
  define x y yb where "x = uint (sp_x (pos t))" and "y = uint (sp_y (pos t))" and "yb = uint (ybuf t)"
  let ?s = "put_cell (screen t + (yb * 80 + x)) w s"
  have i: "i < length (ttys s)" and x: "0 \<le> x" "x < 80" and y: "0 \<le> y" "y \<le> 24" "y \<le> yb" "yb \<le> 49"
    "y = 24 \<or> yb = y" and tl: "tlcorner t = screen t + (yb - y) * 80"
    and shadow: "\<And>r c. 25 \<le> r \<Longrightarrow> r < yb \<Longrightarrow> 0 \<le> c \<Longrightarrow> c < 80 \<Longrightarrow>
         vram s (screen t + (r - 25) * 80 + c) = vram s (screen t + r * 80 + c)"
    using assms by (auto simp: shows_term_def con_inv_def Let_def t_def y_def yb_def x_def)
  have d: "cur_x T = x" "cur_y T = y" "t_color T = textcolor_cur t" "t_orig T = textcolor_orig t"
    and cells: "\<And>r c. 0 \<le> r \<Longrightarrow> r < 25 \<Longrightarrow> 0 \<le> c \<Longrightarrow> c < 80 \<Longrightarrow>
         vram s (tlcorner t + r * 80 + c) = cells T r c"
    using assms by (auto simp: shows_term_def displays_def Let_def t_def y_def x_def)
  have v: "vram ?s (screen t + r * 80 + c)
      = (if r = yb \<and> c = x then w else vram s (screen t + r * 80 + c))" if "0 \<le> c" "c < 80" for r c
    using cell_eq [OF that x, of r yb] by (simp add: put_cell_def)
  have t': "ttys ?s = ttys s" by (simp add: put_cell_def)
  have sh: "vram ?s (screen t + (r - 25) * 80 + c) = vram ?s (screen t + r * 80 + c)"
    if "25 \<le> r" "r < yb" "0 \<le> c" "c < 80" for r c
    using v [of c "r - 25"] v [of c r] shadow [OF that] that by simp
  have "con_inv i ?s"
    using i x y tl sh
    by (simp add: con_inv_def Let_def t' t_def [symmetric] y_def [symmetric] yb_def [symmetric]
        x_def [symmetric])
  moreover have "displays i ?s (term_put w T)"
  proof -
    have "vram ?s (tlcorner t + r * 80 + c) = (if r = y \<and> c = x then w else cells T r c)"
      if "0 \<le> r" "r < 25" "0 \<le> c" "c < 80" for r c
    proof -
      have e: "tlcorner t + r * 80 + c = screen t + (yb - y + r) * 80 + c" by (simp add: tl algebra_simps)
      show ?thesis unfolding e using v [of c "yb - y + r"] cells [of r c, unfolded e] that by auto
    qed
    then show ?thesis
      using d by (simp add: displays_def term_put_def t' Let_def t_def [symmetric] y_def [symmetric]
          x_def [symmetric])
  qed
  ultimately show ?thesis by (simp add: shows_term_def t_def yb_def x_def)
qed

lemma linefeed_shows: "shows_term i s T \<Longrightarrow> shows_term i (do_linefeed i s) (term_linefeed T)"
  using linefeed_refines unfolding shows_term_def by blast

lemma color_shows:
  assumes "shows_term i s T"
  shows "shows_term i (upd_tty i (\<lambda>t. t\<lparr>textcolor_cur := c\<rparr>) s) (T\<lparr>t_color := c\<rparr>)"
proof -
  have "i < length (ttys s)" using assms by (simp add: shows_term_def con_inv_def)
  then show ?thesis
    using assms by (auto simp: shows_term_def con_inv_def displays_def Let_def)
qed

lemma shows_fields:
  assumes "shows_term i s T"
  shows "cur_x T = uint (sp_x (pos (ttys s ! i)))" "t_color T = textcolor_cur (ttys s ! i)"
    "t_orig T = textcolor_orig (ttys s ! i)" "uint (sp_x (pos (ttys s ! i))) < 80"
    "i < length (ttys s)"
  using assms by (auto simp: shows_term_def con_inv_def displays_def Let_def)

lemma escape_shows:
  assumes "shows_term i s T"
  shows "fst (escape_seq i str s) = fst (esc_effect str (t_color T) (t_orig T)) \<and>
     shows_term i (snd (escape_seq i str s)) (T\<lparr>t_color := snd (esc_effect str (t_color T) (t_orig T))\<rparr>)"
proof -
  note f = shows_fields [OF assms]
  have same: "T\<lparr>t_color := textcolor_cur (ttys s ! i)\<rparr> = T" using f(2) by simp
  have upd: "upd_tty i (\<lambda>t. t\<lparr>textcolor_cur := (textcolor_cur t AND m) OR k\<rparr>) s
      = upd_tty i (\<lambda>t. t\<lparr>textcolor_cur := (textcolor_cur (ttys s ! i) AND m) OR k\<rparr>) s" for m k
    by (simp add: upd_tty_def)
  show ?thesis
    unfolding escape_seq_def esc_effect_def Let_def f upd
    using assms color_shows [OF assms] by (auto simp: same)
qed

lemma char_shows:
  assumes "shows_term i s T"
  shows "fst (tty_printchar i str s) = fst (term_char str T) \<and>
     shows_term i (snd (tty_printchar i str s)) (snd (term_char str T))"
proof -
  note f = shows_fields [OF assms]
  define ch where "ch = char_at str 0"
  consider "ch = 0x0a" | "ch = 0x1b" | "ch = 0x08" | "ch \<notin> {0x0a, 0x1b, 0x08}" by blast
  then show ?thesis
  proof cases
    case 1
    then show ?thesis
      using linefeed_shows [OF set_x_shows [OF assms, of 0]]
      by (simp add: tty_printchar_def term_char_def ch_def)
  next
    case 2
    then show ?thesis
      using escape_shows [OF assms, of str]
      by (simp add: tty_printchar_def term_char_def ch_def split_beta)
  next
    case 3
    show ?thesis
    proof (cases "sp_x (pos (ttys s ! i)) > 0")
      case True
      then have pos: "uint (sp_x (pos (ttys s ! i))) > 0" by (simp add: word_less_def)
      let ?x = "sp_x (pos (ttys s ! i)) - 1"
      have ux: "uint ?x = uint (sp_x (pos (ttys s ! i))) - 1" by (rule uint_u8_pred [OF pos])
      have sx: "shows_term i (set_x i ?x s) (T\<lparr>cur_x := cur_x T - 1\<rparr>)"
        using set_x_shows [OF assms, of ?x] f ux by simp
      show ?thesis
        using 3 True pos put_cell_shows [OF sx, of "blank (textcolor_cur (ttys s ! i))"]
        by (simp add: tty_printchar_def term_char_def ch_def [symmetric] set_x_fields [OF f(5)] f Let_def screen_defs)
    next
      case False
      then have "\<not> uint (sp_x (pos (ttys s ! i))) > 0" by (simp add: word_less_def)
      then show ?thesis
        using 3 False assms by (simp add: tty_printchar_def term_char_def ch_def [symmetric] f Let_def)
    qed
  next
    case 4
    let ?x = "sp_x (pos (ttys s ! i))"
    let ?w = "textcolor_cur (ttys s ! i) OR scast ch"
    have ux: "uint (?x + 1) = uint ?x + 1" using f(4) by (intro uint_u8_Suc) simp
    define s1 where "s1 = put_cell (screen (ttys s ! i)
      + (uint (ybuf (ttys s ! i)) * 80 + uint (sp_x (pos (ttys s ! i))))) ?w s"
    have s1: "shows_term i s1 (term_put ?w T)" unfolding s1_def by (rule put_cell_shows [OF assms])
    have tp: "tty_printchar i str s
        = (0, if uint ?x = 79 then do_linefeed i (set_x i 0 s1) else set_x i (?x + 1) s1)"
      using 4 ux by (simp add: tty_printchar_def Let_def screen_defs ch_def [symmetric] s1_def)
    have tc: "term_char str T = (0, if uint ?x = 79 then term_linefeed ((term_put ?w T)\<lparr>cur_x := 0\<rparr>)
        else (term_put ?w T)\<lparr>cur_x := uint ?x + 1\<rparr>)"
      using 4 f by (simp add: term_char_def Let_def ch_def [symmetric] term_put_def)
    show ?thesis
      using linefeed_shows [OF set_x_shows [OF s1, of 0]] set_x_shows [OF s1, of "?x + 1"] f(4) ux
      by (simp add: tp tc)
  qed
qed

lemma chars_shows: "shows_term i s T \<Longrightarrow> shows_term i (print_chars i str s) (term_chars str T)"
proof (induction str T arbitrary: s rule: term_chars.induct)
  case (2 c cs T)
  from char_shows [OF "2.prems", of "c # cs"]
  have "fst (tty_printchar i (c # cs) s) = fst (term_char (c # cs) T)"
    "shows_term i (snd (tty_printchar i (c # cs) s)) (snd (term_char (c # cs) T))" by blast+
  with "2.IH" [OF refl, of "fst (term_char (c # cs) T)" "snd (term_char (c # cs) T)"]
  show ?case by (simp add: split_beta)
qed simp

section \<open>Properties\<close>

definition blank_terminal :: "u16 \<Rightarrow> u16 \<Rightarrow> terminal" where
  "blank_terminal c orig =
     \<lparr>cells = (\<lambda>_ _. blank c), cur_x = 0, cur_y = 0, t_color = c, t_orig = orig\<rparr>"

lemma clear_shows:
  assumes "tty_id tid < length (ttys s)"
  shows "shows_term (tty_id tid) (tty_clear tid s)
     (blank_terminal (textcolor_cur (ttys s ! tty_id tid)) (textcolor_orig (ttys s ! tty_id tid)))"
proof -
  let ?i = "tty_id tid"
  let ?t = "ttys s ! ?i"
  let ?s = "tty_clear tid s"
  have f: "ttys ?s ! ?i = ?t\<lparr>pos := \<lparr>sp_x = 0, sp_y = 0\<rparr>, ybuf := 0, tlcorner := screen ?t\<rparr>"
    "vram ?s = memsetw (screen ?t) (blank (textcolor_cur ?t)) 4000 (vram s)"
    "length (ttys ?s) = length (ttys s)"
    using assms by (simp_all add: tty_clear_def Let_def screen_defs)
  have "con_inv ?i ?s" using assms by (simp add: con_inv_def f)
  moreover have "displays ?i ?s (blank_terminal (textcolor_cur ?t) (textcolor_orig ?t))"
    by (auto simp: displays_def f blank_terminal_def memsetw_def)
  ultimately show ?thesis by (simp add: shows_term_def)
qed

lemma print_shows:
  assumes "shows_term (tty_id tid) s T"
  shows "shows_term (tty_id tid) (tty_print tid str s) (term_chars str T)"
proof -
  have "shows_term i (update_cursor s) T = shows_term i s T" for i s T
    by (simp add: shows_term_def con_inv_def displays_def)
  then show ?thesis using chars_shows [OF assms, of str] by (simp add: tty_print_def Let_def)
qed

lemma prints_show:
  "shows_term (tty_id tid) s T \<Longrightarrow>
     shows_term (tty_id tid) (fold (tty_print tid) strs s) (fold term_chars strs T)"
  by (induction strs arbitrary: s T) (simp_all add: print_shows)

text \<open>C13: printing refines a plain 25 by 80 terminal.  From a cleared console on, whatever
  strings are printed, with newlines, backspaces and colour escapes, the rows the hardware
  shows from the top-left corner on are the terminal's rows and the cursor is where the
  terminal has it: wrapping back in the 50-row buffer is invisible.\<close>

theorem tty_print_refines_terminal:
  assumes "tty_id tid < length (ttys s)"
  shows "shows_term (tty_id tid) (fold (tty_print tid) strs (tty_clear tid s))
     (fold term_chars strs (blank_terminal (textcolor_cur (ttys s ! tty_id tid))
                              (textcolor_orig (ttys s ! tty_id tid))))"
  by (rule prints_show [OF clear_shows [OF assms]])

definition any_tty_state :: tty_state where
  "any_tty_state = tty_init \<lparr>ttys = [], active_tty = 0, vram = (\<lambda>_. 0), port_in = (\<lambda>_. 0),
     port_reads = 0, tty_io = []\<rparr>"

lemma any_ttys: "i < 4 \<Longrightarrow> ttys any_tty_state ! i = init_tty i" "length (ttys any_tty_state) = 4"
  by (simp_all add: any_tty_state_def tty_init_def)

theorem tty_print_refines_terminal_witness:
  "cells (term_chars [0x48, 0x69] (blank_terminal 0x0f00 0x0f00)) 0 1 = 0x0f69
   \<and> shows_term 2 (tty_print 2 [0x48, 0x69] (tty_clear 2 any_tty_state))
       (term_chars [0x48, 0x69] (blank_terminal 0x0f00 0x0f00))"
proof
  show "cells (term_chars [0x48, 0x69] (blank_terminal 0x0f00 0x0f00)) 0 1 = 0x0f69"
    by (simp add: term_char_def char_at_def term_put_def blank_terminal_def)
  show "shows_term 2 (tty_print 2 [0x48, 0x69] (tty_clear 2 any_tty_state))
       (term_chars [0x48, 0x69] (blank_terminal 0x0f00 0x0f00))"
    using tty_print_refines_terminal [of 2 any_tty_state "[[0x48, 0x69]]"]
    by (simp add: tty_id_def MAX_TTYS_def any_ttys init_tty_def color_def)
qed

text \<open>C14: a newline writes outside its console while the cursor is on one of the first 25 rows of
  its buffer.  The row the cursor leaves is copied 25 rows higher, in front of the buffer: for
  console 0 that is in front of video memory, for consoles 1 to 3 it is the second half of the
  buffer of the console before, which that console shows once it has scrolled.\<close>

theorem newline_writes_before_console:
  assumes "con_inv (tty_id tid) s" and "t = ttys s ! tty_id tid" and "uint (ybuf t) < 25" and "0 \<le> c" and "c < 80"
    and "a = screen t + uint (ybuf t) * 80 + c - 2000"
  shows "vram (tty_print tid [0x0a] s) a = vram s (screen t + uint (ybuf t) * 80 + c) \<and> a < screen t \<and>
    (Suc i = tty_id tid \<and> screen t = screen (ttys s ! i) + 0x1000 \<longrightarrow>
       screen (ttys s ! i) + 2000 \<le> a \<and> a < screen (ttys s ! i) + 4096)"
proof -
  let ?i = "tty_id tid"
  define u where "u = set_x ?i 0 s"
  have l: "?i < length (ttys s)" and y: "uint (sp_y (pos t)) \<le> 24"
    using assms(1) by (auto simp: con_inv_def Let_def assms(2))
  have u: "?i < length (ttys u)" "vram u = vram s" "screen (ttys u ! ?i) = screen t"
    "ybuf (ttys u ! ?i) = ybuf t" "sp_y (pos (ttys u ! ?i)) = sp_y (pos t)"
    using set_x_fields [OF l, of 0] l by (simp_all add: u_def assms(2))
  have v: "vram (tty_print tid [0x0a] s) = vram (do_linefeed ?i u)"
    by (simp add: tty_print_def tty_printchar_def char_at_def Let_def u_def)
  have yb: "0 \<le> uint (ybuf t)" by simp
  have w: "vram (do_linefeed ?i u) a = vram s (screen t + uint (ybuf t) * 80 + c)"
  proof (cases "uint (sp_y (pos t)) < 24")
    case True
    then show ?thesis
      using linefeed_low(1) [OF u(1)] assms(4-6) by (simp add: u copy_words_def algebra_simps)
  next
    case False
    then have "uint (sp_y (pos (ttys u ! ?i))) = 24" "uint (ybuf (ttys u ! ?i)) \<le> 49" using y assms(3) by (simp_all add: u)
    from linefeed_scroll(1) [OF u(1) this] show ?thesis
      using assms(3-6) yb by (simp add: u copy_words_def memsetw_def algebra_simps)
  qed
  have "a < screen t" "screen t - 2000 \<le> a" using assms(3-6) yb by linarith+
  then show ?thesis unfolding v w by simp
qed

theorem newline_writes_before_console_witness:
  "vram (tty_print 1 [0x0a] (put_cell 0x1000 0x0f41 any_tty_state)) 2096 = 0x0f41 \<and>
   vram (tty_print 0 [0x0a] (put_cell 0 0x0f42 any_tty_state)) (-2000) = 0x0f42"
proof
  let ?s = "put_cell 0x1000 0x0f41 any_tty_state" and ?r = "put_cell 0 0x0f42 any_tty_state"
  have i: "tty_id 1 = 1" "tty_id 0 = 0" by (simp_all add: tty_id_def MAX_TTYS_def)
  have t: "ttys ?s ! 1 = init_tty 1" "ttys ?r ! 0 = init_tty 0" "length (ttys ?s) = 4" "length (ttys ?r) = 4"
    by (simp_all add: any_ttys put_cell_def)
  have "con_inv 1 ?s" "con_inv 0 ?r" unfolding con_inv_def t by (simp_all add: init_tty_def)
  then show "vram (tty_print 1 [0x0a] ?s) 2096 = 0x0f41" "vram (tty_print 0 [0x0a] ?r) (-2000) = 0x0f42"
    using newline_writes_before_console [of 1 ?s "init_tty 1" 0 2096 0, unfolded i]
      newline_writes_before_console [of 0 ?r "init_tty 0" 0 "-2000" 0, unfolded i] t
    by (simp_all add: init_tty_def) (simp_all add: put_cell_def)
qed

lemma sign_bit8: "0x80 \<le> (ch::u8) \<Longrightarrow> bit ch 7"
proof -
  assume "0x80 \<le> ch"
  then have "128 \<le> unat ch" by (simp add: word_le_nat_alt)
  moreover have "unat ch < 256" using unsigned_less [of ch] by simp
  ultimately have "unat ch div 128 = 1" by simp
  then have "bit (unat ch) 7" by (simp add: bit_iff_odd)
  then show "bit ch 7" by (simp add: bit_unsigned_iff)
qed

lemma high_byte_ff:
  assumes "0x80 \<le> (ch::u8)"
  shows "drop_bit 8 (c OR scast ch :: u16) = 0xff"
proof (rule bit_eqI)
  fix n assume "possible_bit TYPE(u16) n"
  then have n: "n < 16" by (simp add: possible_bit_def)
  have "(0xff :: u16) = mask 8" by (simp add: mask_eq_exp_minus_1)
  then have r: "bit (0xff :: u16) n \<longleftrightarrow> n < 8" using n by (simp only: bit_mask_iff) (simp add: possible_bit_def)
  have "bit (scast ch :: u16) (8 + n) \<longleftrightarrow> n < 8"
    using sign_bit8 [OF assms] by (simp add: bit_signed_iff possible_bit_def min_def)
  moreover have "bit c (8 + n) \<Longrightarrow> n < 8" using bit_imp_le_length [of c "8 + n"] by simp
  ultimately show "bit (drop_bit 8 (c OR scast ch :: u16)) n \<longleftrightarrow> bit (0xff :: u16) n"
    using r by (auto simp: bit_drop_bit_eq bit_or_iff)
qed

text \<open>A character with its top bit set loses its colours: \<open>char\<close> is signed, so the
  colour byte of the cell becomes 0xff, whatever the console's colours are.\<close>

lemma high_char_color:
  assumes "i < length (ttys s)" and "ch \<ge> 0x80" and "uint (sp_x (pos (ttys s ! i))) < 79"
  shows "drop_bit 8 (vram (snd (tty_printchar i (ch # cs) s))
     (screen (ttys s ! i) + uint (ybuf (ttys s ! i)) * 80 + uint (sp_x (pos (ttys s ! i))))) = 0xff"
proof -
  have "ch \<noteq> 0x0a" "ch \<noteq> 0x1b" "ch \<noteq> 0x08" using assms(2) by auto
  moreover have "uint (sp_x (pos (ttys s ! i)) + 1) \<noteq> 80" using assms(3) by (simp add: uint_u8_Suc)
  ultimately show ?thesis
    using high_byte_ff [OF assms(2)]
    by (simp add: tty_printchar_def char_at_def Let_def screen_defs set_x_def put_cell_def add.assoc)
qed

end
