(* ===== verification/Printf.thy ===== *)
theory Printf
  imports Prelude
begin

text \<open>
  \<^verbatim>\<open>libc/stdio/vsnprintf.c\<close> and \<^verbatim>\<open>libc/stdio/snprintf.c\<close>: formatted output into a buffer.  Memory is
  seen from the start of the buffer: \<open>mem i\<close> is the byte at \<open>buf + i\<close>, in the buffer for
  \<open>i < n\<close> and behind it from \<open>n\<close> on; \<open>bufptr\<close> and \<open>bufterm\<close> are offsets.  Arguments are a list
  of values tagged with the type they were passed with; reading an argument that is not
  there, or with another type, is undefined in C and gives \<open>None\<close>.  The \<open>int\<close> variables of
  the parser are unbounded integers (their overflow is undefined in C); the value returned
  and the counts stored are cast to 32 bits as in the code.
\<close>

section \<open>Data\<close>

datatype pstate = STATE_CHARS | STATE_FLAGS | STATE_WIDTH | STATE_PRECISION | STATE_DATALEN | STATE_DATATYPE

definition FLAG_ZERO :: u32 where "FLAG_ZERO = 1"
definition FLAG_MINUS :: u32 where "FLAG_MINUS = 2"
definition FLAG_PLUS :: u32 where "FLAG_PLUS = 4"
definition FLAG_SIGNED :: u32 where "FLAG_SIGNED = 8"
definition FLAG_UPPER :: u32 where "FLAG_UPPER = 16"
definition FLAG_SPACE :: u32 where "FLAG_SPACE = 32"
definition FLAG_HASH :: u32 where "FLAG_HASH = 64"

lemmas flag_defs = FLAG_ZERO_def FLAG_MINUS_def FLAG_PLUS_def FLAG_SIGNED_def FLAG_UPPER_def
  FLAG_SPACE_def FLAG_HASH_def

datatype datalen =
  DATALEN_CHAR | DATALEN_SHORT | DATALEN_INT | DATALEN_LONG | DATALEN_LONGLONG
| DATALEN_INTMAX_T | DATALEN_SIZE_T | DATALEN_PTRDIFF_T

text \<open>A string argument is the characters before the terminator, \<open>None\<close> a null pointer;
  \<open>ArgIntPtr\<close> is the pointer argument of the \<open>n\<close> conversion.\<close>

datatype arg = ArgInt u32 | ArgLong u64 | ArgStr "u8 list option" | ArgIntPtr

record parse =
  bufptr :: nat
  bufterm :: nat
  mem :: "nat \<Rightarrow> u8"
  pstate :: pstate
  flags :: u32
  width :: int
  precision :: int
  datalen :: datalen
  base :: u64
  args :: "arg list"
  counts :: "int list"

abbreviation c8 :: "char \<Rightarrow> u8" where "c8 c \<equiv> of_char c"

definition digits_lower :: "u8 list" where "digits_lower = asc ''0123456789abcdef''"
definition digits_upper :: "u8 list" where "digits_upper = asc ''0123456789ABCDEF''"

definition isdigit :: "u8 \<Rightarrow> bool" where
  "isdigit ch \<longleftrightarrow> sint ch \<ge> 0x30 \<and> sint ch \<le> 0x39"

definition has_flag :: "u32 \<Rightarrow> parse \<Rightarrow> bool" where
  "has_flag f p \<longleftrightarrow> flags p AND f \<noteq> 0"

definition set_flag :: "u32 \<Rightarrow> parse \<Rightarrow> parse" where
  "set_flag f p = p\<lparr>flags := flags p OR f\<rparr>"

section \<open>Output\<close>

definition addchar :: "u8 \<Rightarrow> parse \<Rightarrow> parse" where
  "addchar ch p =
     (let p = (if bufptr p < bufterm p then p\<lparr>mem := (mem p)(bufptr p := ch)\<rparr> else p)
      in p\<lparr>bufptr := bufptr p + 1\<rparr>)"

text \<open>The padding loops: add \<open>ch\<close> while the width is above \<open>n\<close>.\<close>

function pad_while :: "u8 \<Rightarrow> int \<Rightarrow> parse \<Rightarrow> parse" where
  "pad_while ch n p =
     (if width p > n
      then pad_while ch n (let p = addchar ch p in p\<lparr>width := width p - 1\<rparr>)
      else p)"
  by pat_completeness auto
termination
  by (relation "measure (\<lambda>(ch, n, p). nat (width p - n))") (auto simp: addchar_def Let_def)

declare pad_while.simps [simp del]

definition addstring :: "u8 list option \<Rightarrow> parse \<Rightarrow> parse" where
  "addstring s p =
     (let s = (case s of None \<Rightarrow> asc ''(null)'' | Some cs \<Rightarrow> cs);
          slen = int (length s);
          slen = (if precision p > -1 \<and> precision p < slen then precision p else slen);
          p = (if width p > slen \<and> \<not> has_flag FLAG_MINUS p
               then pad_while (if has_flag FLAG_ZERO p then c8 CHR ''0'' else c8 CHR '' '') slen p
               else p);
          p = fold addchar (take (nat slen) s) p
      in if width p > slen \<and> has_flag FLAG_MINUS p then pad_while (c8 CHR '' '') slen p else p)"

text \<open>The digit count of \<open>addint\<close>; the base is 8, 10 or 16.\<close>

function count_digits :: "u64 \<Rightarrow> u64 \<Rightarrow> nat" where
  "count_digits b v = (if v = 0 \<or> b \<le> 1 then 0 else 1 + count_digits b (v div b))"
  by pat_completeness auto
termination
proof (relation "measure (\<lambda>(b, v). unat v)", goal_cases)
  case (2 b v)
  then have "unat v > 0" "unat b > 1" by (auto simp: unat_gt_0 word_less_nat_alt not_le)
  then show ?case by (simp add: unat_div)
qed simp

declare count_digits.simps [simp del]

text \<open>The digits are generated backwards from \<open>ptr\<close>.\<close>

fun put_digits :: "nat \<Rightarrow> nat \<Rightarrow> u8 list \<Rightarrow> u64 \<Rightarrow> parse \<Rightarrow> parse" where
  "put_digits 0 ptr ds v p = p"
| "put_digits (Suc n) ptr ds v p =
     (let ptr = ptr - 1;
          p = (if ptr < bufterm p then p\<lparr>mem := (mem p)(ptr := ds ! unat (v mod base p))\<rparr> else p)
      in put_digits n ptr ds (v div base p) p)"

definition addint :: "u64 \<Rightarrow> parse \<Rightarrow> parse" where
  "addint value p =
     (let minus = has_flag FLAG_SIGNED p \<and> sint value < 0;
          value = (if minus then - value else value);
          ndigits = int (count_digits (base p) value);
          p = (if has_flag FLAG_HASH p \<and> base p = 8 \<and> precision p < ndigits + 1
               then p\<lparr>precision := ndigits + 1\<rparr> else p);
          ndigits = (if ndigits < precision p then precision p
                     else if value = 0 then 1 else ndigits);
          nchars = ndigits;
          nchars = (if minus \<or> has_flag (FLAG_PLUS OR FLAG_SPACE) p then nchars + 1 else nchars);
          nchars = (if has_flag FLAG_HASH p \<and> base p = 16 then nchars + 2 else nchars);
          p = (if \<not> has_flag (FLAG_MINUS OR FLAG_ZERO) p \<and> width p > nchars
               then pad_while (c8 CHR '' '') nchars p else p);
          p = (if minus then addchar (c8 CHR ''-'') p
               else if has_flag FLAG_PLUS p then addchar (c8 CHR ''+'') p
               else if has_flag FLAG_SPACE p then addchar (c8 CHR '' '') p
               else p);
          p = (if has_flag FLAG_HASH p \<and> base p = 16
               then addchar (if has_flag FLAG_UPPER p then c8 CHR ''X'' else c8 CHR ''x'')
                      (addchar (c8 CHR ''0'') p)
               else p);
          p = (if flags p AND (FLAG_MINUS OR FLAG_ZERO) = FLAG_ZERO \<and> width p > ndigits
               then pad_while (c8 CHR ''0'') nchars p else p);
          p = p\<lparr>bufptr := bufptr p + nat ndigits\<rparr>;
          p = put_digits (nat ndigits) (bufptr p)
                (if has_flag FLAG_UPPER p then digits_upper else digits_lower) value p
      in if has_flag FLAG_MINUS p then pad_while (c8 CHR '' '') nchars p else p)"

section \<open>Arguments\<close>

fun va_int :: "parse \<Rightarrow> (u32 \<times> parse) option" where
  "va_int p = (case args p of ArgInt v # as \<Rightarrow> Some (v, p\<lparr>args := as\<rparr>) | _ \<Rightarrow> None)"

fun va_long :: "parse \<Rightarrow> (u64 \<times> parse) option" where
  "va_long p = (case args p of ArgLong v # as \<Rightarrow> Some (v, p\<lparr>args := as\<rparr>) | _ \<Rightarrow> None)"

fun va_str :: "parse \<Rightarrow> (u8 list option \<times> parse) option" where
  "va_str p = (case args p of ArgStr v # as \<Rightarrow> Some (v, p\<lparr>args := as\<rparr>) | _ \<Rightarrow> None)"

fun va_intptr :: "parse \<Rightarrow> parse option" where
  "va_intptr p = (case args p of ArgIntPtr # as \<Rightarrow> Some (p\<lparr>args := as\<rparr>) | _ \<Rightarrow> None)"

text \<open>The labels \<open>add_signed\<close> and \<open>add_unsigned\<close>: fetch the argument at the length
  modifier's type, widen it, print it.\<close>

definition add_signed :: "parse \<Rightarrow> parse option" where
  "add_signed p =
     (case datalen p of
        DATALEN_CHAR \<Rightarrow> do { (v, p) \<leftarrow> va_int p; Some (addint (scast (ucast v :: u8)) p) }
      | DATALEN_SHORT \<Rightarrow> do { (v, p) \<leftarrow> va_int p; Some (addint (scast (ucast v :: u16)) p) }
      | DATALEN_INT \<Rightarrow> do { (v, p) \<leftarrow> va_int p; Some (addint (scast v) p) }
      | _ \<Rightarrow> do { (v, p) \<leftarrow> va_long p; Some (addint v p) })"

definition add_unsigned :: "parse \<Rightarrow> parse option" where
  "add_unsigned p =
     (case datalen p of
        DATALEN_CHAR \<Rightarrow> do { (v, p) \<leftarrow> va_int p; Some (addint (ucast (ucast v :: u8)) p) }
      | DATALEN_SHORT \<Rightarrow> do { (v, p) \<leftarrow> va_int p; Some (addint (ucast (ucast v :: u16)) p) }
      | DATALEN_INT \<Rightarrow> do { (v, p) \<leftarrow> va_int p; Some (addint (ucast v) p) }
      | _ \<Rightarrow> do { (v, p) \<leftarrow> va_long p; Some (addint v p) })"

section \<open>The format parser\<close>

text \<open>One turn of the loop: \<open>ch\<close> is the character just read, \<open>rest\<close> the format behind it.
  The result is the format the next turn reads from; backing up returns \<open>ch # rest\<close>.\<close>

definition step_chars :: "u8 \<Rightarrow> u8 list \<Rightarrow> parse \<Rightarrow> u8 list \<times> parse" where
  "step_chars ch rest p =
     (rest, if ch = c8 CHR ''%''
            then p\<lparr>pstate := STATE_FLAGS, flags := 0, width := 0, precision := -1,
                   datalen := DATALEN_INT, base := 10\<rparr>
            else addchar ch p)"

definition step_flags :: "u8 \<Rightarrow> u8 list \<Rightarrow> parse \<Rightarrow> u8 list \<times> parse" where
  "step_flags ch rest p =
     (if ch = c8 CHR ''0'' then (rest, set_flag FLAG_ZERO p)
      else if ch = c8 CHR ''-'' then (rest, set_flag FLAG_MINUS p)
      else if ch = c8 CHR ''+'' then (rest, set_flag FLAG_PLUS p)
      else if ch = c8 CHR '' '' then (rest, set_flag FLAG_SPACE p)
      else if ch = c8 CHR ''#'' then (rest, set_flag FLAG_HASH p)
      else (ch # rest, p\<lparr>pstate := STATE_WIDTH\<rparr>))"

definition step_width :: "u8 \<Rightarrow> u8 list \<Rightarrow> parse \<Rightarrow> (u8 list \<times> parse) option" where
  "step_width ch rest p =
     (if isdigit ch then Some (rest, p\<lparr>width := width p * 10 + (sint ch - 0x30)\<rparr>)
      else if ch = c8 CHR ''*'' then do {
        (v, p) \<leftarrow> va_int p;
        let p = p\<lparr>width := sint v\<rparr>;
        Some (rest, if width p < 0 then set_flag FLAG_MINUS (p\<lparr>width := - width p\<rparr>) else p)
      }
      else if ch = c8 CHR ''.'' then Some (rest, p\<lparr>precision := 0, pstate := STATE_PRECISION\<rparr>)
      else Some (ch # rest, p\<lparr>pstate := STATE_DATALEN\<rparr>))"

definition step_precision :: "u8 \<Rightarrow> u8 list \<Rightarrow> parse \<Rightarrow> (u8 list \<times> parse) option" where
  "step_precision ch rest p =
     (if isdigit ch then Some (rest, p\<lparr>precision := precision p * 10 + (sint ch - 0x30)\<rparr>)
      else if ch = c8 CHR ''*'' then do {
        (v, p) \<leftarrow> va_int p;
        let p = p\<lparr>precision := sint v\<rparr>;
        Some (rest, if precision p < 0 then p\<lparr>precision := -1\<rparr> else p)
      }
      else Some (ch # rest, p\<lparr>pstate := STATE_DATALEN\<rparr>))"

definition step_datalen :: "u8 \<Rightarrow> u8 list \<Rightarrow> parse \<Rightarrow> u8 list \<times> parse" where
  "step_datalen ch rest p =
     (let (rest, p) =
        (if ch = c8 CHR ''l'' then
           if take 1 rest = [c8 CHR ''l''] then (drop 1 rest, p\<lparr>datalen := DATALEN_LONGLONG\<rparr>)
           else (rest, p\<lparr>datalen := DATALEN_LONG\<rparr>)
         else if ch = c8 CHR ''h'' then
           if take 1 rest = [c8 CHR ''h''] then (drop 1 rest, p\<lparr>datalen := DATALEN_CHAR\<rparr>)
           else (rest, p\<lparr>datalen := DATALEN_SHORT\<rparr>)
         else if ch = c8 CHR ''j'' then (rest, p\<lparr>datalen := DATALEN_INTMAX_T\<rparr>)
         else if ch = c8 CHR ''z'' then (rest, p\<lparr>datalen := DATALEN_SIZE_T\<rparr>)
         else if ch = c8 CHR ''t'' then (rest, p\<lparr>datalen := DATALEN_PTRDIFF_T\<rparr>)
         else (ch # rest, p))
      in (rest, p\<lparr>pstate := STATE_DATATYPE\<rparr>))"

definition step_datatype :: "u8 \<Rightarrow> parse \<Rightarrow> parse option" where
  "step_datatype ch p = do {
     p \<leftarrow>
       (if ch = c8 CHR ''s'' then do { (s, p) \<leftarrow> va_str p; Some (addstring s p) }
        else if ch = c8 CHR ''c'' then do {
          (v, p) \<leftarrow> va_int p;
          Some (addstring (Some (if ucast v = (0::u8) then [] else [ucast v])) p)
        }
        else if ch = c8 CHR ''d'' \<or> ch = c8 CHR ''i''
        then add_signed ((set_flag FLAG_SIGNED p)\<lparr>base := 10\<rparr>)
        else if ch = c8 CHR ''u'' then add_unsigned (p\<lparr>base := 10\<rparr>)
        else if ch = c8 CHR ''X'' then add_unsigned ((set_flag FLAG_UPPER p)\<lparr>base := 16\<rparr>)
        else if ch = c8 CHR ''x'' then add_unsigned (p\<lparr>base := 16\<rparr>)
        else if ch = c8 CHR ''o'' then add_unsigned (p\<lparr>base := 8\<rparr>)
        else if ch = c8 CHR ''P'' \<or> ch = c8 CHR ''p'' then
          let p = (if ch = c8 CHR ''P'' then set_flag FLAG_UPPER p else p)
          in add_unsigned ((set_flag FLAG_HASH p)\<lparr>base := 16, precision := 16, datalen := DATALEN_PTRDIFF_T\<rparr>)
        else if ch = c8 CHR ''n'' then do {
          p \<leftarrow> va_intptr p;
          Some (p\<lparr>counts := counts p @ [sint (of_nat (bufptr p) :: u32)]\<rparr>)
        }
        else Some (addchar ch p));
     Some (p\<lparr>pstate := STATE_CHARS\<rparr>)
   }"

definition parse_step :: "u8 \<Rightarrow> u8 list \<Rightarrow> parse \<Rightarrow> (u8 list \<times> parse) option" where
  "parse_step ch rest p =
     (case pstate p of
        STATE_CHARS \<Rightarrow> Some (step_chars ch rest p)
      | STATE_FLAGS \<Rightarrow> Some (step_flags ch rest p)
      | STATE_WIDTH \<Rightarrow> step_width ch rest p
      | STATE_PRECISION \<Rightarrow> step_precision ch rest p
      | STATE_DATALEN \<Rightarrow> Some (step_datalen ch rest p)
      | STATE_DATATYPE \<Rightarrow> do { p \<leftarrow> step_datatype ch p; Some (rest, p) })"

text \<open>Every turn shortens the format or moves the parser on to a later state.\<close>

primrec pstate_rank :: "pstate \<Rightarrow> nat" where
  "pstate_rank STATE_CHARS = 0"
| "pstate_rank STATE_DATATYPE = 1"
| "pstate_rank STATE_DATALEN = 2"
| "pstate_rank STATE_PRECISION = 3"
| "pstate_rank STATE_WIDTH = 4"
| "pstate_rank STATE_FLAGS = 5"

lemma pstate_rank_le: "pstate_rank st \<le> 5"
  by (cases st) simp_all

lemma parse_step_less:
  assumes "parse_step ch rest p = Some (fmt', p')"
  shows "6 * length fmt' + pstate_rank (pstate p') < 6 * length (ch # rest) + pstate_rank (pstate p)"
proof (cases "length fmt' \<le> length rest")
  case True
  then show ?thesis using pstate_rank_le [of "pstate p'"] by simp
next
  case False
  have sf: "pstate (set_flag f q) = pstate q" for f q by (simp add: set_flag_def)
  from assms False show ?thesis
    by (cases "pstate p")
      (auto simp: parse_step_def step_chars_def step_flags_def step_width_def step_precision_def
        step_datalen_def bind_eq_Some_conv Let_def split: if_splits)
qed

function parse_loop :: "u8 list \<Rightarrow> parse \<Rightarrow> parse option" where
  "parse_loop [] p = Some p"
| "parse_loop (ch # rest) p =
     (case parse_step ch rest p of None \<Rightarrow> None | Some (fmt', p') \<Rightarrow> parse_loop fmt' p')"
  by pat_completeness auto
termination
  by (relation "measure (\<lambda>(fmt, p). 6 * length fmt + pstate_rank (pstate p))")
    (auto dest: parse_step_less)

definition start_parse :: "nat \<Rightarrow> (nat \<Rightarrow> u8) \<Rightarrow> arg list \<Rightarrow> parse" where
  "start_parse n m as = \<lparr>bufptr = 0, bufterm = n, mem = m, pstate = STATE_CHARS, flags = 0, width = 0,
     precision = -1, datalen = DATALEN_INT, base = 10, args = as, counts = []\<rparr>"

text \<open>The value returned, the memory afterwards, and what the \<open>n\<close> conversions stored.\<close>

definition vsnprintf :: "(nat \<Rightarrow> u8) \<Rightarrow> nat \<Rightarrow> u8 list \<Rightarrow> arg list
    \<Rightarrow> (int \<times> (nat \<Rightarrow> u8) \<times> int list) option" where
  "vsnprintf m n fmt as = do {
     p \<leftarrow> parse_loop fmt (start_parse n m as);
     let p = (if bufptr p < bufterm p then p\<lparr>mem := (mem p)(bufptr p := 0)\<rparr>
              else if n > 0 then p\<lparr>mem := (mem p)(bufptr p - 1 := 0)\<rparr>
              else p);
     Some (sint (of_nat (bufptr p) :: u32), mem p, counts p)
   }"

definition snprintf :: "(nat \<Rightarrow> u8) \<Rightarrow> nat \<Rightarrow> u8 list \<Rightarrow> arg list
    \<Rightarrow> (int \<times> (nat \<Rightarrow> u8) \<times> int list) option" where
  "snprintf m n fmt as = vsnprintf m n fmt as"

section \<open>What is written where\<close>

text \<open>Writing \<open>cs\<close> from offset \<open>b\<close> on, up to the end \<open>n\<close> of the buffer.\<close>

definition poke_mem :: "u8 list \<Rightarrow> nat \<Rightarrow> nat \<Rightarrow> (nat \<Rightarrow> u8) \<Rightarrow> nat \<Rightarrow> u8" where
  "poke_mem cs b n m = (\<lambda>i. if b \<le> i \<and> i < b + length cs \<and> i < n then cs ! (i - b) else m i)"

definition poke :: "u8 list \<Rightarrow> parse \<Rightarrow> parse" where
  "poke cs p = p\<lparr>bufptr := bufptr p + length cs, mem := poke_mem cs (bufptr p) (bufterm p) (mem p)\<rparr>"

definition rebuf :: "nat \<Rightarrow> (nat \<Rightarrow> u8) \<Rightarrow> parse \<Rightarrow> parse" where
  "rebuf n m p = p\<lparr>bufterm := n, mem := m\<rparr>"

lemma poke_mem_Nil [simp]: "poke_mem [] b n m = m"
  by (rule ext) (auto simp: poke_mem_def)

lemma poke_mem_append:
  "poke_mem ds (b + length cs) n (poke_mem cs b n m) = poke_mem (cs @ ds) b n m"
proof
  fix i
  have "i - b - length cs = i - (b + length cs)" by simp
  then show "poke_mem ds (b + length cs) n (poke_mem cs b n m) i = poke_mem (cs @ ds) b n m i"
    by (auto simp: poke_mem_def nth_append)
qed

lemma poke_Nil [simp]: "poke [] p = p"
  by (simp add: poke_def)

lemma poke_poke [simp]: "poke ds (poke cs p) = poke (cs @ ds) p"
  by (simp add: poke_def poke_mem_append [symmetric] add.assoc)

lemma poke_fields [simp]:
  "width (poke cs p) = width p" "precision (poke cs p) = precision p" "flags (poke cs p) = flags p"
  "base (poke cs p) = base p" "args (poke cs p) = args p" "pstate (poke cs p) = pstate p"
  "datalen (poke cs p) = datalen p" "bufptr (poke cs p) = bufptr p + length cs"
  "bufterm (poke cs p) = bufterm p" "counts (poke cs p) = counts p"
  by (simp_all add: poke_def)

lemma poke_upd [simp]:
  "poke cs (p\<lparr>width := w\<rparr>) = (poke cs p)\<lparr>width := w\<rparr>"
  "poke cs (p\<lparr>precision := r\<rparr>) = (poke cs p)\<lparr>precision := r\<rparr>"
  by (simp_all add: poke_def)

lemma rebuf_fields [simp]:
  "width (rebuf n m p) = width p" "precision (rebuf n m p) = precision p" "flags (rebuf n m p) = flags p"
  "base (rebuf n m p) = base p" "args (rebuf n m p) = args p" "pstate (rebuf n m p) = pstate p"
  "datalen (rebuf n m p) = datalen p" "bufptr (rebuf n m p) = bufptr p"
  "bufterm (rebuf n m p) = n" "counts (rebuf n m p) = counts p" "mem (rebuf n m p) = m"
  by (simp_all add: rebuf_def)

lemma rebuf_upd [simp]:
  "(rebuf n m p)\<lparr>width := w\<rparr> = rebuf n m (p\<lparr>width := w\<rparr>)"
  "(rebuf n m p)\<lparr>precision := r\<rparr> = rebuf n m (p\<lparr>precision := r\<rparr>)"
  "(rebuf n m p)\<lparr>flags := f\<rparr> = rebuf n m (p\<lparr>flags := f\<rparr>)"
  "(rebuf n m p)\<lparr>base := b\<rparr> = rebuf n m (p\<lparr>base := b\<rparr>)"
  "(rebuf n m p)\<lparr>args := a\<rparr> = rebuf n m (p\<lparr>args := a\<rparr>)"
  "(rebuf n m p)\<lparr>pstate := st\<rparr> = rebuf n m (p\<lparr>pstate := st\<rparr>)"
  "(rebuf n m p)\<lparr>datalen := d\<rparr> = rebuf n m (p\<lparr>datalen := d\<rparr>)"
  "(rebuf n m p)\<lparr>counts := c\<rparr> = rebuf n m (p\<lparr>counts := c\<rparr>)"
  by (simp_all add: rebuf_def)

lemma poke_rebuf: "poke cs (rebuf n m p) = rebuf n (poke_mem cs (bufptr p) n m) (poke cs p)"
  by (simp add: poke_def rebuf_def)

lemma has_flag_poke [simp]: "has_flag f (poke cs p) = has_flag f p"
  "has_flag f (rebuf n m p) = has_flag f p" "has_flag f (p\<lparr>width := w\<rparr>) = has_flag f p"
  "has_flag f (p\<lparr>precision := r\<rparr>) = has_flag f p"
  by (simp_all add: has_flag_def)

lemma addchar_poke: "addchar c p = poke [c] p"
proof -
  have "poke_mem [c] (bufptr p) (bufterm p) (mem p)
      = (if bufptr p < bufterm p then (mem p)(bufptr p := c) else mem p)"
    by (rule ext) (auto simp: poke_mem_def)
  then show ?thesis by (simp add: addchar_def poke_def Let_def)
qed

lemma fold_addchar: "fold addchar cs p = poke cs p"
  by (induction cs arbitrary: p) (simp_all add: addchar_poke)

lemma pad_while_poke:
  "pad_while c n p = (poke (replicate (nat (width p - n)) c) p)\<lparr>width := min (width p) n\<rparr>"
proof (induction "nat (width p - n)" arbitrary: p)
  case 0
  then show ?case by (simp add: pad_while.simps [of c n p])
next
  case (Suc k)
  let ?q = "(addchar c p)\<lparr>width := width p - 1\<rparr>"
  have w: "width p > n" "k = nat (width p - 1 - n)" using Suc(2) by auto
  have "k = nat (width ?q - n)" using w by simp
  from Suc(1) [OF this]
  have "pad_while c n ?q = (poke (replicate k c) ?q)\<lparr>width := min (width ?q) n\<rparr>"
    using w by simp
  moreover have "pad_while c n p = pad_while c n ?q"
    using w by (simp add: pad_while.simps [of c n p] Let_def addchar_poke)
  moreover have "replicate (nat (width p - n)) c = c # replicate k c"
    using Suc(2) by (metis replicate_Suc)
  ultimately show ?case using w by (simp add: addchar_poke min_def)
qed

text \<open>The last \<open>n\<close> digits of a value, most significant first.\<close>

fun low_digits :: "nat \<Rightarrow> u8 list \<Rightarrow> u64 \<Rightarrow> u64 \<Rightarrow> u8 list" where
  "low_digits 0 ds b v = []"
| "low_digits (Suc n) ds b v = low_digits n ds b (v div b) @ [ds ! unat (v mod b)]"

lemma low_digits_length [simp]: "length (low_digits n ds b v) = n"
  by (induction n arbitrary: v) simp_all

lemma put_digits_mem:
  "put_digits n (ptr + n) ds v p = p\<lparr>mem := poke_mem (low_digits n ds (base p) v) ptr (bufterm p) (mem p)\<rparr>"
proof (induction n arbitrary: v p)
  case (Suc n)
  let ?c = "ds ! unat (v mod base p)"
  let ?q = "if ptr + n < bufterm p then p\<lparr>mem := (mem p)(ptr + n := ?c)\<rparr> else p"
  have "poke_mem (low_digits n ds (base p) (v div base p)) ptr (bufterm p) (mem ?q)
      = poke_mem (low_digits (Suc n) ds (base p) v) ptr (bufterm p) (mem p)"
    by (auto simp: poke_mem_def nth_append fun_eq_iff)
  then show ?case using Suc [of "v div base p" ?q]
    by (cases "ptr + n < bufterm p") (simp_all add: Let_def fun_upd_def)
qed simp

lemma put_digits_poke:
  "put_digits n (bufptr p + n) ds v (p\<lparr>bufptr := bufptr p + n\<rparr>) = poke (low_digits n ds (base p) v) p"
  by (simp add: put_digits_mem poke_def)

section \<open>What the conversions write\<close>

text \<open>The characters of a string conversion, and of an integer conversion.\<close>

definition string_chars :: "u8 list option \<Rightarrow> parse \<Rightarrow> u8 list" where
  "string_chars s p =
     (let cs = (case s of None \<Rightarrow> asc ''(null)'' | Some cs \<Rightarrow> cs);
          slen = (if precision p > -1 \<and> precision p < int (length cs) then nat (precision p) else length cs);
          pad = nat (width p - int slen)
      in if has_flag FLAG_MINUS p then take slen cs @ replicate pad 0x20
         else replicate pad (if has_flag FLAG_ZERO p then 0x30 else 0x20) @ take slen cs)"

definition string_length :: "u8 list option \<Rightarrow> parse \<Rightarrow> int" where
  "string_length s p =
     (let n = int (length (case s of None \<Rightarrow> asc ''(null)'' | Some cs \<Rightarrow> cs))
      in if precision p > -1 \<and> precision p < n then precision p else n)"

lemma addstring_poke:
  "addstring s p = (poke (string_chars s p) p)\<lparr>width := min (width p) (string_length s p)\<rparr>"
proof -
  define cs where "cs = (case s of None \<Rightarrow> asc ''(null)'' | Some cs \<Rightarrow> cs)"
  define slen where "slen = (if precision p > -1 \<and> precision p < int (length cs)
      then nat (precision p) else length cs)"
  have sl: "(if precision p > -1 \<and> precision p < int (length cs) then precision p
      else int (length cs)) = int slen" by (simp add: slen_def)
  have le: "slen \<le> length cs" by (auto simp: slen_def)
  have ch: "string_chars s p = (let pad = nat (width p - int slen)
      in if has_flag FLAG_MINUS p then take slen cs @ replicate pad 0x20
         else replicate pad (if has_flag FLAG_ZERO p then 0x30 else 0x20) @ take slen cs)"
    by (simp add: string_chars_def cs_def [symmetric] slen_def [symmetric] Let_def)
  have sl': "string_length s p = int slen"
    by (simp add: string_length_def Let_def cs_def [symmetric] slen_def)
  consider "width p > int slen" "has_flag FLAG_MINUS p" | "width p > int slen" "\<not> has_flag FLAG_MINUS p"
    | "\<not> width p > int slen" by blast
  then show ?thesis
    unfolding addstring_def Let_def cs_def [symmetric] sl sl'
    by cases (cases "has_flag FLAG_ZERO p"; auto simp: ch fold_addchar pad_while_poke)+
qed

definition int_minus :: "u64 \<Rightarrow> parse \<Rightarrow> bool" where
  "int_minus v p \<longleftrightarrow> has_flag FLAG_SIGNED p \<and> sint v < 0"

definition int_abs :: "u64 \<Rightarrow> parse \<Rightarrow> u64" where
  "int_abs v p = (if int_minus v p then - v else v)"

definition int_prec :: "u64 \<Rightarrow> parse \<Rightarrow> int" where
  "int_prec v p =
     (let nd = int (count_digits (base p) (int_abs v p)) in
      if has_flag FLAG_HASH p \<and> base p = 8 \<and> precision p < nd + 1 then nd + 1 else precision p)"

definition int_ndigits :: "u64 \<Rightarrow> parse \<Rightarrow> int" where
  "int_ndigits v p =
     (let nd = int (count_digits (base p) (int_abs v p)) in
      if nd < int_prec v p then int_prec v p else if int_abs v p = 0 then 1 else nd)"

definition int_prefix :: "u64 \<Rightarrow> parse \<Rightarrow> u8 list" where
  "int_prefix v p =
     (if int_minus v p then [0x2d] else if has_flag FLAG_PLUS p then [0x2b]
      else if has_flag FLAG_SPACE p then [0x20] else [])
     @ (if has_flag FLAG_HASH p \<and> base p = 16
        then [0x30, if has_flag FLAG_UPPER p then 0x58 else 0x78] else [])"

definition int_nchars :: "u64 \<Rightarrow> parse \<Rightarrow> int" where
  "int_nchars v p =
     int_ndigits v p + (if int_minus v p \<or> has_flag (FLAG_PLUS OR FLAG_SPACE) p then 1 else 0)
     + (if has_flag FLAG_HASH p \<and> base p = 16 then 2 else 0)"

definition int_chars :: "u64 \<Rightarrow> parse \<Rightarrow> u8 list" where
  "int_chars v p =
     (let pad = nat (width p - int_nchars v p);
          zero = flags p AND (FLAG_MINUS OR FLAG_ZERO) = FLAG_ZERO;
          minus = has_flag FLAG_MINUS p;
          digits = low_digits (nat (int_ndigits v p))
                     (if has_flag FLAG_UPPER p then digits_upper else digits_lower) (base p) (int_abs v p)
      in (if \<not> has_flag (FLAG_MINUS OR FLAG_ZERO) p then replicate pad 0x20 else [])
         @ int_prefix v p
         @ (if zero \<and> width p > int_ndigits v p then replicate pad 0x30 else [])
         @ digits
         @ (if minus then replicate pad 0x20 else []))"

lemma flag_or: "has_flag (f OR g) p \<longleftrightarrow> has_flag f p \<or> has_flag g p"
  by (simp add: has_flag_def bit.conj_disj_distrib or_eq_0_iff)

lemma only_zero_flag:
  "flags p AND (FLAG_MINUS OR FLAG_ZERO) = FLAG_ZERO \<longleftrightarrow> has_flag FLAG_ZERO p \<and> \<not> has_flag FLAG_MINUS p"
proof -
  have a: "x AND 2 ^ n = (if bit x n then 2 ^ n else 0)" for x :: u32 and n
    by (rule bit_eqI) (auto simp: bit_and_iff bit_exp_iff possible_bit_def)
  have v: "x AND FLAG_MINUS = (if x AND FLAG_MINUS \<noteq> 0 then FLAG_MINUS else 0)"
    "x AND FLAG_ZERO = (if x AND FLAG_ZERO \<noteq> 0 then FLAG_ZERO else 0)" for x
    using a [of x 1] a [of x 0] by (simp_all add: flag_defs)
  have "flags p AND (FLAG_MINUS OR FLAG_ZERO) = (flags p AND FLAG_MINUS) OR (flags p AND FLAG_ZERO)"
    by (rule bit.conj_disj_distrib)
  also have "\<dots> = (if has_flag FLAG_MINUS p then FLAG_MINUS else 0)
      OR (if has_flag FLAG_ZERO p then FLAG_ZERO else 0)"
    unfolding has_flag_def by (rule arg_cong2 [where f = "(OR)", OF v(1) v(2)])
  finally show ?thesis by (simp add: flag_defs)
qed

lemma addint_poke:
  "addint v p = (poke (int_chars v p) p)\<lparr>width := min (width p) (int_nchars v p), precision := int_prec v p\<rparr>"
proof -
  define minus where "minus = has_flag FLAG_MINUS p"
  define zero where "zero = has_flag FLAG_ZERO p"
  let ?nd = "int_ndigits v p" and ?nc = "int_nchars v p"
  let ?ds = "if has_flag FLAG_UPPER p then digits_upper else digits_lower"
  have ndnc: "?nd \<le> ?nc" by (simp add: int_nchars_def)
  define p1 where "p1 = p\<lparr>precision := int_prec v p\<rparr>"
  have p1: "(if has_flag FLAG_HASH p \<and> base p = 8 \<and> precision p < int (count_digits (base p) (int_abs v p)) + 1
      then p\<lparr>precision := int (count_digits (base p) (int_abs v p)) + 1\<rparr> else p) = p1"
    by (cases "has_flag FLAG_HASH p \<and> base p = 8 \<and>
        precision p < int (count_digits (base p) (int_abs v p)) + 1")
      (auto simp: p1_def int_prec_def Let_def)
  define p2 where "p2 = (if \<not> has_flag (FLAG_MINUS OR FLAG_ZERO) p1 \<and> width p1 > ?nc
      then pad_while (c8 CHR '' '') ?nc p1 else p1)"
  have "\<exists>w. p2 = (poke (if \<not> has_flag (FLAG_MINUS OR FLAG_ZERO) p
      then replicate (nat (width p - ?nc)) 0x20 else []) p)\<lparr>precision := int_prec v p, width := w\<rparr>
      \<and> w = (if minus \<or> zero then width p else min (width p) ?nc)"
  proof (cases "\<not> has_flag (FLAG_MINUS OR FLAG_ZERO) p \<and> width p > ?nc")
    case True
    then show ?thesis
      by (intro exI [of _ ?nc]) (simp add: p2_def p1_def pad_while_poke flag_or minus_def zero_def)
  next
    case False
    then show ?thesis
      by (intro exI [of _ "width p"]) (auto simp: p2_def p1_def flag_or minus_def zero_def)
  qed
  then obtain w2 where p2: "p2 = (poke (if \<not> has_flag (FLAG_MINUS OR FLAG_ZERO) p
      then replicate (nat (width p - ?nc)) 0x20 else []) p)\<lparr>precision := int_prec v p, width := w2\<rparr>"
    and w2: "w2 = (if minus \<or> zero then width p else min (width p) ?nc)" by blast
  define p3 where "p3 = (if int_minus v p then addchar (c8 CHR ''-'') p2
      else if has_flag FLAG_PLUS p2 then addchar (c8 CHR ''+'') p2
      else if has_flag FLAG_SPACE p2 then addchar (c8 CHR '' '') p2 else p2)"
  define p4 where "p4 = (if has_flag FLAG_HASH p3 \<and> base p3 = 16
      then addchar (if has_flag FLAG_UPPER p3 then c8 CHR ''X'' else c8 CHR ''x'') (addchar (c8 CHR ''0'') p3) else p3)"
  have p4: "p4 = poke (int_prefix v p) p2"
    by (simp add: p4_def p3_def addchar_poke int_prefix_def p2)
  define p5 where "p5 = (if flags p4 AND (FLAG_MINUS OR FLAG_ZERO) = FLAG_ZERO \<and> width p4 > ?nd
      then pad_while (c8 CHR ''0'') ?nc p4 else p4)"
  have "flags p4 = flags p" "width p4 = w2" by (simp_all add: p4 p2)
  note f4 = this
  have "\<exists>w. p5 = (poke (if flags p AND (FLAG_MINUS OR FLAG_ZERO) = FLAG_ZERO \<and> width p > ?nd
      then replicate (nat (width p - ?nc)) 0x30 else []) p4)\<lparr>width := w\<rparr> \<and> w = (if minus then width p else min (width p) ?nc)"
  proof (cases "flags p AND (FLAG_MINUS OR FLAG_ZERO) = FLAG_ZERO")
    case True
    then have "zero" "\<not> minus" by (simp_all add: only_zero_flag zero_def minus_def)
    then have e: "width p4 = width p" "flags p4 = flags p" using w2 f4 by simp_all
    show ?thesis
    proof (cases "width p > ?nd")
      case w: True
      then have "p5 = (poke (replicate (nat (width p - ?nc)) 0x30) p4)\<lparr>width := min (width p) ?nc\<rparr>"
        unfolding p5_def e pad_while_poke using True by simp
      then show ?thesis using True w \<open>\<not> minus\<close> by auto
    next
      case w: False
      then have "p5 = p4\<lparr>width := width p\<rparr>" unfolding p5_def e using e by simp
      moreover have "min (width p) ?nc = width p" using w ndnc by simp
      ultimately show ?thesis using w \<open>\<not> minus\<close> by auto
    qed
  next
    case False
    then have "w2 = (if minus then width p else min (width p) ?nc)"
      using w2 only_zero_flag [of p] by (auto simp: minus_def zero_def)
    then show ?thesis using False f4 by (intro exI [of _ w2]) (auto simp: p5_def)
  qed
  then obtain w5 where p5: "p5 = (poke (if flags p AND (FLAG_MINUS OR FLAG_ZERO) = FLAG_ZERO \<and> width p > ?nd
      then replicate (nat (width p - ?nc)) 0x30 else []) p4)\<lparr>width := w5\<rparr>"
    and w5: "w5 = (if minus then width p else min (width p) ?nc)" by blast
  define p6 where "p6 = put_digits (nat ?nd) (bufptr p5 + nat ?nd) (if has_flag FLAG_UPPER p5 then digits_upper else digits_lower) (int_abs v p)
      (p5\<lparr>bufptr := bufptr p5 + nat ?nd\<rparr>)"
  have p6: "p6 = poke (low_digits (nat ?nd) ?ds (base p) (int_abs v p)) p5"
    unfolding p6_def put_digits_poke by (simp add: p5 p4 p2)
  have fm: "has_flag FLAG_MINUS p6 = minus" by (simp add: p6 p5 p4 p2 minus_def)
  define p7 where "p7 = (if has_flag FLAG_MINUS p6 then pad_while (c8 CHR '' '') ?nc p6 else p6)"
  have "p7 = (poke (if minus then replicate (nat (width p - ?nc)) 0x20 else []) p6)\<lparr>width := min (width p) ?nc\<rparr>"
  proof (cases minus)
    case True
    then have "width p6 = width p" using w5 by (simp add: p6 p5)
    then show ?thesis using True unfolding p7_def fm by (auto simp: pad_while_poke)
  next
    case False
    then have "width p6 = min (width p) ?nc" using w5 by (simp add: p6 p5)
    then have "p6 = p6\<lparr>width := min (width p) ?nc\<rparr>" by simp
    then show ?thesis using False unfolding p7_def fm by simp
  qed
  then have p7: "p7 = (poke (int_chars v p) p)\<lparr>precision := int_prec v p, width := min (width p) ?nc\<rparr>"
    by (auto simp: p6 p5 p4 p2 int_chars_def Let_def minus_def)
  have nd: "(if int (count_digits (base p) (int_abs v p)) < precision p1 then precision p1
      else if int_abs v p = 0 then 1 else int (count_digits (base p) (int_abs v p))) = ?nd"
    by (simp add: p1_def int_ndigits_def Let_def)
  have nc: "(if has_flag FLAG_HASH p1 \<and> base p1 = 16
      then (if int_minus v p \<or> has_flag (FLAG_PLUS OR FLAG_SPACE) p1 then ?nd + 1 else ?nd) + 2
      else (if int_minus v p \<or> has_flag (FLAG_PLUS OR FLAG_SPACE) p1 then ?nd + 1 else ?nd)) = ?nc"
    by (simp add: p1_def int_nchars_def)
  have pos: "bufptr (p5\<lparr>bufptr := bufptr p5 + nat ?nd\<rparr>) = bufptr p5 + nat ?nd"
    "has_flag f (p5\<lparr>bufptr := b\<rparr>) = has_flag f p5" for f b by (simp_all add: has_flag_def)
  have "addint v p = p7"
    by (simp only: addint_def Let_def int_minus_def [symmetric] int_abs_def [symmetric] p1 nd nc
        p2_def [symmetric] p3_def [symmetric] p4_def [symmetric] p5_def [symmetric] pos
        p6_def [symmetric] p7_def [symmetric])
  with p7 show ?thesis by simp
qed

section \<open>The output does not depend on the buffer\<close>

text \<open>A step streams at \<open>p\<close> if, whatever the buffer's end and contents, it fails or adds the
  same characters and leaves the rest of the parser state the same.\<close>

definition streams :: "(parse \<Rightarrow> ('a \<times> parse) option) \<Rightarrow> parse \<Rightarrow> bool" where
  "streams f p \<longleftrightarrow>
     (case f p of
        None \<Rightarrow> \<forall>n m. f (rebuf n m p) = None
      | Some (x, p') \<Rightarrow> \<exists>ds. bufptr p' = bufptr p + length ds \<and>
          (\<forall>n m. f (rebuf n m p) = Some (x, rebuf n (poke_mem ds (bufptr p) n m) p')))"

definition quiet :: "(parse \<Rightarrow> ('a \<times> parse) option) \<Rightarrow> parse \<Rightarrow> bool" where
  "quiet f p \<longleftrightarrow>
     (\<forall>n m. f (rebuf n m p) = map_option (\<lambda>(x, p'). (x, rebuf n m p')) (f p)) \<and>
     (\<forall>x p'. f p = Some (x, p') \<longrightarrow> bufptr p' = bufptr p)"

lemma quiet_streams:
  assumes "quiet f p"
  shows "streams f p"
proof (cases "f p")
  case None
  then show ?thesis using assms by (simp add: streams_def quiet_def)
next
  case (Some y)
  then show ?thesis
    using assms by (cases y) (auto simp: streams_def quiet_def intro!: exI [of _ "[]"])
qed

lemma streams_bind:
  assumes "streams f p" and "\<And>x p'. f p = Some (x, p') \<Longrightarrow> streams (g x) p'"
  shows "streams (\<lambda>p. do { (x, p) \<leftarrow> f p; g x p }) p"
proof (cases "f p")
  case None
  then show ?thesis using assms(1) by (simp add: streams_def)
next
  case (Some y)
  obtain x p1 where y: "y = (x, p1)" by (cases y)
  from assms(1) Some y obtain ds where ds: "bufptr p1 = bufptr p + length ds"
    "\<And>n m. f (rebuf n m p) = Some (x, rebuf n (poke_mem ds (bufptr p) n m) p1)"
    by (auto simp: streams_def)
  have g: "streams (g x) p1" using assms(2) Some y by simp
  show ?thesis
  proof (cases "g x p1")
    case None
    then show ?thesis using g ds Some y by (simp add: streams_def)
  next
    case (Some z)
    obtain x2 p2 where z: "z = (x2, p2)" by (cases z)
    from g Some z obtain es where "bufptr p2 = bufptr p1 + length es"
      "\<And>n m. g x (rebuf n m p1) = Some (x2, rebuf n (poke_mem es (bufptr p1) n m) p2)"
      by (auto simp: streams_def)
    then show ?thesis
      using ds Some z \<open>f p = Some y\<close> y
      by (auto simp: streams_def poke_mem_append intro!: exI [of _ "ds @ es"])
  qed
qed

lemma has_flag_base [simp]: "has_flag f (p\<lparr>base := b\<rparr>) = has_flag f p"
  by (simp add: has_flag_def)

lemma int_chars_rebuf [simp]:
  "int_minus v (rebuf n m p) = int_minus v p" "int_abs v (rebuf n m p) = int_abs v p"
  "int_prec v (rebuf n m p) = int_prec v p" "int_ndigits v (rebuf n m p) = int_ndigits v p"
  "int_nchars v (rebuf n m p) = int_nchars v p" "int_prefix v (rebuf n m p) = int_prefix v p"
  "int_chars v (rebuf n m p) = int_chars v p"
proof -
  show a: "int_minus v (rebuf n m p) = int_minus v p" by (simp add: int_minus_def)
  show b: "int_abs v (rebuf n m p) = int_abs v p" by (simp add: int_abs_def a)
  show c: "int_prec v (rebuf n m p) = int_prec v p" by (simp add: int_prec_def b cong: if_cong)
  show d: "int_ndigits v (rebuf n m p) = int_ndigits v p" by (simp add: int_ndigits_def b c cong: if_cong)
  show e: "int_nchars v (rebuf n m p) = int_nchars v p" by (simp add: int_nchars_def d a cong: if_cong)
  show f: "int_prefix v (rebuf n m p) = int_prefix v p" by (simp add: int_prefix_def a cong: if_cong)
  show "int_chars v (rebuf n m p) = int_chars v p" by (simp add: int_chars_def b d e f cong: if_cong)
qed

lemma string_chars_rebuf [simp]:
  "string_chars s (rebuf n m p) = string_chars s p" "string_length s (rebuf n m p) = string_length s p"
  by (simp_all add: string_chars_def string_length_def cong: if_cong)

lemma streams_addint: "streams (\<lambda>p. Some (x, addint v p)) p"
  by (auto simp: streams_def addint_poke poke_rebuf intro!: exI [of _ "int_chars v p"])

lemma streams_addstring: "streams (\<lambda>p. Some (x, addstring s p)) p"
  by (auto simp: streams_def addstring_poke poke_rebuf intro!: exI [of _ "string_chars s p"])

lemma streams_addchar: "streams (\<lambda>p. Some (x, addchar c p)) p"
  by (auto simp: streams_def addchar_poke poke_rebuf intro!: exI [of _ "[c]"])

lemma quiet_va: "quiet va_int p" "quiet va_long p" "quiet va_str p"
  by (auto simp: quiet_def split: list.splits arg.splits)

definition streams1 :: "(parse \<Rightarrow> parse option) \<Rightarrow> parse \<Rightarrow> bool" where
  "streams1 f p \<longleftrightarrow> streams (\<lambda>p. map_option (\<lambda>p'. ((), p')) (f p)) p"

lemma streams1_None: "(\<And>n m. f (rebuf n m p) = None) \<Longrightarrow> f p = None \<Longrightarrow> streams1 f p"
  by (simp add: streams1_def streams_def)

lemma streams1_Some:
  assumes "f p = Some p'" and "bufptr p' = bufptr p + length ds"
    and "\<And>n m. f (rebuf n m p) = Some (rebuf n (poke_mem ds (bufptr p) n m) p')"
  shows "streams1 f p"
  unfolding streams1_def streams_def using assms by auto

lemma streams1_elim:
  assumes "streams1 f p"
  obtains "f p = None" "\<And>n m. f (rebuf n m p) = None"
  | p' ds where "f p = Some p'" "bufptr p' = bufptr p + length ds"
    "\<And>n m. f (rebuf n m p) = Some (rebuf n (poke_mem ds (bufptr p) n m) p')"
  using assms unfolding streams1_def streams_def
  by (cases "f p") (force split: option.splits)+

lemma streams1_upd:
  assumes "streams1 f (h p)" and "\<And>n m. h (rebuf n m p) = rebuf n m (h p)" and "bufptr (h p) = bufptr p"
  shows "streams1 (\<lambda>p. f (h p)) p"
  using assms(1) by (rule streams1_elim) (auto intro: streams1_None streams1_Some simp: assms(2,3))

lemma addint_rebuf:
  "addint v (rebuf n m p) = rebuf n (poke_mem (int_chars v p) (bufptr p) n m) (addint v p)"
  "bufptr (addint v p) = bufptr p + length (int_chars v p)"
  by (simp_all add: addint_poke poke_rebuf)

lemma addstring_rebuf:
  "addstring s (rebuf n m p) = rebuf n (poke_mem (string_chars s p) (bufptr p) n m) (addstring s p)"
  "bufptr (addstring s p) = bufptr p + length (string_chars s p)"
  by (simp_all add: addstring_poke poke_rebuf)

lemma addchar_rebuf:
  "addchar c (rebuf n m p) = rebuf n (poke_mem [c] (bufptr p) n m) (addchar c p)"
  "bufptr (addchar c p) = bufptr p + length [c]"
  by (simp_all add: addchar_poke poke_rebuf)

lemma streams1_va_int:
  assumes "\<And>v as. streams1 (\<lambda>p. Some (g v p)) (p\<lparr>args := as\<rparr>)"
  shows "streams1 (\<lambda>p. do { (v, p) \<leftarrow> va_int p; Some (g v p) }) p"
proof (cases "\<exists>v as. args p = ArgInt v # as")
  case True
  then obtain v as where a: "args p = ArgInt v # as" by blast
  from assms [of v as] show ?thesis
    by (rule streams1_elim) (auto simp: a intro!: streams1_Some)
next
  case False
  then show ?thesis by (intro streams1_None) (auto split: list.splits arg.splits)
qed

lemma streams1_va_long:
  assumes "\<And>v as. streams1 (\<lambda>p. Some (g v p)) (p\<lparr>args := as\<rparr>)"
  shows "streams1 (\<lambda>p. do { (v, p) \<leftarrow> va_long p; Some (g v p) }) p"
proof (cases "\<exists>v as. args p = ArgLong v # as")
  case True
  then obtain v as where a: "args p = ArgLong v # as" by blast
  from assms [of v as] show ?thesis
    by (rule streams1_elim) (auto simp: a intro!: streams1_Some)
next
  case False
  then show ?thesis by (intro streams1_None) (auto split: list.splits arg.splits)
qed

lemma streams1_va_str:
  assumes "\<And>v as. streams1 (\<lambda>p. Some (g v p)) (p\<lparr>args := as\<rparr>)"
  shows "streams1 (\<lambda>p. do { (v, p) \<leftarrow> va_str p; Some (g v p) }) p"
proof (cases "\<exists>v as. args p = ArgStr v # as")
  case True
  then obtain v as where a: "args p = ArgStr v # as" by blast
  from assms [of v as] show ?thesis
    by (rule streams1_elim) (auto simp: a intro!: streams1_Some)
next
  case False
  then show ?thesis by (intro streams1_None) (auto split: list.splits arg.splits)
qed

lemma streams1_adds:
  "streams1 (\<lambda>p. Some (addint v p)) p" "streams1 (\<lambda>p. Some (addstring s p)) p"
  "streams1 (\<lambda>p. Some (addchar c p)) p"
  by (rule streams1_Some; simp add: addint_rebuf addstring_rebuf addchar_rebuf)+

lemma streams1_cong:
  assumes "streams1 g p" and "f p = g p" and "\<And>n m. f (rebuf n m p) = g (rebuf n m p)"
  shows "streams1 f p"
  using assms(1) by (rule streams1_elim) (auto intro: streams1_None streams1_Some simp: assms(2,3))

lemma streams1_signed: "streams1 add_signed p"
  by (cases "datalen p";
      rule streams1_cong [OF streams1_va_int [OF streams1_adds(1)]]
           streams1_cong [OF streams1_va_long [OF streams1_adds(1)]];
      simp add: add_signed_def del: va_int.simps va_long.simps)

lemma streams1_unsigned: "streams1 add_unsigned p"
  by (cases "datalen p";
      rule streams1_cong [OF streams1_va_int [OF streams1_adds(1)]]
           streams1_cong [OF streams1_va_long [OF streams1_adds(1)]];
      simp add: add_unsigned_def del: va_int.simps va_long.simps)

lemma streams1_if:
  "(c \<Longrightarrow> streams1 f p) \<Longrightarrow> (\<not> c \<Longrightarrow> streams1 g p) \<Longrightarrow> streams1 (\<lambda>p. if c then f p else g p) p"
  by (cases c) simp_all

lemma streams1_post:
  assumes "streams1 f p"
  shows "streams1 (\<lambda>p. do { p \<leftarrow> f p; Some (p\<lparr>pstate := st\<rparr>) }) p"
  using assms
proof (rule streams1_elim)
  assume "f p = None" "\<And>n m. f (rebuf n m p) = None"
  then show ?thesis by (intro streams1_None) simp_all
next
  fix p' ds assume "f p = Some p'" "bufptr p' = bufptr p + length ds"
    "\<And>n m. f (rebuf n m p) = Some (rebuf n (poke_mem ds (bufptr p) n m) p')"
  then show ?thesis by (intro streams1_Some [of _ _ _ ds]) simp_all
qed

lemma set_flag_rebuf [simp]: "set_flag f (rebuf n m p) = rebuf n m (set_flag f p)"
  "bufptr (set_flag f p) = bufptr p" "pstate (set_flag f p) = pstate p"
  by (simp_all add: set_flag_def)

lemma streams1_count:
  "streams1 (\<lambda>p. do { p \<leftarrow> va_intptr p; Some (p\<lparr>counts := counts p @ [sint (of_nat (bufptr p) :: u32)]\<rparr>) }) p"
proof (cases "\<exists>as. args p = ArgIntPtr # as")
  case True
  then obtain as where "args p = ArgIntPtr # as" by blast
  then show ?thesis by (auto intro!: streams1_Some [of _ _ _ "[]"])
next
  case False
  then show ?thesis by (intro streams1_None) (auto split: list.splits arg.splits)
qed

lemma streams1_char_arg:
  "streams1 (\<lambda>p. do { (v, p) \<leftarrow> va_int p; Some (addstring (h v) p) }) p"
  by (rule streams1_va_int [OF streams1_adds(2)])

lemma streams1_str_arg:
  "streams1 (\<lambda>p. do { (s, p) \<leftarrow> va_str p; Some (addstring s p) }) p"
  by (rule streams1_va_str [OF streams1_adds(2)])

lemma streams1_datatype: "streams1 (step_datatype ch) p"
proof -
  have pp: "streams1 (\<lambda>p. let p = (if c then set_flag FLAG_UPPER p else p)
       in add_unsigned ((set_flag FLAG_HASH p)\<lparr>base := 16, precision := 16, datalen := DATALEN_PTRDIFF_T\<rparr>)) p" for c
    unfolding Let_def
    by (rule streams1_upd [OF streams1_unsigned, where h = "\<lambda>p. (set_flag FLAG_HASH
          (if c then set_flag FLAG_UPPER p else p))\<lparr>base := 16, precision := 16, datalen := DATALEN_PTRDIFF_T\<rparr>"])
      (simp_all split: if_splits)
  have s: "streams1 (\<lambda>p. add_signed ((set_flag FLAG_SIGNED p)\<lparr>base := 10\<rparr>)) p"
    by (rule streams1_upd [OF streams1_signed, where h = "\<lambda>p. (set_flag FLAG_SIGNED p)\<lparr>base := 10\<rparr>"]) simp_all
  have x: "streams1 (\<lambda>p. add_unsigned ((set_flag FLAG_UPPER p)\<lparr>base := 16\<rparr>)) p"
    by (rule streams1_upd [OF streams1_unsigned, where h = "\<lambda>p. (set_flag FLAG_UPPER p)\<lparr>base := 16\<rparr>"]) simp_all
  have u: "streams1 (\<lambda>p. add_unsigned (p\<lparr>base := b\<rparr>)) p" for b
    by (rule streams1_upd [OF streams1_unsigned, where h = "\<lambda>p. p\<lparr>base := b\<rparr>"]) simp_all
  show ?thesis
    unfolding step_datatype_def
    by (intro streams1_post streams1_if streams1_str_arg streams1_char_arg s x u pp streams1_count
        streams1_adds)
qed

lemma streams_step: "streams (parse_step ch rest) p"
proof -
  have q: "streams (parse_step ch rest) p" if "quiet (parse_step ch rest) p" using that by (rule quiet_streams)
  show ?thesis
  proof (cases "pstate p")
    case STATE_CHARS
    show ?thesis
    proof (cases "ch = c8 CHR ''%''")
      case True
      then show ?thesis using STATE_CHARS
        by (intro q) (simp add: quiet_def parse_step_def step_chars_def)
    next
      case False
      then show ?thesis using STATE_CHARS
        by (auto simp: streams_def parse_step_def step_chars_def addchar_rebuf intro!: exI [of _ "[ch]"])
    qed
  next
    case STATE_FLAGS
    then show ?thesis by (intro q) (auto simp: quiet_def parse_step_def step_flags_def)
  next
    case STATE_WIDTH
    then show ?thesis
      by (intro q) (auto simp: quiet_def parse_step_def step_width_def Let_def
          split: list.splits arg.splits option.splits)
  next
    case STATE_PRECISION
    then show ?thesis
      by (intro q) (auto simp: quiet_def parse_step_def step_precision_def Let_def
          split: list.splits arg.splits option.splits)
  next
    case STATE_DATALEN
    then show ?thesis by (intro q) (auto simp: quiet_def parse_step_def step_datalen_def)
  next
    case STATE_DATATYPE
    from streams1_datatype [of ch p] show ?thesis
      by (rule streams1_elim) (auto simp: streams_def parse_step_def STATE_DATATYPE)
  qed
qed

lemma streams_loop: "streams (\<lambda>p. map_option (\<lambda>p'. ((), p')) (parse_loop fmt p)) p"
proof (induction fmt p rule: parse_loop.induct)
  case (1 p)
  then show ?case by (auto simp: streams_def intro!: exI [of _ "[]"])
next
  case (2 ch rest p)
  let ?k = "\<lambda>fmt p. map_option (\<lambda>p'. ((), p')) (parse_loop fmt p)"
  have "streams (\<lambda>p. do { (fmt', p) \<leftarrow> parse_step ch rest p; ?k fmt' p }) p"
  proof (rule streams_bind [OF streams_step])
    fix fmt' p' assume "parse_step ch rest p = Some (fmt', p')"
    from 2 [OF this refl] show "streams (?k fmt') p'" .
  qed
  moreover have "?k (ch # rest) = (\<lambda>p. do { (fmt', p) \<leftarrow> parse_step ch rest p; ?k fmt' p })"
  proof
    fix q show "?k (ch # rest) q = do { (fmt', p) \<leftarrow> parse_step ch rest q; ?k fmt' p }"
      by (cases "parse_step ch rest q") auto
  qed
  ultimately show ?case by (simp only:)
qed

lemma start_parse_rebuf: "start_parse n m as = rebuf n m (start_parse 0 (\<lambda>_. 0) as)"
  by (simp add: start_parse_def rebuf_def)

text \<open>The buffer after writing \<open>cs\<close> and the terminator.\<close>

definition written :: "u8 list \<Rightarrow> nat \<Rightarrow> (nat \<Rightarrow> u8) \<Rightarrow> nat \<Rightarrow> u8" where
  "written cs n m =
     (if n = 0 then m
      else (poke_mem cs 0 n m)((if length cs < n then length cs else length cs - 1) := 0))"

lemma poke_mem_0 [simp]: "poke_mem cs b 0 m = m"
  by (rule ext) (simp add: poke_mem_def)

lemma parse_loop_start:
  "(\<forall>n m. parse_loop fmt (start_parse n m as) = None) \<or>
   (\<exists>p' cs. bufptr p' = length cs \<and>
      (\<forall>n m. parse_loop fmt (start_parse n m as) = Some (rebuf n (poke_mem cs 0 n m) p')))"
proof -
  define q where "q = start_parse 0 (\<lambda>_. 0) as"
  have s: "start_parse n m as = rebuf n m q" for n m
    unfolding q_def by (rule start_parse_rebuf)
  have z: "bufptr q = 0" by (simp add: q_def start_parse_def)
  note l = streams_loop [of fmt q]
  show ?thesis
  proof (cases "parse_loop fmt q")
    case None
    then show ?thesis using l by (auto simp: streams_def z s)
  next
    case (Some p')
    with l obtain cs where "bufptr p' = length cs"
      "\<forall>n m. parse_loop fmt (rebuf n m q) = Some (rebuf n (poke_mem cs 0 n m) p')"
      by (auto simp: streams_def z)
    then show ?thesis unfolding s by blast
  qed
qed

text \<open>The text a format and its arguments stand for, and the counts stored: print once to
  find the length, once more into a buffer of that length.\<close>

definition fmt_text :: "u8 list \<Rightarrow> arg list \<Rightarrow> (u8 list \<times> int list) option" where
  "fmt_text fmt as = do {
     p \<leftarrow> parse_loop fmt (start_parse 0 (\<lambda>_. 0) as);
     q \<leftarrow> parse_loop fmt (start_parse (bufptr p) (\<lambda>_. 0) as);
     Some (map (mem q) [0..<bufptr q], counts q)
   }"

lemma vsnprintf_fmt_text:
  "vsnprintf m n fmt as =
     (case fmt_text fmt as of None \<Rightarrow> None
      | Some (cs, stored) \<Rightarrow> Some (sint (of_nat (length cs) :: u32), written cs n m, stored))"
  using parse_loop_start [of fmt as]
proof (elim disjE exE conjE)
  assume "\<forall>n m. parse_loop fmt (start_parse n m as) = None"
  then show ?thesis by (simp add: vsnprintf_def fmt_text_def)
next
  fix p' cs assume b: "bufptr p' = length cs"
    and l: "\<forall>n m. parse_loop fmt (start_parse n m as) = Some (rebuf n (poke_mem cs 0 n m) p')"
  have "map (poke_mem cs 0 (length cs) (\<lambda>_. 0)) [0..<length cs] = cs"
    by (rule nth_equalityI) (simp_all add: poke_mem_def)
  then have "fmt_text fmt as = Some (cs, counts p')" using b l by (simp add: fmt_text_def)
  then show ?thesis
    using b l by (auto simp: vsnprintf_def written_def Let_def rebuf_def)
qed

text \<open>C15: what \<open>vsnprintf\<close> prints does not depend on the buffer it is given.  Either every
  call reads an argument that is not there (or has another type), or a call with any buffer
  returns the length of the one text \<open>fmt_text\<close> (as an \<open>int\<close>), whether it fits or not, and
  changes memory as \<open>written\<close> says: the part of the text that fits is stored from the start
  of the buffer, then the terminator; with a length of 0 nothing is written.\<close>

theorem vsnprintf_text:
  "vsnprintf m n fmt as =
     (case fmt_text fmt as of None \<Rightarrow> None
      | Some (cs, stored) \<Rightarrow> Some (sint (of_nat (length cs) :: u32), written cs n m, stored))"
  by (rule vsnprintf_fmt_text)

section \<open>Plain text, and the terminator of a full buffer\<close>

lemma parse_loop_plain:
  assumes "c8 CHR ''%'' \<notin> set fmt" and "pstate p = STATE_CHARS"
  shows "parse_loop fmt p = Some (poke fmt p)"
  using assms
  by (induction fmt arbitrary: p) (auto simp: parse_step_def step_chars_def addchar_poke)

lemma vsnprintf_plain:
  assumes "c8 CHR ''%'' \<notin> set fmt"
  shows "vsnprintf m n fmt as = Some (sint (of_nat (length fmt) :: u32), written fmt n m, [])"
  using parse_loop_plain [OF assms, of "start_parse n m as"]
  by (simp add: vsnprintf_def start_parse_def written_def Let_def poke_def)

text \<open>C16: a text longer than the buffer is not terminated in the buffer.  The parser's position
  counts every character, those that did not fit too, so the terminator stored just before it
  lies behind the buffer: with a plain text longer than \<open>n\<close>, the \<open>n\<close> bytes of the buffer are
  the first \<open>n\<close> characters and no zero, and the byte at offset \<open>length fmt - 1\<close>, outside the
  buffer, is overwritten.\<close>

theorem vsnprintf_overflow_unterminated:
  assumes "c8 CHR ''%'' \<notin> set fmt" and "0 \<notin> set fmt" and "0 < n" and "n < length fmt"
  shows "\<exists>ret m'. vsnprintf m n fmt as = Some (ret, m', [])
    \<and> (\<forall>i \<in> {..<n}. m' i = fmt ! i \<and> m' i \<noteq> 0)
    \<and> length fmt - 1 \<ge> n \<and> m' (length fmt - 1) = 0"
proof -
  have "written fmt n m (length fmt - 1) = 0" using assms by (simp add: written_def)
  moreover have "written fmt n m i = fmt ! i \<and> fmt ! i \<noteq> 0" if "i < n" for i
  proof -
    have "fmt ! i \<noteq> 0" using that assms by (metis nth_mem order.strict_trans)
    then show ?thesis using that assms by (auto simp: written_def poke_mem_def)
  qed
  ultimately show ?thesis using assms by (auto simp: vsnprintf_plain)
qed

theorem vsnprintf_overflow_unterminated_witness:
  "\<exists>ret m'. vsnprintf (\<lambda>_. 7) 4 (asc ''overflow'') [] = Some (ret, m', [])
    \<and> (\<forall>i \<in> {..<4}. m' i = asc ''overflow'' ! i \<and> m' i \<noteq> 0)
    \<and> length (asc ''overflow'') - 1 \<ge> 4 \<and> m' (length (asc ''overflow'') - 1) = 0"
  by (rule vsnprintf_overflow_unterminated) (simp_all add: asc_def)

section \<open>Printed integers read back\<close>

definition digit_val :: "u8 \<Rightarrow> nat" where
  "digit_val c = (if c < 0x3a then unat c - 0x30 else unat c - 0x57)"

definition of_digits :: "nat \<Rightarrow> u8 list \<Rightarrow> nat" where
  "of_digits b cs = foldl (\<lambda>a c. a * b + digit_val c) 0 cs"

definition read_int :: "u8 list \<Rightarrow> int" where
  "read_int cs = (if take 1 cs = [0x2d] then - int (of_digits 10 (tl cs)) else int (of_digits 10 cs))"

lemma digit_val_lower: "k < 16 \<Longrightarrow> digit_val (digits_lower ! k) = k"
  and digits_lower_0x30: "k < 16 \<Longrightarrow> digits_lower ! k = 0x30 \<longleftrightarrow> k = 0"
  and digits_lower_0x2d: "k < 16 \<Longrightarrow> digits_lower ! k \<noteq> 0x2d"
  and digits_lower_0: "k < 16 \<Longrightarrow> digits_lower ! k \<noteq> 0"
proof -
  have "\<forall>k \<in> set [0..<16]. digit_val (digits_lower ! k) = k \<and> (digits_lower ! k = 0x30 \<longleftrightarrow> k = 0)
      \<and> digits_lower ! k \<noteq> 0x2d \<and> digits_lower ! k \<noteq> 0" by code_simp
  then show "k < 16 \<Longrightarrow> digit_val (digits_lower ! k) = k" "k < 16 \<Longrightarrow> digits_lower ! k = 0x30 \<longleftrightarrow> k = 0"
    "k < 16 \<Longrightarrow> digits_lower ! k \<noteq> 0x2d" "k < 16 \<Longrightarrow> digits_lower ! k \<noteq> 0" by simp_all
qed

lemma unat_mod_base:
  assumes "1 < b" and "b \<le> (16::u64)"
  shows "unat (v mod b) < 16"
proof -
  have "0 < unat b" "unat b \<le> 16" using assms by (simp_all add: word_less_nat_alt word_le_nat_alt)
  then show ?thesis by (metis less_le_trans mod_less_divisor unat_mod)
qed

lemma count_digits_0 [simp]: "count_digits b 0 = 0"
  by (simp add: count_digits.simps [of b 0])

lemma count_digits_Suc: "1 < b \<Longrightarrow> v \<noteq> 0 \<Longrightarrow> count_digits b v = Suc (count_digits b (v div b))"
  by (simp add: count_digits.simps [of b v] not_le)

lemma of_digits_low:
  assumes "1 < b" and "b \<le> (16::u64)"
  shows "of_digits (unat b) (low_digits n digits_lower b v) = unat v mod unat b ^ n"
proof (induction n arbitrary: v)
  case (Suc n)
  have "unat (v mod b) < 16" using assms by (rule unat_mod_base)
  then show ?case
    using Suc [of "v div b"] mod_mult2_eq [of "unat v" "unat b" "unat b ^ n"]
    by (simp add: of_digits_def digit_val_lower unat_div unat_mod mult.commute)
qed (simp add: of_digits_def)

lemma count_digits_upper:
  assumes "1 < b"
  shows "unat v < unat b ^ count_digits b v"
  using assms
proof (induction b v rule: count_digits.induct)
  case (1 b v)
  show ?case
  proof (cases "v = 0")
    case False
    have "unat (v div b) < unat b ^ count_digits b (v div b)" using 1 False by simp
    then have "unat v div unat b < unat b ^ count_digits b (v div b)" by (simp add: unat_div)
    moreover have "0 < unat b" using 1(2) by (metis gr0I less_zeroE unat_0 word_less_nat_alt)
    ultimately have "unat v < unat b ^ count_digits b (v div b) * unat b"
      by (simp add: div_less_iff_less_mult)
    then show ?thesis using 1(2) False by (simp add: count_digits_Suc mult.commute)
  qed simp
qed

lemma count_digits_lower:
  assumes "1 < b" and "v \<noteq> 0"
  shows "unat b ^ (count_digits b v - 1) \<le> unat v"
  using assms
proof (induction b v rule: count_digits.induct)
  case (1 b v)
  show ?case
  proof (cases "v div b = 0")
    case True
    then show ?thesis using 1(2,3)
      by (simp add: count_digits_Suc Suc_le_eq unat_gt_0)
  next
    case False
    have "unat b ^ (count_digits b (v div b) - 1) \<le> unat (v div b)" using 1 False by simp
    then have "unat b ^ (count_digits b (v div b) - 1) * unat b \<le> unat v div unat b * unat b"
      by (simp add: unat_div)
    also have "\<dots> \<le> unat v" by (rule div_times_less_eq_dividend)
    finally have "unat b ^ (count_digits b (v div b) - 1) * unat b \<le> unat v" .
    moreover have "0 < count_digits b (v div b)" using False 1(2) by (simp add: count_digits_Suc)
    ultimately show ?thesis using 1(2,3)
      by (cases "count_digits b (v div b)") (simp_all add: count_digits_Suc mult.commute)
  qed
qed

lemma low_digits_hd:
  assumes "1 < b" and "b \<le> 16" and "v \<noteq> 0"
  shows "hd (low_digits (count_digits b v) digits_lower b v) \<noteq> 0x30"
  using assms
proof (induction b v rule: count_digits.induct)
  case (1 b v)
  have c: "count_digits b v = Suc (count_digits b (v div b))"
    using 1(2,4) by (rule count_digits_Suc)
  show ?case
  proof (cases "v div b = 0")
    case True
    have "v mod b \<noteq> 0" using True 1(4) by (metis add_0 div_mult_mod_eq mult_zero_left)
    then show ?thesis using True c unat_mod_base [OF 1(2,3), of v]
      by (simp add: digits_lower_0x30 unat_eq_zero)
  next
    case False
    have "low_digits (count_digits b (v div b)) digits_lower b (v div b) \<noteq> []"
      using False 1(2) by (simp add: count_digits_Suc)
    then show ?thesis using 1(1) [OF _ 1(2,3) False] 1(2,4) c by (simp add: not_le)
  qed
qed

text \<open>The digits of a value, the digit 0 for the value 0.\<close>

definition digits_of :: "u64 \<Rightarrow> u64 \<Rightarrow> u8 list" where
  "digits_of b v = low_digits (if v = 0 then 1 else count_digits b v) digits_lower b v"

lemma of_digits_of:
  assumes "1 < b" and "b \<le> 16"
  shows "of_digits (unat b) (digits_of b v) = unat v"
  using of_digits_low [OF assms] count_digits_upper [OF assms(1), of v]
  by (simp add: digits_of_def)

lemma set_low_digits:
  assumes "1 < b" and "b \<le> (16::u64)"
  shows "set (low_digits n digits_lower b v) \<subseteq> (!) digits_lower ` {..<16}"
  using unat_mod_base [OF assms] by (induction n arbitrary: v) auto

lemma digits_of_chars:
  assumes "1 < b" and "b \<le> 16" and "c \<in> set (digits_of b v)"
  shows "c \<noteq> 0" and "c \<noteq> 0x2d"
proof -
  from assms(3) set_low_digits [OF assms(1,2)] obtain k where "k < 16" "c = digits_lower ! k"
    unfolding digits_of_def by blast
  then show "c \<noteq> 0" "c \<noteq> 0x2d" by (simp_all add: digits_lower_0 digits_lower_0x2d)
qed

lemma digits_of_not_Nil: "1 < b \<Longrightarrow> digits_of b v \<noteq> []"
  by (auto simp: digits_of_def count_digits_Suc simp flip: length_0_conv)

lemma digits_of_hd:
  assumes "1 < b" and "b \<le> 16" and "v \<noteq> 0"
  shows "hd (digits_of b v) \<noteq> 0x30"
  using low_digits_hd [OF assms] assms(3) by (simp add: digits_of_def)

lemma digits_of_length:
  assumes "1 < b" and "v < b ^ k" and "0 < k" and "unat (b ^ k) = unat b ^ k"
  shows "length (digits_of b v) \<le> k"
proof (cases "v = 0")
  case False
  have "unat b ^ (count_digits b v - 1) < unat b ^ k"
    using count_digits_lower [OF assms(1) False] assms(2,4) by (simp add: word_less_nat_alt)
  moreover have "1 < unat b" using assms(1) by (simp add: word_less_nat_alt)
  ultimately show ?thesis using False by (simp add: digits_of_def)
qed (use assms in \<open>simp add: digits_of_def\<close>)

lemma int_chars_plain:
  assumes "width p = 0" and "precision p = -1" and "flags p = 0 \<or> flags p = FLAG_SIGNED" and "1 < base p"
  shows "int_chars v p = (if int_minus v p then [0x2d] else []) @ digits_of (base p) (int_abs v p)"
proof -
  have f: "\<not> has_flag FLAG_MINUS p" "\<not> has_flag FLAG_ZERO p" "\<not> has_flag FLAG_PLUS p"
    "\<not> has_flag FLAG_SPACE p" "\<not> has_flag FLAG_HASH p" "\<not> has_flag FLAG_UPPER p"
    using assms(3) by (auto simp: has_flag_def flag_defs)
  have "0 < count_digits (base p) (int_abs v p)" if "int_abs v p \<noteq> 0"
    using that assms(4) by (simp add: count_digits_Suc)
  then show ?thesis using f assms(1,2) only_zero_flag [of p]
    by (auto simp: int_chars_def int_ndigits_def int_prec_def int_nchars_def int_prefix_def Let_def
        digits_of_def flag_or)
qed

lemma parse_loop_d:
  "parse_loop (asc ''%d'') (start_parse n m [ArgInt v])
   = Some ((addint (scast v) ((start_parse n m [])\<lparr>flags := FLAG_SIGNED, pstate := STATE_DATATYPE\<rparr>))
       \<lparr>pstate := STATE_CHARS\<rparr>)"
  by (simp add: start_parse_def parse_step_def step_chars_def step_flags_def step_width_def
      step_datalen_def step_datatype_def add_signed_def set_flag_def isdigit_def)

lemma parse_loop_lx:
  "parse_loop (asc ''%lx'') (start_parse n m [ArgLong v])
   = Some ((addint v ((start_parse n m [])\<lparr>base := 16, datalen := DATALEN_LONG, pstate := STATE_DATATYPE\<rparr>))
       \<lparr>pstate := STATE_CHARS\<rparr>)"
  by (simp add: start_parse_def parse_step_def step_chars_def step_flags_def step_width_def
      step_datalen_def step_datatype_def add_unsigned_def set_flag_def isdigit_def)

lemma vsnprintf_int:
  assumes "parse_loop fmt (start_parse n m as) = Some ((addint v q)\<lparr>pstate := STATE_CHARS\<rparr>)"
    and "bufptr q = 0" "bufterm q = n" "mem q = m" "counts q = []"
    and "length (int_chars v q) < n" "length (int_chars v q) < 2 ^ 31"
  shows "\<exists>k m'. vsnprintf m n fmt as = Some (int k, m', []) \<and> m' k = 0 \<and> map m' [0..<k] = int_chars v q"
proof -
  let ?cs = "int_chars v q"
  have "vsnprintf m n fmt as = Some (sint (of_nat (length ?cs) :: u32), written ?cs n m, [])"
    using assms by (simp add: vsnprintf_def written_def Let_def addint_poke poke_def)
  moreover have "sint (of_nat (length ?cs) :: u32) = int (length ?cs)"
    using assms(7) by simp
  moreover have "written ?cs n m (length ?cs) = 0" "map (written ?cs n m) [0..<length ?cs] = ?cs"
    using assms(6) by (auto simp: written_def poke_mem_def intro: nth_equalityI)
  ultimately show ?thesis by metis
qed

text \<open>C17: \<open>%d\<close> prints a value that reads back.  For a buffer of at least 12 bytes the text is at
  most 11 characters long, terminated, without a zero inside, is the canonical numeral (a
  minus sign exactly for negative values, no leading zero but for the value 0), and reading
  it as a decimal number gives the argument.\<close>

theorem printf_decimal_roundtrip:
  assumes "12 \<le> n"
  shows "\<exists>k m'. vsnprintf m n (asc ''%d'') [ArgInt v] = Some (int k, m', []) \<and> m' k = 0 \<and> k \<le> 11
    \<and> 0 \<notin> m' ` {..<k} \<and> read_int (map m' [0..<k]) = sint v
    \<and> (m' 0 = 0x2d \<longleftrightarrow> sint v < 0)
    \<and> (m' (if sint v < 0 then 1 else 0) = 0x30 \<longleftrightarrow> v = 0)"
proof -
  define w :: u64 where "w = scast v"
  define q where "q = (start_parse n m [])\<lparr>flags := FLAG_SIGNED, pstate := STATE_DATATYPE\<rparr>"
  define a where "a = int_abs w q"
  have q: "bufptr q = 0" "bufterm q = n" "mem q = m" "counts q = []" "width q = 0" "precision q = -1"
    "flags q = FLAG_SIGNED" "base q = 10" by (simp_all add: q_def start_parse_def)
  have sw: "sint w = sint v" by (simp add: w_def)
  have mi: "int_minus w q \<longleftrightarrow> sint v < 0" by (simp add: int_minus_def sw has_flag_def q flag_defs)
  have a: "int (unat a) = \<bar>sint v\<bar>"
  proof -
    have "uint a = \<bar>sint v\<bar>" using uint_abs_64 [of w] unfolding a_def int_abs_def mi sw .
    then show ?thesis by simp
  qed
  have z: "a = 0 \<longleftrightarrow> v = 0"
  proof -
    have "a = 0 \<longleftrightarrow> int (unat a) = 0" by (metis of_nat_eq_0_iff unat_eq_zero)
    then show ?thesis unfolding a by (simp add: signed_eq_0_iff)
  qed
  have "unat a \<le> 2 ^ 31" 
  proof -
    have "int (unat a) \<le> 2 ^ 31"
      unfolding a using sint_greater_eq [of v] sint_less [of v] by (simp add: abs_le_iff)
    then have "int (unat a) \<le> int (2 ^ 31)" by simp
    then show ?thesis by (simp only: of_nat_le_iff)
  qed
  then have "a < 10 ^ 10" by (simp add: word_less_nat_alt)
  then have len: "length (digits_of 10 a) \<le> 10" by (rule digits_of_length [rotated]) simp_all
  let ?cs = "(if sint v < 0 then [0x2d] else []) @ digits_of 10 a"
  have cs: "int_chars w q = ?cs"
    using int_chars_plain [of q w] by (simp add: q mi a_def)
  have "\<exists>k m'. vsnprintf m n (asc ''%d'') [ArgInt v] = Some (int k, m', []) \<and> m' k = 0 \<and> map m' [0..<k] = int_chars w q"
    by (rule vsnprintf_int [OF parse_loop_d [of n m v, folded w_def q_def]])
      (use assms len in \<open>simp_all add: q cs\<close>)
  then obtain k m' where r: "vsnprintf m n (asc ''%d'') [ArgInt v] = Some (int k, m', [])" "m' k = 0"
    and cs': "map m' [0..<k] = ?cs" unfolding cs by blast
  have k: "k = length ?cs" using arg_cong [OF cs', of length] by simp
  have img: "m' ` {..<k} = set ?cs" using arg_cong [OF cs', of set] by (simp add: atLeast0LessThan)
  have nth: "m' i = ?cs ! i" if "i < k" for i 
    using that arg_cong [OF cs', of "\<lambda>xs. xs ! i"] by simp
  have pos: "digits_of 10 a \<noteq> []" by (rule digits_of_not_Nil) simp
  have no: "c \<noteq> 0 \<and> c \<noteq> 0x2d" if "c \<in> set (digits_of 10 a)" for c
    using that digits_of_chars [of 10 c a] by simp
  have no0: "digits_of 10 a ! 0 \<noteq> 0x2d" using no [OF nth_mem [of 0 "digits_of 10 a"]] pos by simp
  have hd: "digits_of 10 a ! 0 = 0x30 \<longleftrightarrow> v = 0"
  proof (cases "v = 0")
    case True
    then show ?thesis using z by (simp add: digits_of_def digits_lower_def)
  next
    case False
    then show ?thesis using z digits_of_hd [of 10 a] pos by (simp add: hd_conv_nth)
  qed
  have "m' 0 = 0x2d \<longleftrightarrow> sint v < 0" "m' (if sint v < 0 then 1 else 0) = 0x30 \<longleftrightarrow> v = 0"
    using nth [of 0] nth [of 1] k pos hd no0 by (cases "sint v < 0"; simp)+
  moreover have "read_int ?cs = sint v"
    using a of_digits_of [of 10 a] pos no0 by (cases "sint v < 0") (simp_all add: read_int_def take_Suc_conv_app_nth)
  moreover have "0 \<notin> m' ` {..<k}" unfolding img using no by auto
  ultimately show ?thesis using r k len cs' by (intro exI [of _ k] exI [of _ m']) simp
qed

theorem printf_decimal_roundtrip_witness:
  "\<exists>k m'. vsnprintf (\<lambda>_. 7) 16 (asc ''%d'') [ArgInt (- 42)] = Some (int k, m', []) \<and> m' k = 0 \<and> k \<le> 11
    \<and> 0 \<notin> m' ` {..<k} \<and> read_int (map m' [0..<k]) = sint (- 42 :: u32)
    \<and> (m' 0 = 0x2d \<longleftrightarrow> sint (- 42 :: u32) < 0)
    \<and> (m' (if sint (- 42 :: u32) < 0 then 1 else 0) = 0x30 \<longleftrightarrow> (- 42 :: u32) = 0)"
  by (rule printf_decimal_roundtrip) simp

text \<open>\<open>%lx\<close> prints a 64-bit value that reads back: for a buffer of at least 17 bytes the text
  is at most 16 characters long, terminated, without a zero inside, and reading it as a
  hexadecimal number gives the argument.\<close>

lemma printf_hex_roundtrip:
  assumes "17 \<le> n"
  shows "\<exists>k m'. vsnprintf m n (asc ''%lx'') [ArgLong v] = Some (int k, m', []) \<and> m' k = 0 \<and> k \<le> 16
    \<and> 0 \<notin> m' ` {..<k} \<and> of_digits 16 (map m' [0..<k]) = unat v"
proof -
  define q where "q = (start_parse n m [])\<lparr>base := 16, datalen := DATALEN_LONG, pstate := STATE_DATATYPE\<rparr>"
  have q: "bufptr q = 0" "bufterm q = n" "mem q = m" "counts q = []" "width q = 0" "precision q = -1"
    "flags q = 0" "base q = 16" by (simp_all add: q_def start_parse_def)
  have mi: "\<not> int_minus v q" by (simp add: int_minus_def has_flag_def q)
  have cs: "int_chars v q = digits_of 16 v"
    using int_chars_plain [of q v] by (simp add: q mi int_abs_def)
  have len: "length (digits_of 16 v) \<le> 16"
  proof (cases "v = 0")
    case False
    have "16 ^ (count_digits 16 v - 1) \<le> unat v" using count_digits_lower [of 16 v] False by simp
    also have "\<dots> < (16::nat) ^ 16" by simp
    finally have "count_digits 16 v - 1 < 16" by (rule power_less_imp_less_exp [rotated]) simp
    then show ?thesis using False by (simp add: digits_of_def)
  qed (simp add: digits_of_def)
  have "\<exists>k m'. vsnprintf m n (asc ''%lx'') [ArgLong v] = Some (int k, m', []) \<and> m' k = 0 \<and> map m' [0..<k] = int_chars v q"
    by (rule vsnprintf_int [OF parse_loop_lx [of n m v, folded q_def]])
      (use assms len in \<open>simp_all add: q cs\<close>)
  then obtain k m' where r: "vsnprintf m n (asc ''%lx'') [ArgLong v] = Some (int k, m', [])" "m' k = 0"
    and cs': "map m' [0..<k] = digits_of 16 v" unfolding cs by blast
  have "k = length (digits_of 16 v)" using arg_cong [OF cs', of length] by simp
  moreover have "m' ` {..<k} = set (digits_of 16 v)"
    using arg_cong [OF cs', of set] by (simp add: atLeast0LessThan)
  moreover have "0 \<notin> set (digits_of 16 v)" using digits_of_chars(1) [of 16 0 v] by auto
  moreover have "of_digits 16 (digits_of 16 v) = unat v" using of_digits_of [of 16 v] by simp
  ultimately show ?thesis using r len cs' by (intro exI [of _ k] exI [of _ m']) simp
qed

end
