(* ===== verification/Cstring.thy ===== *)
theory Cstring
  imports Qsort
begin

text \<open>
  \<^verbatim>\<open>libc/string/strlen.c\<close>, \<^verbatim>\<open>strcmp.c\<close>, \<^verbatim>\<open>strlcpy.c\<close> and \<^verbatim>\<open>strlcat.c\<close>: null-terminated
  strings in memory.  Memory is a function from addresses to bytes, pointers are integers,
  source and destination share it.  \<open>strlen\<close> and \<open>strcmp\<close> run on until they find a
  terminator, so a call that never returns is \<open>None\<close>.  \<open>cstr_at m p cs\<close> says that the string
  \<open>cs\<close> stands at \<open>p\<close>; each function's lemma states what it does to such strings, and
  \<open>strcmp_chars\<close>, the comparison on the characters alone, is an interpretation of
  \<open>sort_order\<close>.
\<close>

section \<open>The code\<close>

type_synonym bytes = "int \<Rightarrow> u8"

partial_function (option) strlen_from :: "bytes \<Rightarrow> int \<Rightarrow> nat \<Rightarrow> nat option" where
  "strlen_from m str len =
     (if m (str + int len) \<noteq> 0 then strlen_from m str (Suc len) else Some len)"

definition strlen :: "bytes \<Rightarrow> int \<Rightarrow> nat option" where
  "strlen m str = strlen_from m str 0"

text \<open>\<open>char\<close> is signed.\<close>

partial_function (option) strcmp_from :: "bytes \<Rightarrow> int \<Rightarrow> int \<Rightarrow> nat \<Rightarrow> int option" where
  "strcmp_from m str1 str2 i =
     (if m (str1 + int i) \<noteq> 0 \<and> m (str2 + int i) \<noteq> 0
      then if m (str1 + int i) = m (str2 + int i) then strcmp_from m str1 str2 (Suc i)
           else Some (sint (m (str1 + int i)) - sint (m (str2 + int i)))
      else Some (sint (m (str1 + int i)) - sint (m (str2 + int i))))"

definition strcmp :: "bytes \<Rightarrow> int \<Rightarrow> int \<Rightarrow> int option" where
  "strcmp m str1 str2 = strcmp_from m str1 str2 0"

declare strlen_from.simps [code] strcmp_from.simps [code]

text \<open>The loops of \<open>strlcpy\<close> and \<open>strlcat\<close>: \<open>dt\<close> is the last byte of the buffer.\<close>

function copy_chars :: "int \<Rightarrow> int \<Rightarrow> int \<Rightarrow> bytes \<Rightarrow> int \<times> bytes" where
  "copy_chars d dt s m =
     (if d < dt \<and> m s \<noteq> 0 then copy_chars (d + 1) dt (s + 1) (m(d := m s)) else (d, m))"
  by pat_completeness auto
termination
  by (relation "measure (\<lambda>(d, dt, s, m). nat (dt - d))") auto

function find_end :: "int \<Rightarrow> int \<Rightarrow> bytes \<Rightarrow> int" where
  "find_end d dt m = (if d < dt \<and> m d \<noteq> 0 then find_end (d + 1) dt m else d)"
  by pat_completeness auto
termination
  by (relation "measure (\<lambda>(d, dt, m). nat (dt - d))") auto

declare copy_chars.simps [simp del] find_end.simps [simp del]

definition strlcpy :: "int \<Rightarrow> int \<Rightarrow> nat \<Rightarrow> bytes \<Rightarrow> nat \<times> bytes" where
  "strlcpy dst src dstsize m =
     (let (d, m) = copy_chars dst (dst + int dstsize - 1) src m;
          m = (if dstsize > 0 then m(d := 0) else m)
      in (nat (d - dst), m))"

definition strlcat :: "int \<Rightarrow> int \<Rightarrow> nat \<Rightarrow> bytes \<Rightarrow> nat \<times> bytes" where
  "strlcat dst src dstsize m =
     (let dt = dst + int dstsize - 1;
          (d, m) = copy_chars (find_end dst dt m) dt src m;
          m = (if dstsize > 0 then m(d := 0) else m)
      in (nat (d - dst), m))"

section \<open>Strings in memory\<close>

fun cstr_at :: "bytes \<Rightarrow> int \<Rightarrow> u8 list \<Rightarrow> bool" where
  "cstr_at m p [] \<longleftrightarrow> m p = 0"
| "cstr_at m p (c # cs) \<longleftrightarrow> c \<noteq> 0 \<and> m p = c \<and> cstr_at m (p + 1) cs"

lemma cstr_at_cong:
  "(\<And>a. p \<le> a \<Longrightarrow> a \<le> p + int (length cs) \<Longrightarrow> m' a = m a) \<Longrightarrow> cstr_at m' p cs = cstr_at m p cs"
  by (induction cs arbitrary: p) auto

lemma cstr_at_unique:
  "cstr_at m p xs \<Longrightarrow> cstr_at m p ys \<Longrightarrow> xs = ys"
proof (induction xs arbitrary: p ys)
  case Nil
  then show ?case by (cases ys) auto
next
  case (Cons x xs)
  then show ?case by (cases ys) auto
qed

lemma cstr_at_append:
  "cstr_at m p (xs @ ys) \<longleftrightarrow> 0 \<notin> set xs \<and> (\<forall>i < length xs. m (p + int i) = xs ! i) \<and> cstr_at m (p + int (length xs)) ys"
proof (induction xs arbitrary: p)
  case (Cons x xs)
  have "(\<forall>i < length (x # xs). m (p + int i) = (x # xs) ! i)
      \<longleftrightarrow> m p = x \<and> (\<forall>i < length xs. m (p + 1 + int i) = xs ! i)"
    by (auto simp: less_Suc_eq_0_disj add.assoc)
  then show ?case by (auto simp: Cons add.assoc)
qed simp

section \<open>strlen\<close>

lemma strlen_from_at:
  "cstr_at m (str + int len) cs \<Longrightarrow> strlen_from m str len = Some (len + length cs)"
proof (induction cs arbitrary: len)
  case (Cons c cs)
  then show ?case using Cons.IH [of "Suc len"]
    by (simp add: strlen_from.simps [of m str len] ac_simps)
qed (simp add: strlen_from.simps)

section \<open>strcmp\<close>

text \<open>The comparison on the characters before the terminators.\<close>

function strcmp_chars :: "u8 list \<Rightarrow> u8 list \<Rightarrow> int" where
  "strcmp_chars xs ys =
     (let x = (if xs = [] then 0 else hd xs); y = (if ys = [] then 0 else hd ys) in
      if x \<noteq> 0 \<and> x = y then strcmp_chars (tl xs) (tl ys) else sint x - sint y)"
  by pat_completeness auto
termination
  by (relation "measure (\<lambda>(xs, ys). length xs)") (auto split: if_splits)

declare strcmp_chars.simps [simp del]

lemma strcmp_from_at:
  assumes "cstr_at m (str1 + int i) xs" and "cstr_at m (str2 + int i) ys"
  shows "strcmp_from m str1 str2 i = Some (strcmp_chars xs ys)"
  using assms
proof (induction xs arbitrary: i ys)
  case Nil
  then show ?case
    by (cases ys) (auto simp: strcmp_from.simps [of m str1 str2 i] strcmp_chars.simps)
next
  case (Cons x xs)
  show ?case
  proof (cases ys)
    case Nil
    then show ?thesis using Cons.prems
      by (auto simp: strcmp_from.simps [of m str1 str2 i] strcmp_chars.simps [of "x # xs"])
  next
    case ys: (Cons y ys')
    then show ?thesis using Cons.prems Cons.IH [of "Suc i" ys']
      by (auto simp: strcmp_from.simps [of m str1 str2 i] strcmp_chars.simps [of "x # xs"] ac_simps)
  qed
qed

lemma strcmp_chars_Cons:
  "strcmp_chars (a # as) (b # bs) = (if a \<noteq> 0 \<and> a = b then strcmp_chars as bs else sint a - sint b)"
  by (simp add: strcmp_chars.simps [of "a # as"])

lemma strcmp_chars_antisym: "strcmp_chars ys xs = - strcmp_chars xs ys"
proof (induction xs ys rule: strcmp_chars.induct)
  case (1 xs ys)
  then show ?case by (subst (1 2) strcmp_chars.simps) (auto simp: Let_def)
qed

lemma sint_eq_8: "sint (x :: u8) = sint y \<longleftrightarrow> x = y"
  by (auto dest: arg_cong [where f = "word_of_int :: int \<Rightarrow> u8"])

lemma strcmp_chars_trans:
  "strcmp_chars xs ys \<le> 0 \<Longrightarrow> strcmp_chars ys zs \<le> 0 \<Longrightarrow> strcmp_chars xs zs \<le> 0"
proof (induction xs ys arbitrary: zs rule: strcmp_chars.induct)
  case (1 xs ys)
  define x where "x = (if xs = [] then 0 else hd xs)"
  define y where "y = (if ys = [] then 0 else hd ys)"
  define z where "z = (if zs = [] then 0 else hd zs)"
  have e: "strcmp_chars xs ys = (if x \<noteq> 0 \<and> x = y then strcmp_chars (tl xs) (tl ys) else sint x - sint y)"
    "strcmp_chars ys zs = (if y \<noteq> 0 \<and> y = z then strcmp_chars (tl ys) (tl zs) else sint y - sint z)"
    "strcmp_chars xs zs = (if x \<noteq> 0 \<and> x = z then strcmp_chars (tl xs) (tl zs) else sint x - sint z)"
    by (simp_all add: strcmp_chars.simps [of xs] strcmp_chars.simps [of ys] x_def y_def z_def Let_def)
  have n: "a = b \<longleftrightarrow> sint a = sint b" for a b :: u8 by (simp add: sint_eq_8)
  show ?case
  proof (cases "x \<noteq> 0 \<and> x = y \<and> x = z")
    case True
    with 1(1) [OF x_def y_def] e 1(2,3) show ?thesis by auto
  next
    case False
    then show ?thesis using 1(2,3) unfolding e n by (auto split: if_splits)
  qed
qed

interpretation char_order: sort_order strcmp_chars
proof unfold_locales
  show "strcmp_chars x y < 0 \<longleftrightarrow> strcmp_chars y x > 0" for x y
    using strcmp_chars_antisym [of x y] by simp
qed (rule strcmp_chars_trans)

lemma strcmp_chars_eq:
  "0 \<notin> set xs \<Longrightarrow> 0 \<notin> set ys \<Longrightarrow> strcmp_chars xs ys = 0 \<longleftrightarrow> xs = ys"
proof (induction xs ys rule: strcmp_chars.induct)
  case (1 xs ys)
  show ?case
  proof (cases xs)
    case Nil
    then show ?thesis using 1(3)
      by (cases ys) (auto simp: strcmp_chars.simps [of "[]"] sint_eq_8 [of 0, simplified])
  next
    case x: (Cons a as)
    show ?thesis
    proof (cases ys)
      case Nil
      then show ?thesis using x 1(2)
        by (auto simp: strcmp_chars.simps [of _ "[]"] sint_eq_8 [of _ 0, simplified])
    next
      case y: (Cons b bs)
      show ?thesis
      proof (cases "a = b")
        case True
        then show ?thesis using x y 1 by (simp add: strcmp_chars_Cons)
      next
        case False
        then show ?thesis using x y by (simp add: strcmp_chars_Cons sint_eq_8)
      qed
    qed
  qed
qed

text \<open>The first place where the strings, with their terminators, differ.\<close>

lemma strcmp_chars_less:
  "0 \<notin> set xs \<Longrightarrow> 0 \<notin> set ys \<Longrightarrow>
   strcmp_chars xs ys < 0 \<longleftrightarrow> (xs @ [0], ys @ [0]) \<in> lexord {(a, b). sint a < sint b}"
proof (induction xs ys rule: strcmp_chars.induct)
  case (1 xs ys)
  show ?case
  proof (cases xs)
    case Nil
    then show ?thesis using 1(3) by (cases ys) (auto simp: strcmp_chars.simps [of "[]"])
  next
    case x: (Cons a as)
    show ?thesis
    proof (cases ys)
      case Nil
      then show ?thesis using x 1(2) by (auto simp: strcmp_chars.simps [of _ "[]"])
    next
      case y: (Cons b bs)
      then show ?thesis using x 1
        by (cases "a = b") (auto simp: strcmp_chars_Cons sint_eq_8)
    qed
  qed
qed

section \<open>strlcpy and strlcat\<close>

lemma copy_chars_at:
  assumes "cstr_at m s cs" and "d \<le> dt" and "s + int (length cs) < d \<or> dt < s"
  shows "copy_chars d dt s m =
     (d + int (min (length cs) (nat (dt - d))),
      \<lambda>a. if d \<le> a \<and> a < d + int (min (length cs) (nat (dt - d))) then cs ! nat (a - d) else m a)"
  using assms
proof (induction cs arbitrary: d s m)
  case Nil
  then show ?case by (auto simp: copy_chars.simps [of d] fun_eq_iff)
next
  case (Cons c cs)
  show ?case
  proof (cases "d < dt")
    case False
    then show ?thesis using Cons.prems by (subst copy_chars.simps) (auto simp: fun_eq_iff)
  next
    case True
    let ?m = "m(d := c)"
    have at: "cstr_at ?m (s + 1) cs"
      using Cons.prems True by (subst cstr_at_cong [of _ _ _ m]) auto
    have n: "nat (dt - d) = Suc (nat (dt - (d + 1)))" using True by simp
    have "copy_chars d dt s m = copy_chars (d + 1) dt (s + 1) ?m"
      using True Cons.prems by (simp add: copy_chars.simps [of d])
    also have "\<dots> = (d + 1 + int (min (length cs) (nat (dt - (d + 1)))),
        \<lambda>a. if d + 1 \<le> a \<and> a < d + 1 + int (min (length cs) (nat (dt - (d + 1))))
            then cs ! nat (a - (d + 1)) else ?m a)"
      using Cons.prems(3) True by (intro Cons.IH [OF at]) auto
    finally show ?thesis unfolding n
      by (auto simp: fun_eq_iff nth_Cons' nat_diff_distrib' intro!: arg_cong [where f = "(!) cs"])
  qed
qed

lemma find_end_at:
  assumes "cstr_at m d cs" and "d \<le> dt"
  shows "find_end d dt m = d + int (min (length cs) (nat (dt - d)))"
  using assms
proof (induction cs arbitrary: d)
  case (Cons c cs)
  show ?case
  proof (cases "d < dt")
    case True
    then have "nat (dt - d) = Suc (nat (dt - (d + 1)))" by simp
    then show ?thesis using Cons True by (simp add: find_end.simps [of d])
  qed (use Cons in \<open>simp add: find_end.simps [of dt]\<close>)
qed (simp add: find_end.simps)

lemma cstr_at_window:
  assumes "0 \<notin> set cs" and "\<And>i. i < length cs \<Longrightarrow> m (d + int i) = cs ! i" and "m (d + int (length cs)) = 0"
  shows "cstr_at m d cs"
  using assms cstr_at_append [of m d cs "[]"] by simp

lemma cstr_at_nonzero: "cstr_at m p cs \<Longrightarrow> 0 \<notin> set cs"
  by (induction cs arbitrary: p) auto

lemma cstr_at_nth: "cstr_at m p cs \<Longrightarrow> i < length cs \<Longrightarrow> m (p + int i) = cs ! i"
  using cstr_at_append [of m p cs "[]"] by simp

definition hello_at :: "int \<Rightarrow> bytes" where
  "hello_at p = (\<lambda>a. if p \<le> a \<and> a < p + 5 then asc ''hello'' ! nat (a - p) else 0)"

lemma hello_at: "cstr_at (hello_at p) p (asc ''hello'')"
  by (simp add: hello_at_def)

lemma strlen_string: "cstr_at m str cs \<Longrightarrow> strlen m str = Some (length cs)"
  using strlen_from_at [of m str 0 cs] by (simp add: strlen_def)

text \<open>C18: \<open>strcmp\<close> returns, is 0 exactly on equal strings, and negative exactly when the first
  string, with its terminator, comes first in the order by signed characters.\<close>

theorem strcmp_correct:
  assumes "cstr_at m str1 xs" and "cstr_at m str2 ys"
  shows "\<exists>r. strcmp m str1 str2 = Some r \<and> (r = 0 \<longleftrightarrow> xs = ys) \<and>
    (r < 0 \<longleftrightarrow> (xs @ [0], ys @ [0]) \<in> lexord {(a, b). sint a < sint b})"
  using strcmp_from_at [of m str1 0 xs str2 ys] assms strcmp_chars_eq [of xs ys]
    strcmp_chars_less [of xs ys] cstr_at_nonzero [OF assms(1)] cstr_at_nonzero [OF assms(2)]
  by (simp add: strcmp_def)

theorem strcmp_correct_witness:
  "\<exists>r. strcmp (hello_at 16) 16 18 = Some r \<and> r \<noteq> 0"
  using strcmp_correct [of "hello_at 16" 16 "asc ''hello''" 18 "asc ''llo''"]
  by (fastforce simp: hello_at_def)

text \<open>\<open>strlcpy\<close> puts the source, cut to \<open>dstsize - 1\<close> characters and terminated, in the
  destination, returns its length, and writes nothing outside the destination buffer.\<close>

lemma strlcpy_correct:
  assumes "cstr_at m src cs" and "0 < n" and "src + int (length cs) < dst \<or> dst + int n \<le> src"
  shows "\<exists>m'. strlcpy dst src n m = (length (take (n - 1) cs), m') \<and> cstr_at m' dst (take (n - 1) cs)
    \<and> (\<forall>a. a < dst \<or> dst + int n \<le> a \<longrightarrow> m' a = m a)"
proof -
  let ?k = "min (length cs) (n - 1)"
  let ?m = "(\<lambda>a. if dst \<le> a \<and> a < dst + int ?k then cs ! nat (a - dst) else m a)(dst + int ?k := 0)"
  have "nat (dst + int n - 1 - dst) = n - 1" by simp
  then have "strlcpy dst src n m = (?k, ?m)"
    using copy_chars_at [OF assms(1), of dst "dst + int n - 1"] assms(2,3)
    by (auto simp: strlcpy_def Let_def)
  moreover have "cstr_at ?m dst (take (n - 1) cs)"
    using cstr_at_nonzero [OF assms(1)] by (intro cstr_at_window) (auto dest: in_set_takeD)
  moreover have "\<forall>a. a < dst \<or> dst + int n \<le> a \<longrightarrow> ?m a = m a" using assms(2) by auto
  ultimately show ?thesis by (intro exI [of _ ?m]) (simp add: min.commute)
qed

text \<open>C19: \<open>strlcat\<close> appends the source to the destination, cut to \<open>dstsize - 1\<close> characters in
  all and terminated, returns the length of the result, and writes nothing outside the
  destination buffer.\<close>

theorem strlcat_correct:
  assumes "cstr_at m src cs" and "cstr_at m dst ds" and "0 < n"
    and "src + int (length cs) < dst \<or> dst + int n \<le> src"
  shows "\<exists>m'. strlcat dst src n m = (length (take (n - 1) (ds @ cs)), m')
    \<and> cstr_at m' dst (take (n - 1) (ds @ cs))
    \<and> (\<forall>a. a < dst \<or> dst + int n \<le> a \<longrightarrow> m' a = m a)"
proof -
  define l where "l = min (length ds) (n - 1)"
  define k where "k = min (length cs) (n - 1 - l)"
  define e where "e = dst + int l"
  let ?m = "(\<lambda>a. if e \<le> a \<and> a < e + int k then cs ! nat (a - e) else m a)(e + int k := 0)"
  have n1: "nat (dst + int n - 1 - dst) = n - 1" "nat (dst + int n - 1 - e) = n - 1 - l"
    using assms(3) by (auto simp: e_def l_def)
  have le: "e \<le> dst + int n - 1" using assms(3) by (auto simp: e_def l_def)
  have fe: "find_end dst (dst + int n - 1) m = e"
    using find_end_at [OF assms(2), of "dst + int n - 1"] assms(3) n1(1) by (simp add: e_def l_def)
  have "src + int (length cs) < e \<or> dst + int n - 1 < src" using assms(4) by (auto simp: e_def)
  from copy_chars_at [OF assms(1) le this]
  have "strlcat dst src n m = (l + k, ?m)"
    using assms(3) unfolding strlcat_def Let_def fe n1(2) k_def [symmetric] by (simp add: e_def)
  moreover have len: "l + k = length (take (n - 1) (ds @ cs))" using assms(3) by (auto simp: l_def k_def)
  moreover have "cstr_at ?m dst (take (n - 1) (ds @ cs))"
  proof (rule cstr_at_window)
    show "0 \<notin> set (take (n - 1) (ds @ cs))"
      using cstr_at_nonzero [OF assms(1)] cstr_at_nonzero [OF assms(2)] by (auto dest: in_set_takeD)
    show "?m (dst + int (length (take (n - 1) (ds @ cs)))) = 0"
      unfolding len [symmetric] by (simp add: e_def)
    fix i assume i: "i < length (take (n - 1) (ds @ cs))"
    show "?m (dst + int i) = take (n - 1) (ds @ cs) ! i"
    proof (cases "i < length ds")
      case True
      then have "i < l" "i < n - 1" using i by (auto simp: l_def)
      then show ?thesis using i True cstr_at_nth [OF assms(2) True]
        by (simp add: e_def nth_append)
    next
      case False
      then have "l = length ds" "i < l + k" using i by (auto simp: l_def k_def)
      then show ?thesis using i False by (simp add: e_def nth_append nat_diff_distrib')
    qed
  qed
  moreover have "\<forall>a. a < dst \<or> dst + int n \<le> a \<longrightarrow> ?m a = m a"
    using assms(3) by (auto simp: e_def l_def k_def)
  ultimately show ?thesis by (intro exI [of _ ?m]) simp
qed

theorem strlcat_correct_witness:
  "\<exists>m'. strlcat 100 16 10 ((hello_at 16)(100 := 0x61, 101 := 0)) = (6, m') \<and> cstr_at m' 100 (asc ''ahello'')"
proof -
  have "cstr_at ((hello_at 16)(100 := 0x61, 101 := 0)) 16 (asc ''hello'')" by (simp add: hello_at_def)
  moreover have "cstr_at ((hello_at 16)(100 := 0x61, 101 := 0)) 100 (asc ''a'')" by simp
  ultimately show ?thesis
    using strlcat_correct [of "(hello_at 16)(100 := 0x61, 101 := 0)" 16 "asc ''hello''" 100 "asc ''a''" 10]
    by force
qed

end
