(* ===== verification/Log.thy ===== *)
theory Log
  imports Fifo
begin

text \<open>
  \<^verbatim>\<open>kernel/debug/log.c\<close> and \<^verbatim>\<open>include/kernel/debug/log.h\<close>: the kernel log, a ring of 1024
  records and a ring of 65536 characters that holds the text of the same messages, each
  with its null terminator, and up to eight callbacks.  C's \<open>int\<close> variables are \<open>int\<close>
  (they stay far from the limits); a copy that leaves a buffer gives \<open>None\<close>.
\<close>

section \<open>Data\<close>

definition RBUFSIZE :: int where "RBUFSIZE = 1024"
definition RBUFMASK :: int where "RBUFMASK = RBUFSIZE - 1"
definition MBUFSIZE :: int where "MBUFSIZE = 65536"
definition MBUFMASK :: int where "MBUFMASK = MBUFSIZE - 1"
definition MAX_CALLBACKS :: int where "MAX_CALLBACKS = 8"

datatype loglevel = LOG_CRIT | LOG_ERR | LOG_WARNING | LOG_INFO | LOG_DEBUG | LOG_DEFAULT

text \<open>An enumeration compares by its values.\<close>

primrec loglevel_val :: "loglevel \<Rightarrow> nat" where
  "loglevel_val LOG_CRIT = 0"
| "loglevel_val LOG_ERR = 1"
| "loglevel_val LOG_WARNING = 2"
| "loglevel_val LOG_INFO = 3"
| "loglevel_val LOG_DEBUG = 4"
| "loglevel_val LOG_DEFAULT = 5"

instantiation loglevel :: linorder
begin

definition less_eq_loglevel :: "loglevel \<Rightarrow> loglevel \<Rightarrow> bool" where
  "a \<le> b \<longleftrightarrow> loglevel_val a \<le> loglevel_val b"

definition less_loglevel :: "loglevel \<Rightarrow> loglevel \<Rightarrow> bool" where
  "a < b \<longleftrightarrow> loglevel_val a < loglevel_val b"

instance
proof
  have inj: "loglevel_val a = loglevel_val b \<Longrightarrow> a = b" for a b
    by (cases a; cases b) simp_all
  fix x y z :: loglevel
  show "x < y \<longleftrightarrow> x \<le> y \<and> \<not> y \<le> x" by (auto simp: less_eq_loglevel_def less_loglevel_def)
  show "x \<le> x" by (simp add: less_eq_loglevel_def)
  show "x \<le> y \<Longrightarrow> y \<le> z \<Longrightarrow> x \<le> z" by (simp add: less_eq_loglevel_def)
  show "x \<le> y \<Longrightarrow> y \<le> x \<Longrightarrow> x = y" by (simp add: less_eq_loglevel_def inj)
  show "x \<le> y \<or> y \<le> x" by (auto simp: less_eq_loglevel_def)
qed

end

record log_record =
  level :: loglevel
  moffset :: int

text \<open>A callback function is named by a number.\<close>

type_synonym log_callback = nat

record callback =
  maxlevel :: loglevel
  cb :: log_callback

record log_context =
  rbuf :: "log_record list"
  rhead :: int
  rtail :: int
  rbufsz :: int
  mbuf :: "u8 list"
  mhead :: int
  mtail :: int
  mbufsz :: int
  callbacks :: "callback list"
  callbacks_size :: int

section \<open>Operations\<close>

definition evict_record :: "log_context \<Rightarrow> log_context" where
  "evict_record lc = lc\<lparr>rhead := (rhead lc + 1) AND RBUFMASK, rbufsz := rbufsz lc - 1\<rparr>"

text \<open>Drop the oldest character of the text.\<close>

definition skip_char :: "log_context \<Rightarrow> log_context" where
  "skip_char lc = lc\<lparr>mhead := (mhead lc + 1) AND MBUFMASK, mbufsz := mbufsz lc - 1\<rparr>"

text \<open>The \<open>for\<close> loop of \<open>evict_msg\<close>, with the number of turns left, and its \<open>while\<close> loop.\<close>

fun evict_chars :: "nat \<Rightarrow> log_context \<Rightarrow> log_context" where
  "evict_chars 0 lc = lc"
| "evict_chars (Suc n) lc =
     (if mbufsz lc > 0
      then evict_chars n (skip_char (if mbuf lc ! nat (mhead lc) = 0 then evict_record lc else lc))
      else lc)"

function evict_rest :: "log_context \<Rightarrow> log_context" where
  "evict_rest lc =
     (if mbufsz lc > 0
      then if mbuf lc ! nat (mhead lc) = 0 then evict_record (skip_char lc)
           else evict_rest (skip_char lc)
      else lc)"
  by pat_completeness auto
termination
  by (relation "measure (\<lambda>lc. nat (mbufsz lc))") (auto simp: skip_char_def)

declare evict_rest.simps [simp del]

definition evict_msg :: "int \<Rightarrow> log_context \<Rightarrow> log_context" where
  "evict_msg chars lc = evict_rest (evict_chars (nat chars) lc)"

function evict_oldest_msg :: "log_context \<Rightarrow> log_context" where
  "evict_oldest_msg lc =
     (if mbufsz lc > 0
      then if mbuf lc ! nat (mhead lc) = 0 then skip_char lc
           else evict_oldest_msg (skip_char lc)
      else lc)"
  by pat_completeness auto
termination
  by (relation "measure (\<lambda>lc. nat (mbufsz lc))") (auto simp: skip_char_def)

declare evict_oldest_msg.simps [simp del]

text \<open>\<open>memcpy\<close> into a buffer at an offset.\<close>

definition copy_in :: "int \<Rightarrow> 'a list \<Rightarrow> 'a list \<Rightarrow> 'a list option" where
  "copy_in off bs buf =
     (if 0 \<le> off \<and> nat off + length bs \<le> length buf
      then Some (take (nat off) buf @ bs @ drop (nat off + length bs) buf) else None)"

text \<open>A string argument is the characters before its terminator; the terminator is copied
  too.  The result is the offset at which the message starts, and the new context.\<close>

definition add_msg :: "u8 list \<Rightarrow> log_context \<Rightarrow> (int \<times> log_context) option" where
  "add_msg str lc =
     (let offset = mtail lc;
          schars = int (length str) + 1;
          lc = (if mbufsz lc + schars > MBUFSIZE
                then evict_msg (mbufsz lc + schars - MBUFSIZE) lc else lc);
          text = str @ [0]
      in if mtail lc + schars > MBUFSIZE
         then do {
           let split = MBUFSIZE - mtail lc;
           b \<leftarrow> copy_in (mtail lc) (take (nat split) text) (mbuf lc);
           b \<leftarrow> copy_in 0 (drop (nat split) text) b;
           Some (offset, lc\<lparr>mbuf := b, mtail := schars - split, mbufsz := mbufsz lc + schars\<rparr>)
         }
         else do {
           b \<leftarrow> copy_in (mtail lc) text (mbuf lc);
           Some (offset, lc\<lparr>mbuf := b, mtail := mtail lc + schars, mbufsz := mbufsz lc + schars\<rparr>)
         })"

text \<open>The callbacks a record triggers, in order, with what they are passed.\<close>

definition issue_callbacks :: "loglevel \<Rightarrow> u8 list \<Rightarrow> log_context \<Rightarrow> (log_callback \<times> loglevel \<times> u8 list) list" where
  "issue_callbacks lev str lc =
     map (\<lambda>c. (cb c, lev, str))
       (filter (\<lambda>c. lev \<le> maxlevel c) (take (nat (callbacks_size lc)) (callbacks lc)))"

definition add_record :: "int \<Rightarrow> loglevel \<Rightarrow> u8 list \<Rightarrow> log_context
    \<Rightarrow> log_context \<times> (log_callback \<times> loglevel \<times> u8 list) list" where
  "add_record offset lev str lc =
     (let lc = (if rbufsz lc = RBUFSIZE then evict_oldest_msg (evict_record lc) else lc);
          r = \<lparr>level = lev, moffset = offset\<rparr>;
          lc = lc\<lparr>rbuf := (rbuf lc)[nat (rtail lc) := r],
                  rtail := (rtail lc + 1) AND RBUFMASK,
                  rbufsz := rbufsz lc + 1\<rparr>
      in (lc, issue_callbacks lev str lc))"

definition log :: "loglevel \<Rightarrow> u8 list \<Rightarrow> log_context
    \<Rightarrow> (log_context \<times> (log_callback \<times> loglevel \<times> u8 list) list) option" where
  "log lev str lc = do {
     (offset, lc) \<leftarrow> add_msg str lc;
     Some (add_record offset lev str lc)
   }"

definition log_addcallback :: "loglevel \<Rightarrow> log_callback \<Rightarrow> log_context \<Rightarrow> log_context" where
  "log_addcallback maxl f lc =
     (if callbacks_size lc = MAX_CALLBACKS then lc
      else lc\<lparr>callbacks := (callbacks lc)[nat (callbacks_size lc) := \<lparr>maxlevel = maxl, cb = f\<rparr>],
              callbacks_size := callbacks_size lc + 1\<rparr>)"

text \<open>The loop of \<open>log_removecallback\<close> from index \<open>i\<close>: the entries behind a match move
  down by one.\<close>

definition move_down :: "nat \<Rightarrow> nat \<Rightarrow> 'a list \<Rightarrow> 'a list" where
  "move_down i n xs = take i xs @ take n (drop (i + 1) xs) @ drop (i + n) xs"

function remove_from :: "nat \<Rightarrow> log_callback \<Rightarrow> log_context \<Rightarrow> log_context" where
  "remove_from i f lc =
     (if int i < callbacks_size lc
      then if cb (callbacks lc ! i) = f
           then lc\<lparr>callbacks := move_down i (nat (callbacks_size lc - (int i + 1))) (callbacks lc)\<rparr>
           else remove_from (i + 1) f lc
      else lc)"
  by pat_completeness auto
termination
  by (relation "measure (\<lambda>(i, f, lc). nat (callbacks_size lc - int i))") auto

declare remove_from.simps [simp del]

definition log_removecallback :: "log_callback \<Rightarrow> log_context \<Rightarrow> log_context" where
  "log_removecallback f lc = remove_from 0 f lc"

text \<open>The static context before the first call: all zero.\<close>

definition log_boot :: log_context where
  "log_boot = \<lparr>rbuf = replicate 1024 \<lparr>level = LOG_CRIT, moffset = 0\<rparr>, rhead = 0, rtail = 0, rbufsz = 0,
     mbuf = replicate 65536 0, mhead = 0, mtail = 0, mbufsz = 0,
     callbacks = replicate 8 \<lparr>maxlevel = LOG_CRIT, cb = 0\<rparr>, callbacks_size = 0\<rparr>"

section \<open>The log as a list of messages\<close>

definition mring :: "log_context \<Rightarrow> u8 list" where
  "mring lc = ring_list 65536 (nat (mhead lc)) (nat (mbufsz lc)) (mbuf lc)"

definition rring :: "log_context \<Rightarrow> log_record list" where
  "rring lc = ring_list 1024 (nat (rhead lc)) (nat (rbufsz lc)) (rbuf lc)"

definition rings_ok :: "log_context \<Rightarrow> bool" where
  "rings_ok lc \<longleftrightarrow>
     length (mbuf lc) = 65536 \<and> 0 \<le> mhead lc \<and> mhead lc < 65536 \<and>
     0 \<le> mbufsz lc \<and> mbufsz lc \<le> 65536 \<and> 0 \<le> mtail lc \<and> mtail lc \<le> 65536 \<and>
     mtail lc mod 65536 = (mhead lc + mbufsz lc) mod 65536 \<and>
     length (rbuf lc) = 1024 \<and> 0 \<le> rhead lc \<and> rhead lc < 1024 \<and>
     0 \<le> rbufsz lc \<and> rbufsz lc \<le> 1024 \<and> rtail lc = (rhead lc + rbufsz lc) mod 1024"

type_synonym log_entry = "loglevel \<times> u8 list"

definition texts :: "log_entry list \<Rightarrow> u8 list" where
  "texts es = concat (map (\<lambda>e. snd e @ [0]) es)"

lemma texts_simps [simp]:
  "texts [] = []" "texts (e # es) = snd e @ 0 # texts es" "texts (es @ fs) = texts es @ texts fs"
  by (simp_all add: texts_def)

text \<open>The records \<open>rs\<close> describe the messages \<open>es\<close>, whose text starts at index \<open>h\<close> of the
  ring.\<close>

fun describes :: "int \<Rightarrow> log_record list \<Rightarrow> log_entry list \<Rightarrow> bool" where
  "describes h [] [] = True"
| "describes h (r # rs) (e # es) =
     (moffset r mod 65536 = h mod 65536 \<and> level r = fst e \<and>
      describes (h + int (length (snd e)) + 1) rs es)"
| "describes h _ _ = False"

text \<open>The context holds the messages \<open>es\<close>, oldest first.\<close>

definition log_rep :: "log_context \<Rightarrow> log_entry list \<Rightarrow> bool" where
  "log_rep lc es \<longleftrightarrow>
     rings_ok lc \<and> mring lc = texts es \<and> describes (mhead lc) (rring lc) es \<and>
     (\<forall>e \<in> set es. 0 \<notin> set (snd e))"

text \<open>The same with the text of the oldest message already gone up to \<open>cs\<close>; its record is
  still there (\<open>half_rep\<close>) or gone as well (\<open>tail_rep\<close>).\<close>

definition tail_rep :: "log_context \<Rightarrow> u8 list \<Rightarrow> log_entry list \<Rightarrow> log_record list \<Rightarrow> bool" where
  "tail_rep lc cs es rs \<longleftrightarrow>
     rings_ok lc \<and> mring lc = cs @ 0 # texts es \<and> 0 \<notin> set cs \<and>
     describes (mhead lc + int (length cs) + 1) rs es \<and> (\<forall>e \<in> set es. 0 \<notin> set (snd e))"

definition half_rep :: "log_context \<Rightarrow> u8 list \<Rightarrow> log_entry list \<Rightarrow> bool" where
  "half_rep lc cs es \<longleftrightarrow> rring lc \<noteq> [] \<and> tail_rep lc cs es (tl (rring lc))"

lemma describes_length: "describes h rs es \<Longrightarrow> length rs = length es"
  by (induction h rs es rule: describes.induct) simp_all

lemma describes_cong: "h mod 65536 = k mod 65536 \<Longrightarrow> describes h rs es = describes k rs es"
proof (induction h rs es arbitrary: k rule: describes.induct)
  case (2 h r rs e es)
  have "(h + int (length (snd e)) + 1) mod 65536 = (k + int (length (snd e)) + 1) mod 65536"
    using "2.prems" by (metis mod_add_left_eq)
  then show ?case using "2.IH" [of "k + int (length (snd e)) + 1"] "2.prems" by simp
qed simp_all

lemma describes_append:
  "describes h rs es \<Longrightarrow> moffset r mod 65536 = (h + int (length (texts es))) mod 65536 \<Longrightarrow>
     describes h (rs @ [r]) (es @ [(level r, m)])"
proof (induction h rs es rule: describes.induct)
  case (2 h r' rs e es)
  then show ?case by (simp add: algebra_simps)
qed simp_all

lemma and_mask_ints: "0 \<le> x \<Longrightarrow> x AND MBUFMASK = x mod 65536" "0 \<le> x \<Longrightarrow> x AND RBUFMASK = x mod 1024"
  using take_bit_eq_mod [of 16 x] take_bit_eq_mod [of 10 x]
  by (simp_all add: MBUFMASK_def MBUFSIZE_def RBUFMASK_def RBUFSIZE_def take_bit_eq_mask
      mask_eq_exp_minus_1)

lemma skip_char_ring:
  assumes "rings_ok lc" and "mbufsz lc > 0"
  shows "rings_ok (skip_char lc)" "mring lc = mbuf lc ! nat (mhead lc) # mring (skip_char lc)"
    "rring (skip_char lc) = rring lc" "mhead (skip_char lc) mod 65536 = (mhead lc + 1) mod 65536"
    "mbuf (skip_char lc) = mbuf lc" "mbufsz (skip_char lc) = mbufsz lc - 1"
    "mtail (skip_char lc) = mtail lc"
proof -
  have h: "nat (mhead lc) < 65536" "0 \<le> mhead lc" using assms by (auto simp: rings_ok_def)
  have mh: "mhead (skip_char lc) = (mhead lc + 1) mod 65536"
    using h by (simp add: skip_char_def and_mask_ints)
  have "(mhead lc + mbufsz lc) mod 65536 = ((mhead lc + 1) mod 65536 + (mbufsz lc - 1)) mod 65536"
    by (simp add: mod_simps)
  then show "rings_ok (skip_char lc)"
    using assms by (auto simp: rings_ok_def skip_char_def and_mask_ints)
  have "nat (mbufsz lc) = Suc (nat (mbufsz lc - 1))" using assms(2) by linarith
  moreover have "nat ((mhead lc + 1) mod 65536) = (nat (mhead lc) + 1) mod 65536"
    using h by (simp add: nat_mod_distrib nat_add_distrib)
  ultimately show "mring lc = mbuf lc ! nat (mhead lc) # mring (skip_char lc)"
    using ring_list_Cons [OF h(1), of "nat (mbufsz lc - 1)" "mbuf lc"]
    by (simp add: mring_def mh) (simp add: skip_char_def)
  show "mhead (skip_char lc) mod 65536 = (mhead lc + 1) mod 65536" by (simp add: mh)
qed (simp_all add: skip_char_def rring_def)

lemma evict_record_ring:
  assumes "rings_ok lc" and "rring lc \<noteq> []"
  shows "rings_ok (evict_record lc)" "rring (evict_record lc) = tl (rring lc)"
    "mring (evict_record lc) = mring lc" "mhead (evict_record lc) = mhead lc"
    "mbuf (evict_record lc) = mbuf lc" "mbufsz (evict_record lc) = mbufsz lc"
    "mtail (evict_record lc) = mtail lc"
proof -
  have h: "nat (rhead lc) < 1024" "0 \<le> rhead lc" and n: "rbufsz lc > 0"
    using assms by (auto simp: rings_ok_def rring_def)
  have rh: "rhead (evict_record lc) = (rhead lc + 1) mod 1024"
    using h by (simp add: evict_record_def and_mask_ints)
  have "(rhead lc + rbufsz lc) mod 1024 = ((rhead lc + 1) mod 1024 + (rbufsz lc - 1)) mod 1024"
    by (simp add: mod_simps)
  then show "rings_ok (evict_record lc)"
    using assms n by (auto simp: rings_ok_def evict_record_def and_mask_ints)
  have "nat (rbufsz lc) = Suc (nat (rbufsz lc - 1))" using n by linarith
  moreover have "nat ((rhead lc + 1) mod 1024) = (nat (rhead lc) + 1) mod 1024"
    using h by (simp add: nat_mod_distrib nat_add_distrib)
  ultimately show "rring (evict_record lc) = tl (rring lc)"
    using ring_list_Cons [OF h(1), of "nat (rbufsz lc - 1)" "rbuf lc"]
    by (simp add: rring_def rh) (simp add: evict_record_def)
qed (simp_all add: evict_record_def mring_def)

section \<open>Eviction\<close>

lemma half_rep_start: "log_rep lc (e # es) \<Longrightarrow> half_rep lc (snd e) es"
  by (cases "rring lc") (simp_all add: log_rep_def half_rep_def tail_rep_def)

lemma mring_pos: "rings_ok lc \<Longrightarrow> mring lc \<noteq> [] \<Longrightarrow> mbufsz lc > 0"
  by (auto simp: mring_def rings_ok_def)

lemma mring_hd: "rings_ok lc \<Longrightarrow> mring lc = c # cs \<Longrightarrow> mbufsz lc > 0 \<and> mbuf lc ! nat (mhead lc) = c"
  using mring_pos [of lc] skip_char_ring(2) [of lc] by auto

lemma tail_skip:
  assumes "tail_rep lc (c # cs) es rs"
  shows "tail_rep (skip_char lc) cs es rs"
proof -
  have r: "rings_ok lc" "mring lc = c # cs @ 0 # texts es"
    "describes (mhead lc + int (length (c # cs)) + 1) rs es"
    using assms by (simp_all add: tail_rep_def)
  have pos: "mbufsz lc > 0" using mring_hd [OF r(1,2)] by simp
  note sk = skip_char_ring [OF r(1) pos]
  have "(mhead (skip_char lc) + (int (length cs) + 1)) mod 65536
      = (mhead lc + 1 + (int (length cs) + 1)) mod 65536"
    using sk(4) by (metis mod_add_left_eq)
  then have "describes (mhead (skip_char lc) + int (length cs) + 1) rs es
      = describes (mhead lc + int (length (c # cs)) + 1) rs es"
    by (intro describes_cong) (simp add: algebra_simps)
  then show ?thesis using assms sk r by (auto simp: tail_rep_def)
qed

lemma tail_skip0:
  assumes "tail_rep lc [] es (rring lc)"
  shows "log_rep (skip_char lc) es"
proof -
  have r: "rings_ok lc" "mring lc = 0 # texts es" "describes (mhead lc + 1) (rring lc) es"
    using assms by (simp_all add: tail_rep_def)
  have pos: "mbufsz lc > 0" using mring_hd [OF r(1,2)] by simp
  note sk = skip_char_ring [OF r(1) pos]
  show ?thesis
    using assms sk r describes_cong [OF sk(4)] by (simp add: log_rep_def tail_rep_def)
qed

lemma tail_head:
  assumes "tail_rep lc cs es rs"
  shows "mbufsz lc > 0" "mbuf lc ! nat (mhead lc) = (case cs of [] \<Rightarrow> 0 | c # _ \<Rightarrow> c)"
  using assms mring_hd [of lc] by (cases cs; simp add: tail_rep_def)+

lemma half_evict_record:
  "half_rep lc cs es \<Longrightarrow> tail_rep (evict_record lc) cs es (rring (evict_record lc))"
  using evict_record_ring [of lc] by (simp add: half_rep_def tail_rep_def)

lemma evict_oldest_rep:
  "tail_rep lc cs es (rring lc) \<Longrightarrow> log_rep (evict_oldest_msg lc) es"
proof (induction cs arbitrary: lc)
  case Nil
  then show ?case
    using tail_head [OF Nil] tail_skip0 [OF Nil] by (simp add: evict_oldest_msg.simps [of lc])
next
  case (Cons c cs)
  have "c \<noteq> 0" using Cons.prems by (auto simp: tail_rep_def)
  moreover have "rring (skip_char lc) = rring lc" by (simp add: skip_char_def rring_def)
  ultimately show ?case
    using tail_head [OF Cons.prems] tail_skip [OF Cons.prems] Cons.IH [of "skip_char lc"]
    by (simp add: evict_oldest_msg.simps [of lc])
qed

lemma skip_evict: "skip_char (evict_record lc) = evict_record (skip_char lc)"
  by (simp add: skip_char_def evict_record_def)

lemma half_skip0: "half_rep lc [] es \<Longrightarrow> log_rep (skip_char (evict_record lc)) es"
  by (rule tail_skip0 [OF half_evict_record])

lemma half_skip: "half_rep lc (c # cs) es \<Longrightarrow> half_rep (skip_char lc) cs es"
  using tail_skip [of lc c cs es "tl (rring lc)"]
  by (simp add: half_rep_def) (simp add: skip_char_def rring_def)

lemma half_head:
  assumes "half_rep lc cs es"
  shows "mbufsz lc > 0" "mbuf lc ! nat (mhead lc) = (case cs of [] \<Rightarrow> 0 | c # _ \<Rightarrow> c)" "0 \<notin> set cs"
  using assms tail_head [of lc cs es] by (auto simp: half_rep_def tail_rep_def)

lemma evict_rest_half: "half_rep lc cs es \<Longrightarrow> log_rep (evict_rest lc) es"
proof (induction cs arbitrary: lc)
  case Nil
  then show ?case
    using half_head [OF Nil] half_skip0 [OF Nil] by (simp add: evict_rest.simps [of lc] skip_evict)
next
  case (Cons c cs)
  then show ?case
    using half_head [OF Cons.prems] Cons.IH [OF half_skip [OF Cons.prems]]
    by (simp add: evict_rest.simps [of lc])
qed

text \<open>What \<open>evict_msg n\<close> drops: every message a part of whose text is among the first \<open>n\<close>
  characters, and then up to the next terminator.\<close>

fun drop_msgs :: "nat \<Rightarrow> log_entry list \<Rightarrow> log_entry list" where
  "drop_msgs n [] = []"
| "drop_msgs n (e # es) =
     (if n \<le> length (snd e) then es else drop_msgs (n - length (snd e) - 1) es)"

lemma evict_half:
  assumes "half_rep lc cs es"
    and "\<And>lc' k. log_rep lc' es \<Longrightarrow> log_rep (evict_rest (evict_chars k lc')) (drop_msgs k es)"
  shows "log_rep (evict_rest (evict_chars n lc))
     (if n \<le> length cs then es else drop_msgs (n - length cs - 1) es)"
  using assms(1)
proof (induction cs arbitrary: lc n)
  case Nil
  show ?case
  proof (cases n)
    case 0
    then show ?thesis using evict_rest_half [OF Nil] by simp
  next
    case (Suc k)
    then show ?thesis
      using half_head [OF Nil] assms(2) [OF half_skip0 [OF Nil], of k] by simp
  qed
next
  case (Cons c cs)
  show ?case
  proof (cases n)
    case 0
    then show ?thesis using evict_rest_half [OF Cons.prems] by simp
  next
    case (Suc k)
    then show ?thesis
      using half_head [OF Cons.prems] Cons.IH [OF half_skip [OF Cons.prems], of k]
      by (simp split: if_splits)
  qed
qed

lemma evict_rep: "log_rep lc es \<Longrightarrow> log_rep (evict_rest (evict_chars n lc)) (drop_msgs n es)"
proof (induction es arbitrary: lc n)
  case Nil
  then have "mbufsz lc = 0" by (auto simp: log_rep_def mring_def rings_ok_def)
  then have "evict_rest (evict_chars n lc) = lc"
    by (cases n) (simp_all add: evict_rest.simps [of lc])
  with Nil show ?case by simp
next
  case (Cons e es)
  from evict_half [OF half_rep_start [OF Cons.prems] Cons.IH] show ?case by simp
qed

lemma drop_msgs_suffix: "\<exists>k. drop_msgs n es = drop k es"
proof (induction n es rule: drop_msgs.induct)
  case (2 n e es)
  show ?case
  proof (cases "n \<le> length (snd e)")
    case True
    then have "drop_msgs n (e # es) = drop 1 (e # es)" by simp
    then show ?thesis by blast
  next
    case False
    then obtain k where "drop_msgs n (e # es) = drop (Suc k) (e # es)" using 2 by auto
    then show ?thesis by blast
  qed
qed simp

lemma drop_msgs_room:
  "drop_msgs n es \<noteq> [] \<Longrightarrow> length (texts (drop_msgs n es)) + n \<le> length (texts es)"
  by (induction n es rule: drop_msgs.induct) auto

section \<open>Adding a message\<close>

text \<open>Eviction leaves the tail of the text and the callbacks alone.\<close>

definition same_frame :: "log_context \<Rightarrow> log_context \<Rightarrow> bool" where
  "same_frame lc lc' \<longleftrightarrow> mtail lc' = mtail lc \<and> callbacks lc' = callbacks lc
     \<and> callbacks_size lc' = callbacks_size lc"

lemma same_frame_trans: "same_frame a b \<Longrightarrow> same_frame b c \<Longrightarrow> same_frame a c"
  by (simp add: same_frame_def)

lemma same_frame_steps [simp]:
  "same_frame lc lc" "same_frame lc (skip_char lc)" "same_frame lc (evict_record lc)"
  by (simp_all add: same_frame_def skip_char_def evict_record_def)

lemma same_frame_skip_evict [simp]: "same_frame lc (skip_char (evict_record lc))"
  by (simp add: same_frame_def skip_char_def evict_record_def)

lemma evict_chars_frame: "same_frame lc (evict_chars n lc)"
proof (induction n lc rule: evict_chars.induct)
  case (2 n lc)
  then show ?case
    using same_frame_trans [of lc "skip_char lc"] same_frame_trans [of lc "skip_char (evict_record lc)"]
    by (cases "mbuf lc ! nat (mhead lc) = 0") simp_all
qed simp

lemma evict_rest_frame: "same_frame lc (evict_rest lc)"
proof (induction lc rule: evict_rest.induct)
  case (1 lc)
  show ?case
    using 1 same_frame_trans [of lc "skip_char lc"]
    by (simp add: evict_rest.simps [of lc])
qed

lemma evict_oldest_frame: "same_frame lc (evict_oldest_msg lc)"
proof (induction lc rule: evict_oldest_msg.induct)
  case (1 lc)
  show ?case
    using 1 same_frame_trans [of lc "skip_char lc"]
    by (simp add: evict_oldest_msg.simps [of lc])
qed

lemma evict_msg_frame: "same_frame lc (evict_msg n lc)"
  unfolding evict_msg_def using same_frame_trans evict_chars_frame evict_rest_frame by blast

lemma rep_room: "log_rep lc es \<Longrightarrow> mbufsz lc = int (length (texts es))"
  by (metis (no_types, lifting) int_nat_eq log_rep_def mring_def ring_list_length rings_ok_def)

text \<open>The messages that survive making room for \<open>n\<close> more characters.\<close>

definition make_room :: "nat \<Rightarrow> log_entry list \<Rightarrow> log_entry list" where
  "make_room n es =
     (if length (texts es) + n > 65536 then drop_msgs (length (texts es) + n - 65536) es else es)"

lemma make_room_fits: "n \<le> 65536 \<Longrightarrow> length (texts (make_room n es)) + n \<le> 65536"
  using drop_msgs_room [of "length (texts es) + n - 65536" es]
  by (cases "drop_msgs (length (texts es) + n - 65536) es = []") (auto simp: make_room_def)

text \<open>The new text is in place, its record is not.\<close>

definition pend_rep :: "log_context \<Rightarrow> log_entry list \<Rightarrow> u8 list \<Rightarrow> int \<Rightarrow> bool" where
  "pend_rep lc es str off \<longleftrightarrow>
     rings_ok lc \<and> mring lc = texts es @ str @ [0] \<and> describes (mhead lc) (rring lc) es \<and>
     (\<forall>e \<in> set es. 0 \<notin> set (snd e)) \<and>
     off mod 65536 = (mhead lc + int (length (texts es))) mod 65536"

lemma copy_text:
  assumes rep: "log_rep lc es" and room: "length (texts es) + length str + 1 \<le> 65536"
  defines "schars \<equiv> int (length str) + 1" and "text \<equiv> str @ [0]"
  shows "mtail lc + schars \<le> 65536 \<Longrightarrow>
      \<exists>b. copy_in (mtail lc) text (mbuf lc) = Some b \<and>
        pend_rep (lc\<lparr>mbuf := b, mtail := mtail lc + schars, mbufsz := mbufsz lc + schars\<rparr>)
          es str (mtail lc)"
    and "mtail lc + schars > 65536 \<Longrightarrow>
      \<exists>b b'. copy_in (mtail lc) (take (nat (65536 - mtail lc)) text) (mbuf lc) = Some b \<and>
        copy_in 0 (drop (nat (65536 - mtail lc)) text) b = Some b' \<and>
        pend_rep (lc\<lparr>mbuf := b', mtail := schars - (65536 - mtail lc), mbufsz := mbufsz lc + schars\<rparr>)
          es str (mtail lc)"
proof -
  define h n t where "h = nat (mhead lc)" and "n = length (texts es)" and "t = nat (mtail lc)"
  have ok: "rings_ok lc" "mring lc = texts es" "describes (mhead lc) (rring lc) es"
    "\<forall>e \<in> set es. 0 \<notin> set (snd e)" using rep by (simp_all add: log_rep_def)
  have sz: "mbufsz lc = int n" using rep_room [OF rep] by (simp add: n_def)
  have ints: "mhead lc = int h" "mtail lc = int t" "t \<le> 65536" "h < 65536"
    using ok(1) by (auto simp: rings_ok_def h_def t_def)
  have len: "length (mbuf lc) = 65536" using ok(1) by (simp add: rings_ok_def)
  have "int t mod 65536 = (int h + int n) mod 65536"
    using ok(1) ints sz by (simp add: rings_ok_def)
  then have "int (t mod 65536) = int ((h + n) mod 65536)" by (simp add: zmod_int)
  then have tm: "t mod 65536 = (h + n) mod 65536" by (simp only: of_nat_eq_iff)
  have fit: "n + length text \<le> 65536" using room by (simp add: n_def text_def)
  have ring0: "ring_list 65536 h n (mbuf lc) = texts es"
    using ok(2) sz by (simp add: mring_def h_def)
  have off: "mtail lc mod 65536 = (mhead lc + int (length (texts es))) mod 65536"
    using ok(1) sz by (simp add: rings_ok_def n_def)
  have tail: "mtail lc mod 65536 = (mhead lc + mbufsz lc) mod 65536"
    using ok(1) by (simp only: rings_ok_def)
  have pend: "pend_rep (lc\<lparr>mbuf := b, mtail := tl', mbufsz := mbufsz lc + schars\<rparr>) es str (mtail lc)"
    if "length b = 65536" "ring_list 65536 h (n + length text) b = texts es @ text"
      "0 \<le> tl'" "tl' \<le> 65536" "tl' mod 65536 = (mtail lc + schars) mod 65536" for b tl'
  proof -
    have "(mtail lc + schars) mod 65536 = (mhead lc + (mbufsz lc + schars)) mod 65536"
      using mod_add_cong [OF tail refl, of schars] by (simp only: add.assoc)
    moreover have "nat (mbufsz lc + schars) = n + length text"
      by (simp add: sz schars_def text_def nat_add_distrib)
    moreover have "mbufsz lc + schars \<le> 65536" using fit by (simp add: sz schars_def text_def)
    ultimately show ?thesis
      using that ok sz off
      by (simp add: pend_rep_def rings_ok_def mring_def rring_def h_def text_def schars_def)
  qed
  {
    assume "mtail lc + schars \<le> 65536"
    then have le: "t + length text \<le> 65536" using ints by (simp add: schars_def text_def)
    let ?b = "take t (mbuf lc) @ text @ drop (t + length text) (mbuf lc)"
    have "copy_in (mtail lc) text (mbuf lc) = Some ?b" using le ints len by (simp add: copy_in_def)
    moreover have "ring_list 65536 h (n + length text) ?b = texts es @ text"
      using ring_copy_whole [OF len le tm fit] ring0 by (simp add: text_def)
    ultimately show "\<exists>b. copy_in (mtail lc) text (mbuf lc) = Some b \<and>
        pend_rep (lc\<lparr>mbuf := b, mtail := mtail lc + schars, mbufsz := mbufsz lc + schars\<rparr>)
          es str (mtail lc)"
      using pend [of ?b "mtail lc + schars"] le len ints by (simp add: schars_def text_def)
  next
    assume "mtail lc + schars > 65536"
    then have gt: "65536 < t + length text" using ints by (simp add: schars_def text_def)
    define a where "a = 65536 - t"
    have a: "nat (65536 - mtail lc) = a" using ints by (simp add: a_def)
    have al: "a < length text" "t + a = 65536" using gt ints by (auto simp: a_def)
    let ?b = "take t (mbuf lc) @ take a text"
    let ?b' = "drop a text @ drop (length text - a) ?b"
    have lb: "length ?b = 65536" using al ints len by simp
    have "copy_in (mtail lc) (take a text) (mbuf lc) = Some ?b"
      using al ints len by (simp add: copy_in_def)
    moreover have "copy_in 0 (drop a text) ?b = Some ?b'"
      using lb fit by (simp add: copy_in_def)
    moreover have "ring_list 65536 h (n + length text) ?b' = texts es @ text"
      using ring_copy_split [OF len ints(3) gt tm fit] ring0 by (simp add: a_def)
    moreover have "length ?b' = 65536" using lb al fit by simp
    moreover have "schars - (65536 - mtail lc) \<le> 65536" "0 \<le> schars - (65536 - mtail lc)"
      using fit gt ints by (auto simp: schars_def text_def)
    moreover have "(schars - (65536 - mtail lc)) mod 65536 = (mtail lc + schars) mod 65536"
      using minus_mod_self2 [of "mtail lc + schars" 65536] by (simp add: algebra_simps)
    ultimately have "copy_in (mtail lc) (take a text) (mbuf lc) = Some ?b"
      "copy_in 0 (drop a text) ?b = Some ?b'"
      "pend_rep (lc\<lparr>mbuf := ?b', mtail := schars - (65536 - mtail lc), mbufsz := mbufsz lc + schars\<rparr>)
          es str (mtail lc)"
      by (simp_all only: pend)
    then show "\<exists>b b'. copy_in (mtail lc) (take (nat (65536 - mtail lc)) text) (mbuf lc) = Some b \<and>
        copy_in 0 (drop (nat (65536 - mtail lc)) text) b = Some b' \<and>
        pend_rep (lc\<lparr>mbuf := b', mtail := schars - (65536 - mtail lc), mbufsz := mbufsz lc + schars\<rparr>)
          es str (mtail lc)"
      unfolding a by (intro exI conjI)
  }
qed

lemma add_msg_rep:
  assumes rep: "log_rep lc es" and len: "length str < 65536"
  shows "\<exists>off lc'. add_msg str lc = Some (off, lc') \<and>
      pend_rep lc' (make_room (length str + 1) es) str off \<and>
      callbacks lc' = callbacks lc \<and> callbacks_size lc' = callbacks_size lc"
proof -
  let ?n = "length str + 1"
  define schars where "schars = int (length str) + 1"
  define lc1 where "lc1 = (if mbufsz lc + schars > MBUFSIZE
      then evict_msg (mbufsz lc + schars - MBUFSIZE) lc else lc)"
  have sz: "mbufsz lc = int (length (texts es))" by (rule rep_room [OF rep])
  have nat: "nat (mbufsz lc + schars - MBUFSIZE) = length (texts es) + ?n - 65536"
    by (simp add: sz schars_def MBUFSIZE_def)
  have rep1: "log_rep lc1 (make_room ?n es)"
  proof (cases "mbufsz lc + schars > MBUFSIZE")
    case True
    then show ?thesis
      using evict_rep [OF rep, of "length (texts es) + ?n - 65536"] nat sz
      by (simp add: lc1_def evict_msg_def make_room_def schars_def MBUFSIZE_def)
  next
    case False
    then show ?thesis using rep sz by (simp add: lc1_def make_room_def schars_def MBUFSIZE_def)
  qed
  have fr: "mtail lc1 = mtail lc" "callbacks lc1 = callbacks lc" "callbacks_size lc1 = callbacks_size lc"
    using evict_msg_frame by (auto simp: lc1_def same_frame_def)
  have room: "length (texts (make_room ?n es)) + length str + 1 \<le> 65536"
    using make_room_fits [of ?n es] len by simp
  note copy = copy_text [OF rep1 room, folded schars_def]
  show ?thesis
  proof (cases "mtail lc1 + schars > MBUFSIZE")
    case True
    then have "mtail lc1 + schars > 65536" by (simp add: MBUFSIZE_def)
    from copy(2) [OF this] obtain b b' where
      "copy_in (mtail lc1) (take (nat (65536 - mtail lc1)) (str @ [0])) (mbuf lc1) = Some b"
      "copy_in 0 (drop (nat (65536 - mtail lc1)) (str @ [0])) b = Some b'"
      "pend_rep (lc1\<lparr>mbuf := b', mtail := schars - (65536 - mtail lc1), mbufsz := mbufsz lc1 + schars\<rparr>)
         (make_room ?n es) str (mtail lc1)" by blast
    then show ?thesis
      using True fr unfolding add_msg_def Let_def schars_def [symmetric] lc1_def [symmetric]
      by (simp add: MBUFSIZE_def)
  next
    case False
    then have "mtail lc1 + schars \<le> 65536" by (simp add: MBUFSIZE_def)
    from copy(1) [OF this] obtain b where
      "copy_in (mtail lc1) (str @ [0]) (mbuf lc1) = Some b"
      "pend_rep (lc1\<lparr>mbuf := b, mtail := mtail lc1 + schars, mbufsz := mbufsz lc1 + schars\<rparr>)
         (make_room ?n es) str (mtail lc1)" by blast
    then show ?thesis
      using False fr unfolding add_msg_def Let_def schars_def [symmetric] lc1_def [symmetric]
      by simp
  qed
qed

definition put_record :: "log_record \<Rightarrow> log_context \<Rightarrow> log_context" where
  "put_record r lc = lc\<lparr>rbuf := (rbuf lc)[nat (rtail lc) := r],
     rtail := (rtail lc + 1) AND RBUFMASK, rbufsz := rbufsz lc + 1\<rparr>"

lemma put_record_ring:
  assumes "rings_ok lc" and "rbufsz lc < 1024"
  shows "rings_ok (put_record r lc)" "rring (put_record r lc) = rring lc @ [r]"
    "mring (put_record r lc) = mring lc" "mhead (put_record r lc) = mhead lc"
proof -
  have h: "0 \<le> rhead lc" "rhead lc < 1024" "0 \<le> rbufsz lc" "length (rbuf lc) = 1024"
    and t: "rtail lc = (rhead lc + rbufsz lc) mod 1024" using assms(1) by (auto simp: rings_ok_def)
  have "(rtail lc + 1) mod 1024 = (rhead lc + (rbufsz lc + 1)) mod 1024"
    by (simp add: t mod_simps add.assoc)
  then show "rings_ok (put_record r lc)"
    using assms h t by (simp add: rings_ok_def put_record_def and_mask_ints)
  have "nat (rtail lc) = (nat (rhead lc) + nat (rbufsz lc)) mod 1024"
    using h t by (simp add: nat_mod_distrib nat_add_distrib)
  then show "rring (put_record r lc) = rring lc @ [r]"
    using ring_list_snoc [OF h(4), of "nat (rbufsz lc)" "nat (rhead lc)" r] assms(2) h
    by (simp add: rring_def put_record_def nat_add_distrib)
qed (simp_all add: put_record_def mring_def)

lemma skip_put: "skip_char (put_record r lc) = put_record r (skip_char lc)"
  by (simp add: skip_char_def put_record_def)

lemma evict_oldest_put: "evict_oldest_msg (put_record r lc) = put_record r (evict_oldest_msg lc)"
proof (induction lc rule: evict_oldest_msg.induct)
  case (1 lc)
  have "mbufsz (put_record r lc) = mbufsz lc" "mbuf (put_record r lc) = mbuf lc"
    "mhead (put_record r lc) = mhead lc" by (simp_all add: put_record_def)
  then show ?case
    using 1 by (simp add: evict_oldest_msg.simps [of lc] evict_oldest_msg.simps [of "put_record r lc"] skip_put)
qed

lemma add_record_unfold:
  "add_record off lev str lc =
     (let lc1 = (if rbufsz lc = RBUFSIZE then evict_oldest_msg (evict_record lc) else lc);
          lc2 = put_record \<lparr>level = lev, moffset = off\<rparr> lc1
      in (lc2, issue_callbacks lev str lc2))"
  unfolding add_record_def put_record_def Let_def ..

lemma pend_count: "pend_rep lc es str off \<Longrightarrow> rbufsz lc = int (length es)"
proof -
  assume p: "pend_rep lc es str off"
  have "length (rring lc) = length es" using p describes_length unfolding pend_rep_def by blast
  moreover have "length (rring lc) = nat (rbufsz lc)" by (simp add: rring_def)
  moreover have "0 \<le> rbufsz lc" using p unfolding pend_rep_def rings_ok_def by blast
  ultimately show ?thesis by simp
qed

text \<open>The oldest message makes way when 1024 are stored.\<close>

definition keep_1023 :: "log_entry list \<Rightarrow> log_entry list" where
  "keep_1023 es = (if length es = 1024 then tl es else es)"

lemma add_record_rep:
  assumes "pend_rep lc es str off" and "0 \<notin> set str"
  shows "\<exists>lc'. add_record off lev str lc = (lc', issue_callbacks lev str lc) \<and>
     log_rep lc' (keep_1023 es @ [(lev, str)]) \<and>
     callbacks lc' = callbacks lc \<and> callbacks_size lc' = callbacks_size lc"
proof -
  let ?r = "\<lparr>level = lev, moffset = off\<rparr>"
  have p: "rings_ok lc" "mring lc = texts es @ str @ [0]" "describes (mhead lc) (rring lc) es"
    "\<forall>e \<in> set es. 0 \<notin> set (snd e)" "off mod 65536 = (mhead lc + int (length (texts es))) mod 65536"
    using assms(1) by (simp_all add: pend_rep_def)
  have n: "rbufsz lc = int (length es)" by (rule pend_count [OF assms(1)])
  define lc1 where "lc1 = (if rbufsz lc = RBUFSIZE then evict_oldest_msg (evict_record lc) else lc)"
  have fr: "callbacks (put_record ?r lc1) = callbacks lc"
    "callbacks_size (put_record ?r lc1) = callbacks_size lc"
    using evict_oldest_frame [of "evict_record lc"]
    by (auto simp: lc1_def put_record_def same_frame_def evict_record_def)
  have "log_rep (put_record ?r lc1) (keep_1023 es @ [(lev, str)])"
  proof (cases "length es = 1024")
    case False
    then have lc1: "lc1 = lc" using n by (simp add: lc1_def RBUFSIZE_def)
    have lt: "rbufsz lc < 1024" using p(1) n False by (auto simp: rings_ok_def)
    have "describes (mhead lc) (rring lc @ [?r]) (es @ [(lev, str)])"
      using describes_append [OF p(3), of ?r] p(5) by simp
    then show ?thesis
      using put_record_ring [OF p(1) lt, of ?r] p assms(2) False
      by (simp add: log_rep_def lc1 keep_1023_def)
  next
    case True
    then obtain e es' where es: "es = e # es'" by (cases es) auto
    then obtain r rs where rr: "rring lc = r # rs" using p(3) by (cases "rring lc") auto
    have ev: "rings_ok (evict_record lc)" "rring (evict_record lc) = rs"
      "mring (evict_record lc) = mring lc" "mhead (evict_record lc) = mhead lc"
      using evict_record_ring [OF p(1)] rr by auto
    have lt: "rbufsz (evict_record lc) < 1024" using n True by (simp add: evict_record_def)
    let ?lc = "put_record ?r (evict_record lc)"
    note put = put_record_ring [OF ev(1) lt, of ?r]
    let ?h = "mhead lc + int (length (snd e)) + 1"
    have "mhead lc + int (length (texts es)) = ?h + int (length (texts es'))" by (simp add: es)
    then have "moffset ?r mod 65536 = (?h + int (length (texts es'))) mod 65536" using p(5) by (simp only: log_record.simps)
    moreover have "describes ?h rs es'" using p(3) es rr by simp
    ultimately have "describes ?h (rs @ [?r]) (es' @ [(lev, str)])"
      using describes_append [of ?h rs es' ?r str] by simp
    then have "tail_rep ?lc (snd e) (es' @ [(lev, str)]) (rring ?lc)"
      using put ev p assms(2) es by (auto simp: tail_rep_def)
    from evict_oldest_rep [OF this] show ?thesis
      using True es n by (simp add: lc1_def RBUFSIZE_def evict_oldest_put keep_1023_def)
  qed
  moreover have "add_record off lev str lc = (put_record ?r lc1, issue_callbacks lev str lc)"
    using fr by (simp add: add_record_unfold lc1_def [symmetric] Let_def issue_callbacks_def)
  ultimately show ?thesis using fr by blast
qed

text \<open>What \<open>log\<close> does to the messages.\<close>

definition log_spec :: "loglevel \<Rightarrow> u8 list \<Rightarrow> log_entry list \<Rightarrow> log_entry list" where
  "log_spec lev str es = keep_1023 (make_room (length str + 1) es) @ [(lev, str)]"

lemma log_rep_step:
  assumes "log_rep lc es" "length str < 65536" "0 \<notin> set str"
  shows "\<exists>lc'. log lev str lc = Some (lc', issue_callbacks lev str lc) \<and>
     log_rep lc' (log_spec lev str es) \<and>
     callbacks lc' = callbacks lc \<and> callbacks_size lc' = callbacks_size lc"
proof -
  from add_msg_rep [OF assms(1,2)] obtain off lc1 where
    a: "add_msg str lc = Some (off, lc1)" "pend_rep lc1 (make_room (length str + 1) es) str off"
      "callbacks lc1 = callbacks lc" "callbacks_size lc1 = callbacks_size lc" by blast
  from add_record_rep [OF a(2) assms(3), of lev] a show ?thesis
    by (auto simp: log_def log_spec_def issue_callbacks_def)
qed

lemma log_boot_rep: "log_rep log_boot []"
  by (simp add: log_rep_def log_boot_def rings_ok_def mring_def rring_def)

text \<open>A sequence of calls of \<open>log\<close>.\<close>

fun log_run :: "log_entry list \<Rightarrow> log_context \<Rightarrow> log_context option" where
  "log_run [] lc = Some lc"
| "log_run (e # es) lc = do { (lc, outs) \<leftarrow> log (fst e) (snd e) lc; log_run es lc }"

lemma log_spec_suffix: "\<exists>k. log_spec lev str es = drop k (es @ [(lev, str)]) \<and> k \<le> length es"
proof -
  obtain j where j: "make_room (length str + 1) es = drop j es"
    using drop_msgs_suffix [of "length (texts es) + (length str + 1) - 65536" es] drop_0 [of es]
    unfolding make_room_def by metis
  obtain k where k: "keep_1023 (drop j es) = drop k es"
    unfolding keep_1023_def by (metis drop_Suc tl_drop)
  then have "log_spec lev str es = drop (min k (length es)) (es @ [(lev, str)])"
    unfolding log_spec_def j k by (simp add: min_def)
  then show ?thesis by (meson min.cobounded2)
qed

section \<open>Properties\<close>

text \<open>C10: one call of \<open>log\<close> on a context that holds the messages \<open>es\<close> stays inside its
  buffers, drops from the old end the messages \<open>make_room\<close> and \<open>keep_1023\<close> say, appends the
  new message with its record, and issues the registered callbacks.\<close>

theorem log_refines:
  assumes "log_rep lc es" and "length str < 65536" and "0 \<notin> set str"
  shows "\<exists>lc'. log lev str lc = Some (lc', issue_callbacks lev str lc) \<and>
           log_rep lc' (keep_1023 (make_room (length str + 1) es) @ [(lev, str)])"
  using log_rep_step [OF assms, of lev] by (auto simp: log_spec_def)

theorem log_refines_witness:
  "\<exists>lc'. log LOG_INFO [72, 105] log_boot = Some (lc', []) \<and> log_rep lc' [(LOG_INFO, [72, 105])]"
  using log_refines [OF log_boot_rep, of "[72, 105]" LOG_INFO]
  by (simp add: make_room_def keep_1023_def issue_callbacks_def log_boot_def)

text \<open>C11: whatever is logged since boot, in strings below 64 KiB, every call returns, and the
  log holds the newest messages in order, at most 1024 of them and at most 65536 characters
  with their terminators, the last one logged always among them.\<close>

theorem log_holds_newest:
  assumes "\<forall>e \<in> set es. length (snd e) < 65536 \<and> 0 \<notin> set (snd e)"
  shows "\<exists>lc k. log_run es log_boot = Some lc \<and> log_rep lc (drop k es) \<and>
           (es = [] \<or> k < length es) \<and> length (drop k es) \<le> 1024 \<and>
           length (texts (drop k es)) \<le> 65536"
proof -
  have "\<exists>lc' k. log_run es lc = Some lc' \<and> log_rep lc' (drop k (fs @ es)) \<and>
      (es = [] \<or> k < length (fs @ es))"
    if "log_rep lc fs" for lc fs
    using assms that
  proof (induction es arbitrary: lc fs)
    case Nil
    then show ?case by (auto intro!: exI [of _ 0])
  next
    case (Cons e es)
    from log_rep_step [OF Cons.prems(2), of "snd e" "fst e"] Cons.prems(1) obtain lc1 outs where
      l: "log (fst e) (snd e) lc = Some (lc1, outs)" "log_rep lc1 (log_spec (fst e) (snd e) fs)"
      by auto
    obtain j where j: "log_spec (fst e) (snd e) fs = drop j (fs @ [e])" "j \<le> length fs"
      using log_spec_suffix [of "fst e" "snd e" fs] by auto
    from Cons.IH [OF _ l(2)] Cons.prems(1) obtain lc' k where
      k: "log_run es lc1 = Some lc'" "log_rep lc' (drop k (drop j (fs @ [e]) @ es))"
        "es = [] \<or> k < length (drop j (fs @ [e]) @ es)"
      using j by auto
    have "drop j (fs @ [e]) @ es = drop j (fs @ e # es)" using j(2) by simp
    then have d: "drop k (drop j (fs @ [e]) @ es) = drop (k + j) (fs @ e # es)"
      by (simp only: drop_drop)
    show ?case
    proof (cases "es = []")
      case True
      then show ?thesis using l k(1) j by (auto intro!: exI [of _ j])
    next
      case False
      then show ?thesis using l k d j(2) by auto
    qed
  qed
  from this [OF log_boot_rep] obtain lc k where
    lk: "log_run es log_boot = Some lc" "log_rep lc (drop k es)" "es = [] \<or> k < length es" by auto
  have r: "rings_ok lc" "describes (mhead lc) (rring lc) (drop k es)"
    using lk(2) by (simp_all add: log_rep_def)
  have "length (rring lc) \<le> 1024" using r(1) by (auto simp: rings_ok_def rring_def)
  then have "length (drop k es) \<le> 1024" using describes_length [OF r(2)] by simp
  moreover have "length (texts (drop k es)) \<le> 65536"
    using rep_room [OF lk(2)] r(1) by (simp add: rings_ok_def)
  ultimately show ?thesis using lk by blast
qed

theorem log_holds_newest_witness:
  "\<exists>lc k. log_run [(LOG_ERR, [65]), (LOG_INFO, [66])] log_boot = Some lc
     \<and> log_rep lc (drop k [(LOG_ERR, [65]), (LOG_INFO, [66])]) \<and> k < 2"
  using log_holds_newest [of "[(LOG_ERR, [65]), (LOG_INFO, [66])]"] by force

text \<open>C12: \<open>evict_msg\<close> evicts one message too many when the characters to free end exactly at
  a message boundary: freeing the oldest message alone would make room, and the second
  oldest is dropped with it.\<close>

theorem log_overevicts:
  assumes "log_rep lc (e1 # e2 # es)" and "0 \<notin> set str" and "length str < 65536"
    and "length (texts (e1 # e2 # es)) + length str + 1 = 65536 + length (snd e1) + 1"
    and "length es < 1024"
  shows "\<exists>lc'. log lev str lc = Some (lc', issue_callbacks lev str lc) \<and> log_rep lc' (es @ [(lev, str)])"
proof -
  have "length (texts (e1 # e2 # es)) + (length str + 1) - 65536 = length (snd e1) + 1"
    using assms(4) by simp
  moreover have "length (texts (e1 # e2 # es)) + (length str + 1) > 65536" using assms(4) by simp
  ultimately have "make_room (length str + 1) (e1 # e2 # es) = es"
    unfolding make_room_def by (simp only: if_True drop_msgs.simps) simp
  then have "log_spec lev str (e1 # e2 # es) = es @ [(lev, str)]"
    using assms(5) unfolding log_spec_def by (simp add: keep_1023_def)
  then show ?thesis using log_rep_step [OF assms(1,3,2), of lev] by auto
qed

definition half_full :: "u8 list" where "half_full = replicate 32767 0x61"

theorem log_overevicts_witness:
  "\<exists>lc lc'. log_run [(LOG_ERR, half_full), (LOG_INFO, half_full)] log_boot = Some lc \<and>
     log LOG_INFO half_full lc = Some (lc', issue_callbacks LOG_INFO half_full lc) \<and>
     log_rep lc' [(LOG_INFO, half_full)]"
proof -
  have h: "length half_full = 32767" "0 \<notin> set half_full" by (simp_all add: half_full_def)
  from log_rep_step [OF log_boot_rep, of half_full LOG_ERR] h obtain lc1 outs1 where
    1: "log LOG_ERR half_full log_boot = Some (lc1, outs1)" "log_rep lc1 [(LOG_ERR, half_full)]"
    by (auto simp: log_spec_def make_room_def keep_1023_def)
  from log_rep_step [OF 1(2), of half_full LOG_INFO] h obtain lc2 outs2 where
    2: "log LOG_INFO half_full lc1 = Some (lc2, outs2)"
      "log_rep lc2 [(LOG_ERR, half_full), (LOG_INFO, half_full)]"
    by (auto simp: log_spec_def make_room_def keep_1023_def)
  from log_overevicts [OF 2(2) h(2), of LOG_INFO] h obtain lc3 where
    3: "log LOG_INFO half_full lc2 = Some (lc3, issue_callbacks LOG_INFO half_full lc2)"
      "log_rep lc3 [(LOG_INFO, half_full)]" by auto
  have "log_run [(LOG_ERR, half_full), (LOG_INFO, half_full)] log_boot = Some lc2"
    using 1(1) 2(1) by simp
  with 3 show ?thesis by blast
qed

text \<open>A registered callback is issued, after those registered before it, for the messages
  at or below its level; the ninth registration is ignored.\<close>

lemma log_addcallback_issues:
  assumes "0 \<le> callbacks_size lc" and "callbacks_size lc \<le> 8" and "length (callbacks lc) = 8"
  shows "issue_callbacks lev str (log_addcallback maxl f lc) =
     issue_callbacks lev str lc
       @ (if callbacks_size lc < 8 \<and> lev \<le> maxl then [(f, lev, str)] else [])"
proof (cases "callbacks_size lc = 8")
  case False
  then have n: "nat (callbacks_size lc) < length (callbacks lc)"
    "nat (callbacks_size lc + 1) = Suc (nat (callbacks_size lc))" using assms by auto
  then show ?thesis
    using False assms by (simp add: log_addcallback_def issue_callbacks_def MAX_CALLBACKS_def
        take_Suc_conv_app_nth)
qed (simp add: log_addcallback_def issue_callbacks_def MAX_CALLBACKS_def)

text \<open>\<open>log_removecallback\<close> does not remove: it moves the later entries down but never
  lowers the count, so removing the callback registered last changes nothing and the
  callback is still called.\<close>

lemma log_removecallback_keeps:
  assumes "callbacks_size lc = int (Suc n)" and "Suc n \<le> length (callbacks lc)"
    and "cb (callbacks lc ! n) = f" and "\<forall>i < n. cb (callbacks lc ! i) \<noteq> f"
  shows "log_removecallback f lc = lc"
proof -
  have "remove_from i f lc = lc" if "i \<le> n" for i
    using that
  proof (induction "n - i" arbitrary: i)
    case 0
    then have "i = n" by simp
    moreover have "int n < callbacks_size lc" "nat (callbacks_size lc - (int n + 1)) = 0"
      using assms(1) by simp_all
    ultimately show ?case
      using assms(3) by (simp add: remove_from.simps [of n] move_down_def)
  next
    case (Suc d)
    then have "i < n" "d = n - Suc i" by auto
    with Suc(1) [of "Suc i"] assms(1,4) show ?case
      by (simp add: remove_from.simps [of i])
  qed
  then show ?thesis by (simp add: log_removecallback_def)
qed

end
