(* ===== verification/Output.thy ===== *)
theory Output
  imports Printf Cstring Log Tty
begin

text \<open>
  The formatted front ends of the log and of the consoles: \<open>logf\<close> and \<open>logvf\<close> of
  \<^verbatim>\<open>kernel/debug/log.c\<close> and \<open>tty_printf\<close> of \<^verbatim>\<open>kernel/device/tty.c\<close>.  Each prints into a
  buffer on the stack and passes the buffer on as a string; \<open>stack\<close> is what the stack holds
  from the start of the buffer on, which matters when the text does not fit.
\<close>

section \<open>The code\<close>

text \<open>The string a pointer to the buffer stands for.\<close>

definition c_string :: "(nat \<Rightarrow> u8) \<Rightarrow> u8 list option" where
  "c_string m = do { n \<leftarrow> strlen (\<lambda>a. m (nat a)) 0; Some (map m [0..<n]) }"

definition logvf :: "loglevel \<Rightarrow> u8 list \<Rightarrow> arg list \<Rightarrow> (nat \<Rightarrow> u8) \<Rightarrow> log_context
    \<Rightarrow> (log_context \<times> (log_callback \<times> loglevel \<times> u8 list) list) option" where
  "logvf lev fmt as stack lc = do {
     (ret, str, stored) \<leftarrow> vsnprintf stack 1024 fmt as;
     str \<leftarrow> c_string str;
     (offset, lc) \<leftarrow> add_msg str lc;
     Some (add_record offset lev str lc)
   }"

definition logf :: "loglevel \<Rightarrow> u8 list \<Rightarrow> arg list \<Rightarrow> (nat \<Rightarrow> u8) \<Rightarrow> log_context
    \<Rightarrow> (log_context \<times> (log_callback \<times> loglevel \<times> u8 list) list) option" where
  "logf lev fmt as stack lc = logvf lev fmt as stack lc"

definition tty_printf :: "int \<Rightarrow> u8 list \<Rightarrow> arg list \<Rightarrow> (nat \<Rightarrow> u8) \<Rightarrow> tty_state
    \<Rightarrow> (int \<times> tty_state) option" where
  "tty_printf tid fmt as stack s = do {
     let tid = (if tid < 0 \<or> tid \<ge> MAX_TTYS then 0 else tid);
     (result, buffer, stored) \<leftarrow> vsnprintf stack (8 * 1024) fmt as;
     str \<leftarrow> c_string buffer;
     Some (result, tty_print tid str s)
   }"

section \<open>The string in the buffer\<close>

lemma c_string_eq:
  assumes "m k = 0" and "\<And>i. i < k \<Longrightarrow> m i \<noteq> 0"
  shows "c_string m = Some (map m [0..<k])"
proof -
  have "cstr_at (\<lambda>a. m (nat a)) 0 (map m [0..<k])"
    using assms by (intro cstr_at_window) auto
  then show ?thesis using strlen_from_at [of "\<lambda>a. m (nat a)" 0 0] by (simp add: c_string_def strlen_def)
qed

lemma c_string_fits:
  assumes "length cs < n"
  shows "c_string (written cs n m) = Some (takeWhile (\<lambda>c. c \<noteq> 0) cs)"
proof -
  let ?t = "takeWhile (\<lambda>c. c \<noteq> 0) cs" and ?w = "written cs n m"
  have w: "?w i = (if i < length cs then cs ! i else 0)" if "i \<le> length cs" for i
    using that assms by (auto simp: written_def poke_mem_def)
  have le: "length ?t \<le> length cs" by (rule length_takeWhile_le)
  have nz: "?w i \<noteq> 0" if "i < length ?t" for i
    using w [of i] that le nth_mem [OF that] set_takeWhileD [of "?t ! i" "\<lambda>c. c \<noteq> 0" cs]
    by (simp add: takeWhile_nth)
  have z: "?w (length ?t) = 0"
    using w [of "length ?t"] le nth_length_takeWhile [of "\<lambda>c. c \<noteq> 0" cs]
    by (cases "length ?t < length cs") auto
  have "map ?w [0..<length ?t] = ?t"
    by (rule nth_equalityI) (use w le in \<open>auto simp: takeWhile_nth\<close>)
  with c_string_eq [of ?w "length ?t", OF z nz] show ?thesis by simp
qed

text \<open>A text that does not fit: the string runs on behind the buffer.\<close>

lemma c_string_overflows:
  assumes "0 < n" and "n < length cs" and "0 \<notin> set (take n cs)"
  shows "c_string (written cs n m) =
    Some (take n cs @ takeWhile (\<lambda>c. c \<noteq> 0) (map m [n..<length cs - 1]))"
proof -
  let ?g = "map m [n..<length cs - 1]" and ?w = "written cs n m"
  let ?t = "takeWhile (\<lambda>c. c \<noteq> 0) ?g"
  let ?k = "n + length ?t"
  have le: "length ?t \<le> length cs - 1 - n" using length_takeWhile_le [of _ ?g] by simp
  have lo: "?w i = cs ! i" if "i < n" for i using that assms(1,2) by (auto simp: written_def poke_mem_def)
  have hi: "?w i = (if i = length cs - 1 then 0 else m i)" if "n \<le> i" for i
    using that assms(1,2) by (auto simp: written_def poke_mem_def)
  have g: "?g ! i = m (n + i)" if "i < length cs - 1 - n" for i using that by simp
  have nz: "?w i \<noteq> 0" if "i < ?k" for i
  proof (cases "i < n")
    case True
    then have "cs ! i \<in> set (take n cs)" using assms(2) by (auto simp: in_set_conv_nth intro!: exI [of _ i])
    then show ?thesis using assms(3) lo [OF True] by metis
  next
    case False
    then have j: "i - n < length ?t" using that by simp
    have "?t ! (i - n) \<noteq> 0" using set_takeWhileD [OF nth_mem [OF j]] by simp
    then have "m i \<noteq> 0" using j g [of "i - n"] le False by (simp add: takeWhile_nth)
    then show ?thesis using hi [of i] False j le assms(2) by simp
  qed
  have z: "?w ?k = 0"
  proof (cases "length ?t < length ?g")
    case True
    then have "m ?k = 0" using nth_length_takeWhile [OF True] g [of "length ?t"] by simp
    then show ?thesis using hi [of ?k] by simp
  next
    case False
    then have "?k = length cs - 1" using le assms(2) by simp
    then show ?thesis using hi [of ?k] by simp
  qed
  have "map ?w [0..<?k] = take n cs @ ?t"
  proof (rule nth_equalityI)
    fix i assume i: "i < length (map ?w [0..<?k])"
    show "map ?w [0..<?k] ! i = (take n cs @ ?t) ! i"
    proof (cases "i < n")
      case True
      then show ?thesis using i lo assms(2) by (simp add: nth_append)
    next
      case False
      then have j: "i - n < length ?t" using i by simp
      then have "i \<noteq> length cs - 1" using le False assms(2) by linarith
      with j show ?thesis using i hi [of i] False g [of "i - n"] le assms(2)
        by (simp add: nth_append takeWhile_nth)
    qed
  qed (use assms(2) in simp)
  with c_string_eq [of ?w ?k, OF z nz] show ?thesis by simp
qed

section \<open>Properties\<close>

text \<open>\<open>logf\<close> with a text that fits its buffer of 1024 bytes logs that text, up to its
  first zero character, whatever the stack holds.\<close>

lemma logf_logs_text:
  assumes "fmt_text fmt as = Some (cs, stored)" and "length cs < 1024"
  shows "logf lev fmt as stack lc = log lev (takeWhile (\<lambda>c. c \<noteq> 0) cs) lc"
  using assms by (simp add: logf_def logvf_def log_def vsnprintf_fmt_text c_string_fits)

text \<open>\<open>logf\<close> with a text longer than its buffer logs what lies behind the buffer.  The
  message recorded is the first 1024 characters of the text followed by the bytes of the
  stack above the buffer, up to the first zero there or the misplaced terminator.\<close>

lemma logf_leaks_stack:
  assumes "fmt_text fmt as = Some (cs, stored)" and "1024 < length cs" and "0 \<notin> set cs"
  shows "logf lev fmt as stack lc =
    log lev (take 1024 cs @ takeWhile (\<lambda>c. c \<noteq> 0) (map stack [1024..<length cs - 1])) lc"
proof -
  have "0 \<notin> set (take 1024 cs)" using assms(3) by (auto dest: in_set_takeD)
  from c_string_overflows [OF _ assms(2) this] show ?thesis
    using assms(1) by (simp add: logf_def logvf_def log_def vsnprintf_fmt_text)
qed

lemma fmt_text_plain: "c8 CHR ''%'' \<notin> set fmt \<Longrightarrow> fmt_text fmt as = Some (fmt, [])"
  by (auto simp: fmt_text_def parse_loop_plain start_parse_def poke_def poke_mem_def intro: nth_equalityI)

text \<open>\<open>tty_printf\<close> with a text that fits its buffer of 8192 bytes prints that text on the
  console, up to its first zero character, and returns its length, whatever the stack
  holds.\<close>

lemma tty_printf_prints_text:
  assumes "fmt_text fmt as = Some (cs, stored)" and "length cs < 8192"
  shows "tty_printf tid fmt as stack s =
    Some (int (length cs), tty_print tid (takeWhile (\<lambda>c. c \<noteq> 0) cs) s)"
proof -
  have "tty_print (if tid < 0 \<or> tid \<ge> MAX_TTYS then 0 else tid) = tty_print tid"
    by (rule ext)+ (simp add: tty_print_def tty_id_def MAX_TTYS_def)
  then show ?thesis using assms
    by (simp add: tty_printf_def vsnprintf_fmt_text c_string_fits)
qed

end
