(* ===== verification/Timer.thy ===== *)
theory Timer
  imports Keyboard
begin

text \<open>
  \<^verbatim>\<open>kernel/device/timer.c\<close>: the programmable interval timer.  Its whole effect is port
  output and the installation of its interrupt handler, so an operation is the list of its
  hardware events.
\<close>

section \<open>The code\<close>

definition TIMER_PORT_DATA_CH0 :: u16 where "TIMER_PORT_DATA_CH0 = 0x40"
definition TIMER_PORT_CMD :: u16 where "TIMER_PORT_CMD = 0x43"
definition MIN_FREQUENCY :: u32 where "MIN_FREQUENCY = 19"
definition MAX_FREQUENCY :: u32 where "MAX_FREQUENCY = 1193181"
definition TRAP_IRQ_TIMER :: nat where "TRAP_IRQ_TIMER = 0x20"
definition IRQ_TIMER :: u8 where "IRQ_TIMER = 0"

lemmas timer_defs = TIMER_PORT_DATA_CH0_def TIMER_PORT_CMD_def MIN_FREQUENCY_def MAX_FREQUENCY_def
  TRAP_IRQ_TIMER_def IRQ_TIMER_def

definition isr_timer :: "io_event list" where
  "isr_timer = [OutB PIC_PORT_CMD_MASTER PIC_CMD_EOI]"

definition timer_init :: "u32 \<Rightarrow> io_event list" where
  "timer_init frequency =
     (let frequency = (if frequency < MIN_FREQUENCY then MIN_FREQUENCY
                       else if frequency > MAX_FREQUENCY then MAX_FREQUENCY else frequency);
          count = ucast (MAX_FREQUENCY div frequency) :: u16
      in [OutB TIMER_PORT_CMD 0x34,
          OutB TIMER_PORT_DATA_CH0 (ucast count),
          OutB TIMER_PORT_DATA_CH0 (ucast (drop_bit 8 count)),
          IsrSet TRAP_IRQ_TIMER ''isr_timer'',
          IrqEnable IRQ_TIMER])"

definition timer_enable :: "io_event list" where
  "timer_enable = [IrqEnable 0]"

definition timer_disable :: "io_event list" where
  "timer_disable = [IrqDisable 0]"

section \<open>The count programmed\<close>

text \<open>The value of a low and a high byte.\<close>

definition lohi :: "u8 \<Rightarrow> u8 \<Rightarrow> nat" where
  "lohi lo hi = unat lo + 256 * unat hi"

lemma lohi_split: "lohi (ucast c) (ucast (drop_bit 8 c)) = unat (c :: u16)"
proof -
  have u: "unat c < 65536" using unsigned_less [of c] by simp
  have "unat (ucast c :: u8) = unat c mod 256"
    by (simp add: unsigned_ucast_eq take_bit_eq_mod)
  moreover have "unat (drop_bit 8 c) = unat c div 256"
    by (simp add: drop_bit_eq_div unat_div)
  then have "unat (ucast (drop_bit 8 c) :: u8) = unat c div 256"
    using u by (simp add: unsigned_ucast_eq take_bit_eq_mod)
  ultimately show ?thesis by (simp add: lohi_def)
qed

text \<open>C22: for every requested frequency the counter is programmed with the largest count whose
  rate is not below the frequency clamped to 19 .. 1193181 Hz; the count is not 0 (which the
  device reads as 65536) and fits the two bytes sent, low byte first, after the command byte,
  and the handler is installed before the interrupt is enabled.\<close>

theorem timer_init_count:
  "\<exists>lo hi. timer_init f =
       [OutB 0x43 0x34, OutB 0x40 lo, OutB 0x40 hi, IsrSet 0x20 ''isr_timer'', IrqEnable 0] \<and>
     0 < lohi lo hi \<and> lohi lo hi \<le> 62799 \<and>
     lohi lo hi * min (max (unat f) 19) 1193181 \<le> 1193181 \<and>
     1193181 < (lohi lo hi + 1) * min (max (unat f) 19) 1193181"
proof -
  define g where "g = (if f < MIN_FREQUENCY then MIN_FREQUENCY
      else if f > MAX_FREQUENCY then MAX_FREQUENCY else f)"
  have g: "unat g = min (max (unat f) 19) 1193181"
    by (auto simp: g_def timer_defs word_less_nat_alt)
  let ?d = "1193181 div unat g"
  have "0 < unat g" "19 \<le> unat g" "unat g \<le> 1193181" by (simp_all add: g)
  then have d: "0 < ?d" "?d \<le> 62799" "?d * unat g \<le> 1193181" "1193181 < (?d + 1) * unat g"
    using div_le_mono2 [of 19 "unat g" 1193181] dividend_less_div_times [of "unat g" 1193181]
    by (simp_all add: div_greater_zero_iff)
  define c :: u16 where "c = ucast (MAX_FREQUENCY div g)"
  have "unat (MAX_FREQUENCY div g) = ?d" by (simp add: MAX_FREQUENCY_def unat_div)
  then have "unat c = ?d" using d(2) by (simp add: c_def unsigned_ucast_eq take_bit_eq_mod)
  then have l: "lohi (ucast c) (ucast (drop_bit 8 c)) = ?d" by (simp only: lohi_split)
  have t: "timer_init f = [OutB 0x43 0x34, OutB 0x40 (ucast c), OutB 0x40 (ucast (drop_bit 8 c)),
      IsrSet 0x20 ''isr_timer'', IrqEnable 0]"
    unfolding timer_init_def g_def [symmetric] Let_def c_def [symmetric] by (simp add: timer_defs)
  show ?thesis
    by (intro exI [of _ "ucast c"] exI [of _ "ucast (drop_bit 8 c)"] conjI)
      (simp_all only: t l d g [symmetric])
qed

end
