(* ===== verification/Syscall.thy ===== *)
theory Syscall
  imports Prelude
begin

text \<open>
  \<^verbatim>\<open>kernel/syscall/syscall.c\<close> with the selectors of \<^verbatim>\<open>kernel/mem/segments.h\<close>: the setup of
  the \<open>SYSCALL\<close>/\<open>SYSRET\<close> instructions.  The processor's answers, the \<open>rdx\<close> register of
  \<open>cpuid\<close> and the old value of a register, are arguments; \<open>invalid_opcode\<close> raises an exception
  whose handler never returns, so nothing follows it.
\<close>

definition MSR_IA32_STAR :: u32 where "MSR_IA32_STAR = 0xc0000081"
definition MSR_IA32_LSTAR :: u32 where "MSR_IA32_LSTAR = 0xc0000082"
definition MSR_IA32_FMASK :: u32 where "MSR_IA32_FMASK = 0xc0000084"

definition SEGMENT_SELECTOR_KERNEL_DATA :: u64 where "SEGMENT_SELECTOR_KERNEL_DATA = 0x08"
definition SEGMENT_SELECTOR_KERNEL_CODE :: u64 where "SEGMENT_SELECTOR_KERNEL_CODE = 0x10"
definition SEGMENT_SELECTOR_USER_DATA :: u64 where "SEGMENT_SELECTOR_USER_DATA = 0x18"
definition SEGMENT_SELECTOR_USER_CODE :: u64 where "SEGMENT_SELECTOR_USER_CODE = 0x20"

lemmas syscall_defs = MSR_IA32_STAR_def MSR_IA32_LSTAR_def MSR_IA32_FMASK_def
  SEGMENT_SELECTOR_KERNEL_DATA_def SEGMENT_SELECTOR_KERNEL_CODE_def
  SEGMENT_SELECTOR_USER_DATA_def SEGMENT_SELECTOR_USER_CODE_def

definition syscall_init :: "u64 \<Rightarrow> u64 \<Rightarrow> u64 \<Rightarrow> io_event list" where
  "syscall_init rdx old_star syscall_handle =
     (if rdx AND push_bit 11 1 = 0 then [InvalidOpcode]
      else
        let star = old_star AND 0x00000000ffffffff;
            star = star OR push_bit 32 SEGMENT_SELECTOR_KERNEL_CODE;
            star = star OR push_bit 48 ((SEGMENT_SELECTOR_USER_CODE - 16) OR 3)
        in [RdMsr MSR_IA32_STAR old_star, WrMsr MSR_IA32_STAR star,
            WrMsr MSR_IA32_LSTAR syscall_handle, WrMsr MSR_IA32_FMASK 0])"

text \<open>The selectors the processor takes from the register: \<open>SYSCALL\<close> loads the code selector
  from bits 32 .. 47 and the stack selector 8 above it, \<open>SYSRET\<close> to 64-bit code loads the
  stack selector 8 above and the code selector 16 above bits 48 .. 63.\<close>

definition syscall_cs :: "u64 \<Rightarrow> u64" where "syscall_cs star = drop_bit 32 star AND 0xffff"
definition sysret_base :: "u64 \<Rightarrow> u64" where "sysret_base star = drop_bit 48 star"

text \<open>On a processor with system calls, \<open>syscall_init\<close> leaves the low half of the selector
  register as it was, and sets it so that entering the kernel loads the kernel code selector
  and leaving it loads the user data and user code selectors with privilege level 3; the
  handler's address is installed and no flag is masked.  Without system calls it raises an
  invalid opcode exception and writes nothing.\<close>

lemma syscall_init_selectors:
  "if bit rdx 11
   then \<exists>star. syscall_init rdx old h =
            [RdMsr 0xc0000081 old, WrMsr 0xc0000081 star, WrMsr 0xc0000082 h, WrMsr 0xc0000084 0]
          \<and> star AND 0xffffffff = old AND 0xffffffff
          \<and> syscall_cs star = SEGMENT_SELECTOR_KERNEL_CODE
          \<and> sysret_base star + 8 = SEGMENT_SELECTOR_USER_DATA OR 3
          \<and> sysret_base star + 16 = SEGMENT_SELECTOR_USER_CODE OR 3
   else syscall_init rdx old h = [InvalidOpcode]"
proof (cases "bit rdx 11")
  case False
  then have "rdx AND push_bit 11 1 = 0"
    by (intro bit_eqI) (auto simp del: push_bit_of_1 simp: bit_and_iff bit_push_bit_iff bit_1_iff)
  then show ?thesis using False by (simp add: syscall_init_def)
next
  case True
  have b: "bit (rdx AND push_bit 11 1) 11" using True by (simp add: bit_simps)
  then have nz: "rdx AND push_bit 11 1 \<noteq> 0" by auto
  define lo where "lo = old AND 0xffffffff"
  define star where "star = (lo OR push_bit 32 0x10) OR push_bit 48 0x13"
  have m: "(0xffffffff :: u64) = mask 32" "(0xffff :: u64) = mask 16" by (simp_all add: mask_eq_exp_minus_1)
  have lo: "drop_bit 32 lo = 0" "drop_bit 48 lo = 0"
    unfolding lo_def m by (auto intro!: bit_eqI simp: bit_simps)
  have "star AND mask 32 = lo"
    unfolding star_def lo_def m by (simp add: take_bit_eq_mask [symmetric] take_bit_or)
  moreover have "drop_bit 32 star = 0x10 OR 0x130000"
    unfolding star_def by (simp add: drop_bit_or lo)
  then have "syscall_cs star = SEGMENT_SELECTOR_KERNEL_CODE"
    by (simp add: syscall_cs_def syscall_defs)
  moreover have "drop_bit 48 star = 0x13"
    unfolding star_def by (simp add: drop_bit_or lo)
  moreover have "syscall_init rdx old h =
      [RdMsr 0xc0000081 old, WrMsr 0xc0000081 star, WrMsr 0xc0000082 h, WrMsr 0xc0000084 0]"
    using nz by (simp add: syscall_init_def syscall_defs Let_def star_def lo_def)
  ultimately show ?thesis
    using True by (auto simp: sysret_base_def syscall_defs m(1) lo_def)
qed

end
