(* ===== verification/PageTable.thy ===== *)
theory PageTable
  imports Prelude
begin

text \<open>
  \<^verbatim>\<open>include/kernel/mem/paging.h\<close>: page table entries, the fields of a virtual address and the
  page table structure; and the translation the processor performs on a page table in memory.
  Page tables are reached through the kernel's identity mapping, so memory is a function from
  the physical address of an entry to its 64-bit value.
\<close>

section \<open>Constants and accessors\<close>

definition PAGE_SIZE :: u64 where "PAGE_SIZE = 0x1000"
definition PAGE_SIZE_LARGE :: u64 where "PAGE_SIZE_LARGE = 0x200000"
definition PAGE_SIZE_HUGE :: u64 where "PAGE_SIZE_HUGE = 0x40000000"

definition PF_PRESENT :: u64 where "PF_PRESENT = 0x1"
definition PF_RW :: u64 where "PF_RW = 0x2"
definition PF_PWT :: u64 where "PF_PWT = 0x8"
definition PF_PCD :: u64 where "PF_PCD = 0x10"
definition PF_PS :: u64 where "PF_PS = 0x80"
definition PF_GLOBAL :: u64 where "PF_GLOBAL = 0x100"
definition PF_SYSTEM :: u64 where "PF_SYSTEM = 0x200"

definition PGMASK_ENTRY :: u64 where "PGMASK_ENTRY = 0x1ff"
definition PGMASK_OFFSET :: u64 where "PGMASK_OFFSET = 0x3ff"

definition PML4E :: "u64 \<Rightarrow> u64" where "PML4E a = drop_bit 39 a AND PGMASK_ENTRY"
definition PDPTE :: "u64 \<Rightarrow> u64" where "PDPTE a = drop_bit 30 a AND PGMASK_ENTRY"
definition PDE :: "u64 \<Rightarrow> u64" where "PDE a = drop_bit 21 a AND PGMASK_ENTRY"
definition PTE :: "u64 \<Rightarrow> u64" where "PTE a = drop_bit 12 a AND PGMASK_ENTRY"

definition PGPTR :: "u64 \<Rightarrow> u64" where "PGPTR pte = pte AND NOT PGMASK_OFFSET"

lemmas page_size_defs = PAGE_SIZE_def PAGE_SIZE_LARGE_def PAGE_SIZE_HUGE_def
lemmas pf_flag_defs = PF_PRESENT_def PF_RW_def PF_PWT_def PF_PCD_def PF_PS_def PF_GLOBAL_def PF_SYSTEM_def

record pagetable =
  proot :: u64
  vroot :: u64
  vnext :: u64
  vterm :: u64

type_synonym pmem = "u64 \<Rightarrow> u64"

text \<open>\<open>page->entry[e]\<close>, read and written, and \<open>memzero\<close> of memory that holds page tables.\<close>

definition get_entry :: "pmem \<Rightarrow> u64 \<Rightarrow> u64 \<Rightarrow> u64" where
  "get_entry m page e = m (page + 8 * e)"

definition set_entry :: "u64 \<Rightarrow> u64 \<Rightarrow> u64 \<Rightarrow> pmem \<Rightarrow> pmem" where
  "set_entry page e v m = m(page + 8 * e := v)"

definition zero_mem :: "u64 \<Rightarrow> u64 \<Rightarrow> pmem \<Rightarrow> pmem" where
  "zero_mem a n m = (\<lambda>x. if x - a < n then 0 else m x)"

section \<open>The translation the processor performs\<close>

text \<open>The physical address of the table an entry refers to: bits 12 to 51.\<close>

definition table_addr :: "u64 \<Rightarrow> u64" where "table_addr v = v AND 0x000ffffffffff000"

definition present :: "u64 \<Rightarrow> bool" where "present v \<longleftrightarrow> v AND PF_PRESENT \<noteq> 0"

text \<open>An entry of a table with \<open>n\<close> levels below it ends the translation if it is in a
  lowest-level table, or has the page size bit, which the root's entries do not have.\<close>

definition is_leaf :: "nat \<Rightarrow> u64 \<Rightarrow> bool" where
  "is_leaf n v \<longleftrightarrow> n = 0 \<or> n < 3 \<and> v AND PF_PS \<noteq> 0"

text \<open>The entry that translates an address, given by the indices of its fields, from the table
  at \<open>p\<close> on, and the levels below it: 0 for a small, 1 for a large, 2 for a huge page.\<close>

fun lwalk :: "pmem \<Rightarrow> u64 \<Rightarrow> u64 list \<Rightarrow> (nat \<times> u64) option" where
  "lwalk m p [] = None"
| "lwalk m p (e # es) =
     (let v = get_entry m p e in
      if \<not> present v then None
      else if is_leaf (length es) v then Some (length es, v)
      else lwalk m (table_addr v) es)"

definition ixs :: "u64 \<Rightarrow> u64 list" where "ixs a = [PML4E a, PDPTE a, PDE a, PTE a]"

definition walk :: "pmem \<Rightarrow> u64 \<Rightarrow> u64 \<Rightarrow> (nat \<times> u64) option" where
  "walk m root a = lwalk m root (ixs a)"

text \<open>The physical address and the flags of the page an address is mapped to.\<close>

definition page_bits :: "nat \<Rightarrow> nat" where "page_bits n = 12 + 9 * n"

definition translate :: "pmem \<Rightarrow> u64 \<Rightarrow> u64 \<Rightarrow> (u64 \<times> u64) option" where
  "translate m root a =
     (case walk m root a of None \<Rightarrow> None
      | Some (n, v) \<Rightarrow> Some ((table_addr v AND NOT (mask (page_bits n))) OR (a AND mask (page_bits n)),
                            v AND 0x1ff))"

section \<open>Entries of distinct pages\<close>

definition aligned :: "u64 \<Rightarrow> bool" where "aligned p \<longleftrightarrow> p AND 0xfff = 0"

lemma aligned_unat: "aligned p \<longleftrightarrow> unat p mod 4096 = 0"
proof -
  have "p AND 0xfff = take_bit 12 p" by (simp add: take_bit_eq_mask mask_eq_exp_minus_1)
  then have "aligned p \<longleftrightarrow> unat (take_bit 12 p) = 0" by (simp add: aligned_def unat_eq_zero)
  then show ?thesis by (simp add: unsigned_take_bit_eq take_bit_eq_mod unat_mod)
qed

lemma alignedE:
  assumes "aligned p"
  obtains k where "unat p = 4096 * k"
proof -
  have "4096 dvd unat p" using assms by (simp add: aligned_unat mod_eq_0_iff_dvd)
  then show thesis using that by (elim dvdE)
qed

lemma same_page: "4096 * j + a = 4096 * k + b \<Longrightarrow> a < 4096 \<Longrightarrow> b < 4096 \<Longrightarrow> j = (k :: nat)"
  using arg_cong [of "4096 * j + a" "4096 * k + b" "\<lambda>x. x div 4096"] by simp

lemma unat_8: "e < (512 :: u64) \<Longrightarrow> unat (8 * e) = 8 * unat e"
  by (simp add: word_less_nat_alt unat_word_ariths)

lemma entry_offset:
  assumes "aligned p" and "e < 512"
  shows "unat (p + 8 * e) = unat p + 8 * unat e"
proof -
  have e: "unat e < 512" using assms(2) by (simp add: word_less_nat_alt)
  have e8: "unat (8 * e) = 8 * unat e" using assms(2) by (rule unat_8)
  obtain k where k: "unat p = 4096 * k" using assms(1) by (rule alignedE)
  then have "unat p \<le> 2 ^ 64 - 4096" using unat_lt64 [of p] by simp
  then show ?thesis using e by (subst unat_add_nowrap) (simp_all add: e8)
qed

lemma entry_addr_eq:
  assumes "aligned p" "aligned q" "e < 512" "f < 512"
  shows "p + 8 * e = q + 8 * f \<longleftrightarrow> p = q \<and> e = f"
proof
  assume eq: "p + 8 * e = q + 8 * f"
  have b: "unat e < 512" "unat f < 512" using assms(3,4) by (simp_all add: word_less_nat_alt)
  obtain j where j: "unat p = 4096 * j" using assms(1) by (rule alignedE)
  obtain k where k: "unat q = 4096 * k" using assms(2) by (rule alignedE)
  have s: "4096 * j + 8 * unat e = 4096 * k + 8 * unat f"
    using arg_cong [OF eq, of unat] entry_offset [OF assms(1,3)] entry_offset [OF assms(2,4)] j k by simp
  have "j = k" using same_page [OF s] b by simp
  then have "p = q" "unat e = unat f" using s j k by (simp_all add: word_unat_eq_iff)
  then show "p = q \<and> e = f" by (simp add: word_unat_eq_iff)
qed simp

lemma get_set_entry:
  assumes "aligned p" "aligned q" "e < 512" "f < 512"
  shows "get_entry (set_entry q f v m) p e = (if p = q \<and> e = f then v else get_entry m p e)"
  using entry_addr_eq [OF assms] by (simp add: get_entry_def set_entry_def)

lemma get_zero_page:
  assumes "aligned p" "aligned q" "e < 512"
  shows "get_entry (zero_mem q PAGE_SIZE m) p e = (if p = q then 0 else get_entry m p e)"
proof -
  have e: "unat e < 512" using assms(3) by (simp add: word_less_nat_alt)
  obtain j where j: "unat p = 4096 * j" using assms(1) by (rule alignedE)
  obtain k where k: "unat q = 4096 * k" using assms(2) by (rule alignedE)
  note jk = j k
  have x: "unat (p + 8 * e) = 4096 * j + 8 * unat e" using entry_offset [OF assms(1,3)] jk by simp
  have "p + 8 * e - q < PAGE_SIZE \<longleftrightarrow> p = q"
  proof
    assume lt: "p + 8 * e - q < PAGE_SIZE"
    define d where "d = p + 8 * e - q"
    have d: "unat d < 4096" using lt by (simp add: d_def PAGE_SIZE_def word_less_nat_alt)
    have "q + d = p + 8 * e" by (simp add: d_def)
    moreover have "unat q \<le> 2 ^ 64 - 4096" using jk(2) unat_lt64 [of q] by simp
    then have "unat (q + d) = 4096 * k + unat d" using d jk by (subst unat_add_nowrap) simp_all
    ultimately have kj: "4096 * k + unat d = 4096 * j + 8 * unat e" using x by simp
    have "k = j" using same_page [OF kj d] e by simp
    then show "p = q" using jk by (simp add: word_unat_eq_iff)
  next
    assume "p = q"
    then have "p + 8 * e - q = 8 * e" by simp
    moreover have "unat (8 * e) < unat PAGE_SIZE" using e unat_8 [OF assms(3)] by (simp add: PAGE_SIZE_def)
    ultimately show "p + 8 * e - q < PAGE_SIZE" by (simp only: word_less_nat_alt)
  qed
  then show ?thesis by (simp add: get_entry_def zero_mem_def)
qed

lemma ixs_bound: "e \<in> set (ixs a) \<Longrightarrow> e < 512"
proof -
  have "x AND 0x1ff < 512" for x :: u64
    by (rule le_less_trans [of _ "0x1ff"]) (simp_all add: word_and_le1)
  then show "e \<in> set (ixs a) \<Longrightarrow> e < 512"
    by (auto simp: ixs_def PML4E_def PDPTE_def PDE_def PTE_def PGMASK_ENTRY_def)
qed

section \<open>Trees of tables\<close>

text \<open>The tables of a page table, by the path of indices that leads to them from the root, which
  has the path \<open>[]\<close>.  \<open>tree m tab K\<close>: no page is reached by two paths, and what is not a table
  of \<open>tab\<close> ends a translation, except behind the root's entries in \<open>K\<close> (those of the kernel).\<close>

type_synonym tables = "u64 list \<Rightarrow> u64 option"

definition links_to :: "u64 \<Rightarrow> u64 \<Rightarrow> bool" where
  "links_to v p \<longleftrightarrow> present v \<and> v AND PF_PS = 0 \<and> table_addr v = p \<and> PGPTR v = p"

definition stops :: "nat \<Rightarrow> u64 \<Rightarrow> bool" where
  "stops n v \<longleftrightarrow> \<not> present v \<or> is_leaf n v"

definition leaf_of :: "nat \<Rightarrow> u64 \<Rightarrow> (nat \<times> u64) option" where
  "leaf_of n v = (if present v then Some (n, v) else None)"

definition foreign :: "u64 set \<Rightarrow> u64 list \<Rightarrow> bool" where
  "foreign K xs \<longleftrightarrow> xs \<noteq> [] \<and> hd xs \<in> K"

definition tree :: "pmem \<Rightarrow> tables \<Rightarrow> u64 set \<Rightarrow> bool" where
  "tree m tab K \<longleftrightarrow>
     (\<forall>xs p. tab xs = Some p \<longrightarrow>
        aligned p \<and> length xs \<le> 3 \<and> (\<forall>e \<in> set xs. e < 512) \<and> \<not> foreign K xs) \<and>
     (\<forall>xs ys p. tab xs = Some p \<and> tab ys = Some p \<longrightarrow> xs = ys) \<and>
     (\<forall>xs e q. tab (xs @ [e]) = Some q \<longrightarrow> (\<exists>p. tab xs = Some p \<and> links_to (get_entry m p e) q)) \<and>
     (\<forall>xs e p. tab xs = Some p \<and> e < 512 \<and> tab (xs @ [e]) = None \<and> \<not> foreign K (xs @ [e]) \<longrightarrow>
        stops (3 - length xs) (get_entry m p e))"

lemma treeD:
  assumes "tree m tab K" and "tab xs = Some p"
  shows "aligned p" "length xs \<le> 3" "e \<in> set xs \<Longrightarrow> e < 512" "\<not> foreign K xs"
    and "tab ys = Some p \<Longrightarrow> ys = xs"
    and "e < 512 \<Longrightarrow> tab (xs @ [e]) = None \<Longrightarrow> \<not> foreign K (xs @ [e]) \<Longrightarrow> stops (3 - length xs) (get_entry m p e)"
  using assms unfolding tree_def by blast+

lemma tree_link:
  assumes "tree m tab K" and "tab (xs @ [e]) = Some q"
  obtains p where "tab xs = Some p" "links_to (get_entry m p e) q" "e < 512" "length xs < 3"
proof -
  have "\<exists>p. tab xs = Some p \<and> links_to (get_entry m p e) q" using assms unfolding tree_def by blast
  moreover have "e < 512" using treeD(3) [OF assms, of e] by simp
  moreover have "length xs < 3" using treeD(2) [OF assms] by simp
  ultimately show thesis using that by blast
qed

lemma tree_prefix: "tree m tab K \<Longrightarrow> tab (xs @ ys) = Some p \<Longrightarrow> \<exists>q. tab xs = Some q"
proof (induction ys arbitrary: p rule: rev_induct)
  case (snoc y ys)
  then show ?case by (metis append_assoc tree_link)
qed simp

lemma foreign_append [simp]: "xs \<noteq> [] \<Longrightarrow> foreign K (xs @ ys) = foreign K xs"
  by (simp add: foreign_def)

text \<open>One step of a walk inside the tree.\<close>

lemma lwalk_table:
  assumes "tree m tab K" and "tab pre = Some q" and "tab (pre @ [e]) = Some r" and "length (pre @ e # es) = 4"
  shows "lwalk m q (e # es) = lwalk m r es"
proof -
  from assms(1,3) obtain p where "tab pre = Some p" "links_to (get_entry m p e) r" "length pre < 3"
    by (rule tree_link)
  then show ?thesis using assms(2,4) by (auto simp: links_to_def is_leaf_def Let_def)
qed

lemma lwalk_end:
  assumes "tree m tab K" and "tab pre = Some q" and "tab (pre @ [e]) = None" and "e < 512"
    and "\<not> foreign K (pre @ [e])" and "length (pre @ e # es) = 4"
  shows "lwalk m q (e # es) = leaf_of (length es) (get_entry m q e)"
proof -
  have "length es = 3 - length pre" using assms(6) by simp
  then have "stops (length es) (get_entry m q e)" using treeD(6) [OF assms(1,2,4,3,5)] by simp
  then show ?thesis by (auto simp: stops_def leaf_of_def Let_def)
qed

lemma tree_cong:
  assumes "tree m tab K" and "\<And>xs p e. tab xs = Some p \<Longrightarrow> e < 512 \<Longrightarrow> get_entry m' p e = get_entry m p e"
  shows "tree m' tab K"
  unfolding tree_def
proof (intro conjI allI impI)
  fix xs e q assume "tab (xs @ [e]) = Some q"
  with assms(1) obtain p where "tab xs = Some p" "links_to (get_entry m p e) q" "e < 512" by (rule tree_link)
  then show "\<exists>p. tab xs = Some p \<and> links_to (get_entry m' p e) q" using assms(2) by auto
next
  fix xs e p assume "tab xs = Some p \<and> e < 512 \<and> tab (xs @ [e]) = None \<and> \<not> foreign K (xs @ [e])"
  then show "stops (3 - length xs) (get_entry m' p e)"
    using treeD(6) [OF assms(1), of xs p e] assms(2) [of xs p e] by simp
qed (use treeD [OF assms(1)] in auto)

lemma lwalk_cong:
  assumes "tree m tab K" and "\<And>xs p e. tab xs = Some p \<Longrightarrow> e < 512 \<Longrightarrow> get_entry m' p e = get_entry m p e"
  shows "tab pre = Some q \<Longrightarrow> length (pre @ es) = 4 \<Longrightarrow> \<forall>e \<in> set es. e < 512 \<Longrightarrow> \<not> foreign K (pre @ es) \<Longrightarrow>
    lwalk m' q es = lwalk m q es"
proof (induction es arbitrary: pre q)
  case (Cons e es)
  have t': "tree m' tab K" using assms by (rule tree_cong)
  have f: "\<not> foreign K (pre @ [e])" using Cons.prems(4) by (cases pre) (auto simp: foreign_def)
  show ?case
  proof (cases "tab (pre @ [e])")
    case (Some r)
    then show ?thesis
      using Cons.IH [of "pre @ [e]" r] Cons.prems lwalk_table [OF assms(1) Cons.prems(1) Some Cons.prems(2)]
        lwalk_table [OF t' Cons.prems(1) Some Cons.prems(2)] by simp
  next
    case None
    have "e < 512" using Cons.prems(3) by simp
    from lwalk_end [OF assms(1) Cons.prems(1) None this f Cons.prems(2)]
      lwalk_end [OF t' Cons.prems(1) None this f Cons.prems(2)] assms(2) [OF Cons.prems(1) this]
    show ?thesis by simp
  qed
qed simp

text \<open>Writing an entry that is not a link.\<close>

lemma tree_write:
  assumes t: "tree m tab K" and p: "tab xs = Some p" and e: "e < 512" and n: "tab (xs @ [e]) = None"
    and s: "stops (3 - length xs) v"
  shows "tree (set_entry p e v m) tab K"
  unfolding tree_def
proof (intro conjI allI impI)
  have al: "aligned p" using treeD(1) [OF t p] .
  fix ys f q assume q: "tab (ys @ [f]) = Some q"
  with t obtain r where r: "tab ys = Some r" "links_to (get_entry m r f) q" "f < 512" by (rule tree_link)
  have "\<not> (r = p \<and> f = e)" using treeD(5) [OF t p] r(1) q n by auto
  then show "\<exists>r. tab ys = Some r \<and> links_to (get_entry (set_entry p e v m) r f) q"
    using r al treeD(1) [OF t r(1)] e by (auto simp: get_set_entry)
next
  fix ys f r assume a: "tab ys = Some r \<and> f < 512 \<and> tab (ys @ [f]) = None \<and> \<not> foreign K (ys @ [f])"
  then have g: "get_entry (set_entry p e v m) r f = (if r = p \<and> f = e then v else get_entry m r f)"
    using treeD(1) [OF t p] treeD(1) [OF t] e by (intro get_set_entry) auto
  show "stops (3 - length ys) (get_entry (set_entry p e v m) r f)"
  proof (cases "r = p \<and> f = e")
    case True
    then have "ys = xs" using treeD(5) [OF t p] a by auto
    then show ?thesis using True g s by simp
  next
    case False
    then have "get_entry (set_entry p e v m) r f = get_entry m r f" using g by argo
    then show ?thesis using treeD(6) [OF t] a by simp
  qed
qed (use treeD [OF t] in auto)

lemma lwalk_write:
  assumes t: "tree m tab K" and p: "tab xs = Some p" and e: "e < 512" and n: "tab (xs @ [e]) = None"
    and s: "stops (3 - length xs) v"
  shows "tab pre = Some q \<Longrightarrow> length (pre @ es) = 4 \<Longrightarrow> \<forall>f \<in> set es. f < 512 \<Longrightarrow> \<not> foreign K (pre @ es) \<Longrightarrow>
    lwalk (set_entry p e v m) q es =
      (if length pre \<le> length xs \<and> take (Suc (length xs)) (pre @ es) = xs @ [e]
       then leaf_of (3 - length xs) v else lwalk m q es)"
proof (induction es arbitrary: pre q)
  case Nil
  then show ?case using treeD(2) [OF t Nil(1)] by simp
next
  case (Cons f es)
  let ?m = "set_entry p e v m"
  have t': "tree ?m tab K" using assms by (rule tree_write)
  have fo: "\<not> foreign K (pre @ [f])" using Cons.prems(4) by (cases pre) (auto simp: foreign_def)
  have f: "f < 512" using Cons.prems(3) by simp
  have len: "length es = 3 - length pre" using Cons.prems(2) by simp
  show ?case
  proof (cases "tab (pre @ [f])")
    case (Some r)
    have c: "length pre \<le> length xs \<and> take (Suc (length xs)) (pre @ f # es) = xs @ [e]
        \<longleftrightarrow> length (pre @ [f]) \<le> length xs \<and> take (Suc (length xs)) ((pre @ [f]) @ es) = xs @ [e]"
    proof (cases "length pre = length xs")
      case True
      then have "take (Suc (length xs)) (pre @ f # es) = pre @ [f]" by simp
      then have "take (Suc (length xs)) (pre @ f # es) \<noteq> xs @ [e]" using n Some by auto
      then show ?thesis using True by simp
    qed auto
    have "lwalk ?m r es = (if length (pre @ [f]) \<le> length xs \<and> take (Suc (length xs)) ((pre @ [f]) @ es) = xs @ [e]
        then leaf_of (3 - length xs) v else lwalk m r es)"
      using Cons.prems by (intro Cons.IH [OF Some]) simp_all
    then show ?thesis
      unfolding c lwalk_table [OF t Cons.prems(1) Some Cons.prems(2)]
        lwalk_table [OF t' Cons.prems(1) Some Cons.prems(2)] .
  next
    case None
    note ends = lwalk_end [OF t Cons.prems(1) None f fo Cons.prems(2)]
      lwalk_end [OF t' Cons.prems(1) None f fo Cons.prems(2)]
    have g: "get_entry ?m q f = (if q = p \<and> f = e then v else get_entry m q f)"
      using treeD(1) [OF t p] treeD(1) [OF t Cons.prems(1)] e f by (intro get_set_entry)
    have "q = p \<and> f = e \<longleftrightarrow> length pre \<le> length xs \<and> take (Suc (length xs)) (pre @ f # es) = xs @ [e]"
    proof
      assume "q = p \<and> f = e"
      moreover from this have "pre = xs" using treeD(5) [OF t p] Cons.prems(1) by simp
      ultimately show "length pre \<le> length xs \<and> take (Suc (length xs)) (pre @ f # es) = xs @ [e]" by simp
    next
      assume a: "length pre \<le> length xs \<and> take (Suc (length xs)) (pre @ f # es) = xs @ [e]"
      show "q = p \<and> f = e"
      proof (cases "length pre = length xs")
        case True
        then show ?thesis using a Cons.prems(1) p by simp
      next
        case False
        then have l: "Suc (length pre) \<le> length xs" using a by simp
        have "take (Suc (length pre)) xs = take (Suc (length pre)) (take (Suc (length xs)) (pre @ f # es))"
          using a l by simp
        also have "\<dots> = pre @ [f]" using l by (simp add: min_def)
        finally have "xs = (pre @ [f]) @ drop (Suc (length pre)) xs"
          by (metis append_take_drop_id)
        then show ?thesis using tree_prefix [OF t, of "pre @ [f]"] p None by (metis option.distinct(1))
      qed
    qed
    then show ?thesis using ends g p Cons.prems(1) len
      by (cases "q = p \<and> f = e") (auto dest: treeD(5) [OF t p])
  qed
qed

text \<open>Creating a table: an empty entry is linked to an empty page that is not a table yet.\<close>

lemma tree_add:
  assumes t: "tree m tab K" and p: "tab xs = Some p" and e: "e < 512" and len: "length xs < 3"
    and fo: "\<not> foreign K (xs @ [e])" and z: "\<not> present (get_entry m p e)"
    and q: "aligned q" "q \<notin> ran tab" "\<And>f. f < 512 \<Longrightarrow> \<not> present (get_entry m q f)" and v: "links_to v q"
  shows "tree (set_entry p e v m) (tab(xs @ [e] \<mapsto> q)) K"
    and "tab pre = Some r \<Longrightarrow> length (pre @ es) = 4 \<Longrightarrow> \<forall>f \<in> set es. f < 512 \<Longrightarrow> \<not> foreign K (pre @ es) \<Longrightarrow>
      lwalk (set_entry p e v m) r es = lwalk m r es"
proof -
  let ?m = "set_entry p e v m" and ?tab = "tab(xs @ [e] \<mapsto> q)"
  have al: "aligned p" using treeD(1) [OF t p] .
  have n: "tab (xs @ [e]) = None"
  proof (rule ccontr)
    assume "tab (xs @ [e]) \<noteq> None"
    then obtain r where "tab (xs @ [e]) = Some r" by auto
    with t obtain p' where "tab xs = Some p'" "links_to (get_entry m p' e) r" by (rule tree_link)
    then show False using p z by (simp add: links_to_def)
  qed
  have nn: "tab (xs @ [e] @ ys) = None" for ys
    using tree_prefix [OF t, of "xs @ [e]" ys] n by (cases "tab (xs @ [e] @ ys)") auto
  have notq: "tab ys \<noteq> Some q" for ys using q(2) by (auto simp: ran_def)
  have neq: "r \<noteq> q" if "tab ys = Some r" for ys r using that notq by auto
  have at: "get_entry ?m r f = (if r = p \<and> f = e then v else get_entry m r f)" if "aligned r" "f < 512" for r f
    using that al e by (intro get_set_entry)
  show t': "tree ?m ?tab K"
    unfolding tree_def
  proof (intro conjI allI impI)
    fix ys r assume y: "?tab ys = Some r"
    show "aligned r" "length ys \<le> 3" "\<forall>f \<in> set ys. f < 512" "\<not> foreign K ys"
      using y q(1) treeD [OF t] treeD(3) [OF t p] len e fo by (auto split: if_splits)
  next
    fix ys zs r assume "?tab ys = Some r \<and> ?tab zs = Some r"
    then show "ys = zs" using treeD(5) [OF t] notq by (auto split: if_splits)
  next
    fix ys f r assume y: "?tab (ys @ [f]) = Some r"
    show "\<exists>s. ?tab ys = Some s \<and> links_to (get_entry ?m s f) r"
    proof (cases "ys @ [f] = xs @ [e]")
      case True
      then show ?thesis using y p v at [OF al e] by auto
    next
      case False
      then have "?tab (ys @ [f]) = tab (ys @ [f])" by (simp only: fun_upd_apply if_False)
      then have "tab (ys @ [f]) = Some r" using y by simp
      with t obtain s where s: "tab ys = Some s" "links_to (get_entry m s f) r" "f < 512" by (rule tree_link)
      have "\<not> (s = p \<and> f = e)" using False s(1) treeD(5) [OF t p] by auto
      moreover have "ys \<noteq> xs @ [e]" using s(1) n by auto
      ultimately show ?thesis using s at [OF treeD(1) [OF t s(1)] s(3)] by auto
    qed
  next
    fix ys f s assume a: "?tab ys = Some s \<and> f < 512 \<and> ?tab (ys @ [f]) = None \<and> \<not> foreign K (ys @ [f])"
    show "stops (3 - length ys) (get_entry ?m s f)"
    proof (cases "ys = xs @ [e]")
      case True
      then have "s = q" using a by simp
      then have "get_entry ?m s f = get_entry m q f" using a q(1) neq [OF p] at [of q f] by auto
      then show ?thesis using q(3) a by (simp add: stops_def)
    next
      case False
      then have b: "tab ys = Some s" "tab (ys @ [f]) = None" using a by (auto split: if_splits)
      have "\<not> (s = p \<and> f = e)" using a b treeD(5) [OF t p] by auto
      then have "get_entry ?m s f = get_entry m s f" using at [OF treeD(1) [OF t b(1)]] a by auto
      then show ?thesis using treeD(6) [OF t b(1) _ b(2)] a by simp
    qed
  qed
  show "lwalk ?m r es = lwalk m r es" if "tab pre = Some r" "length (pre @ es) = 4" "\<forall>f \<in> set es. f < 512"
    "\<not> foreign K (pre @ es)" for pre r es
    using that
  proof (induction es arbitrary: pre r)
    case (Cons f es)
    have f: "f < 512" using Cons.prems(3) by simp
    have pre': "?tab pre = Some r" using Cons.prems(1) n by auto
    have fo': "\<not> foreign K (pre @ [f])" using Cons.prems(4) by (cases pre) (auto simp: foreign_def)
    show ?case
    proof (cases "tab (pre @ [f])")
      case (Some s)
      then have "?tab (pre @ [f]) = Some s" using n by auto
      from lwalk_table [OF t' pre' this Cons.prems(2)] lwalk_table [OF t Cons.prems(1) Some Cons.prems(2)]
        Cons.IH [OF Some] Cons.prems show ?thesis by simp
    next
      case None
      note old = lwalk_end [OF t Cons.prems(1) None f fo' Cons.prems(2)]
      show ?thesis
      proof (cases "pre @ [f] = xs @ [e]")
        case True
        then have r: "r = p" "f = e" using Cons.prems(1) p by auto
        have new: "?tab (pre @ [f]) = Some q" using True by simp
        obtain g gs where es: "es = g # gs" using Cons.prems(2) len True by (cases es) auto
        have g: "g < 512" using Cons.prems(3) es by simp
        have "?tab ((pre @ [f]) @ [g]) = None" using True nn [of "[g]"] by simp
        from lwalk_end [OF t' new this g] Cons.prems(2,4) es
        have "lwalk ?m q es = leaf_of (length gs) (get_entry ?m q g)"
          by (auto simp: foreign_def hd_append split: if_splits)
        also have "get_entry ?m q g = get_entry m q g" using at [OF q(1) g] neq [OF p] by auto
        finally have "lwalk ?m q es = None" using q(3) [OF g] by (simp add: leaf_of_def)
        then show ?thesis
          using old z r lwalk_table [OF t' pre' new Cons.prems(2)] by (simp add: leaf_of_def)
      next
        case False
        then have "?tab (pre @ [f]) = None" using None by simp
        from lwalk_end [OF t' pre' this f fo' Cons.prems(2)] old
        have "lwalk ?m r (f # es) = leaf_of (length es) (get_entry ?m r f)"
          "lwalk m r (f # es) = leaf_of (length es) (get_entry m r f)" by simp_all
        moreover have "\<not> (r = p \<and> f = e)" using False Cons.prems(1) treeD(5) [OF t p] by auto
        then have "get_entry ?m r f = get_entry m r f" using at [OF treeD(1) [OF t Cons.prems(1)] f] by auto
        ultimately show ?thesis by simp
      qed
    qed
  qed simp
qed

end
