(* ===== verification/Frames.thy ===== *)
theory Frames
  imports PageTable
begin

text \<open>
  The page frame database of \<^verbatim>\<open>kernel/mem/paging.c\<close>: one record per physical page, and the
  available frames on a doubly linked list through the records.  The array is a list, a frame
  number indexes it; an access outside it, and \<open>fatal\<close>, are \<open>None\<close>.
\<close>

section \<open>The code\<close>

definition PFN_INVALID :: u32 where "PFN_INVALID = 0xffffffff"

datatype pftype = PFTYPE_RESERVED | PFTYPE_AVAILABLE | PFTYPE_ALLOCATED

record pf =
  pf_prev :: u32
  pf_next :: u32
  refcount :: u16
  sharecount :: u16
  pf_flags :: u16
  pf_type :: pftype
  reserved0 :: u8
  reserved1 :: u64
  reserved2 :: u64

definition zero_pf :: pf where
  "zero_pf = \<lparr>pf_prev = 0, pf_next = 0, refcount = 0, sharecount = 0, pf_flags = 0,
     pf_type = PFTYPE_RESERVED, reserved0 = 0, reserved1 = 0, reserved2 = 0\<rparr>"

record pfdb =
  pfs :: "pf list"
  pf_count :: u32
  avail :: u32
  pf_head :: u32
  pf_tail :: u32

text \<open>\<open>pfdb.pf[i]\<close>, updated.\<close>

definition upd_pf :: "nat \<Rightarrow> (pf \<Rightarrow> pf) \<Rightarrow> pfdb \<Rightarrow> pfdb option" where
  "upd_pf i f db = (if i < length (pfs db) then Some (db\<lparr>pfs := (pfs db)[i := f (pfs db ! i)]\<rparr>) else None)"

text \<open>The frame allocated is named by its number.\<close>

definition pfalloc :: "pfdb \<Rightarrow> (nat \<times> pfdb) option" where
  "pfalloc db =
     (if avail db = 0 then None
      else
        let i = unat (pf_head db) in
        if i \<ge> length (pfs db) then None
        else do {
          let db = db\<lparr>pf_head := pf_next (pfs db ! i)\<rparr>;
          db \<leftarrow> (if pf_head db \<noteq> PFN_INVALID
                then upd_pf (unat (pf_head db)) (\<lambda>pf. pf\<lparr>pf_prev := PFN_INVALID\<rparr>) db else Some db);
          db \<leftarrow> upd_pf i (\<lambda>pf. zero_pf\<lparr>refcount := 1, pf_type := PFTYPE_ALLOCATED\<rparr>) db;
          Some (i, db)
        })"

definition pffree :: "nat \<Rightarrow> pfdb \<Rightarrow> pfdb option" where
  "pffree i db =
     (if i \<ge> length (pfs db) \<or> pf_type (pfs db ! i) \<noteq> PFTYPE_ALLOCATED then None
      else do {
        db \<leftarrow> upd_pf i (\<lambda>pf. zero_pf\<lparr>pf_prev := PFN_INVALID, pf_next := pf_head db,
                               pf_type := PFTYPE_AVAILABLE\<rparr>) db;
        let pfn = of_nat i;
        db \<leftarrow> upd_pf (unat (pf_head db)) (\<lambda>pf. pf\<lparr>pf_prev := pfn\<rparr>) db;
        Some (db\<lparr>pf_head := pfn, avail := avail db + 1\<rparr>)
      })"

text \<open>The chain \<open>page_init\<close> makes of the frames of one usable region, from \<open>pfn0\<close> to \<open>pfnN\<close>,
  and its link to the list.\<close>

function chain_frames :: "nat \<Rightarrow> nat \<Rightarrow> pfdb \<Rightarrow> pfdb option" where
  "chain_frames pfn pfnN db =
     (if pfn < pfnN then do {
        db \<leftarrow> upd_pf pfn (\<lambda>pf. pf\<lparr>pf_prev := of_nat pfn - 1, pf_next := of_nat pfn + 1,
                              pf_type := PFTYPE_AVAILABLE\<rparr>) db;
        chain_frames (pfn + 1) pfnN db
      }
      else Some db)"
  by pat_completeness auto
termination
  by (relation "measure (\<lambda>(pfn, pfnN, db). pfnN - pfn)") auto

declare chain_frames.simps [simp del]

definition add_frames :: "u64 \<Rightarrow> u64 \<Rightarrow> pfdb \<Rightarrow> pfdb option" where
  "add_frames addr sz db = do {
     let pfn0 = drop_bit 12 addr;
     let pfnN = drop_bit 12 (addr + sz);
     db \<leftarrow> chain_frames (unat pfn0) (unat pfnN) db;
     db \<leftarrow> (if pf_tail db = PFN_INVALID then Some (db\<lparr>pf_head := ucast pfn0\<rparr>)
           else upd_pf (unat (pf_tail db)) (\<lambda>pf. pf\<lparr>pf_next := ucast pfn0\<rparr>) db);
     db \<leftarrow> upd_pf (unat pfn0) (\<lambda>pf. pf\<lparr>pf_prev := pf_tail db\<rparr>) db;
     db \<leftarrow> upd_pf (unat (pfnN - 1)) (\<lambda>pf. pf\<lparr>pf_next := PFN_INVALID\<rparr>) db;
     Some (db\<lparr>pf_tail := ucast (pfnN - 1), avail := avail db + ucast (pfnN - pfn0)\<rparr>)
   }"

section \<open>The list of available frames\<close>

text \<open>\<open>links ps h fs\<close>: following \<open>next\<close> from \<open>h\<close> visits the frames \<open>fs\<close> and ends;
  \<open>rlinks ps q fs\<close>: each frame's \<open>prev\<close> is the frame before it, the first one's is \<open>q\<close>.\<close>

fun links :: "pf list \<Rightarrow> u32 \<Rightarrow> nat list \<Rightarrow> bool" where
  "links ps h [] \<longleftrightarrow> h = PFN_INVALID"
| "links ps h (f # fs) \<longleftrightarrow> h = of_nat f \<and> f < length ps \<and> links ps (pf_next (ps ! f)) fs"

fun rlinks :: "pf list \<Rightarrow> u32 \<Rightarrow> nat list \<Rightarrow> bool" where
  "rlinks ps q [] \<longleftrightarrow> True"
| "rlinks ps q (f # fs) \<longleftrightarrow> pf_prev (ps ! f) = q \<and> rlinks ps (of_nat f) fs"

definition pfdb_inv :: "pfdb \<Rightarrow> nat list \<Rightarrow> bool" where
  "pfdb_inv db fs \<longleftrightarrow>
     length (pfs db) < 2 ^ 32 - 1 \<and> distinct fs \<and>
     links (pfs db) (pf_head db) fs \<and> rlinks (pfs db) PFN_INVALID fs \<and>
     (\<forall>f < length (pfs db). pf_type (pfs db ! f) = PFTYPE_AVAILABLE \<longleftrightarrow> f \<in> set fs)"

lemma links_upd [simp]:
  assumes "i \<notin> set fs"
  shows "links (ps[i := p]) h fs = links ps h fs"
  using assms by (induction fs arbitrary: h) auto

lemma back_upd [simp]:
  assumes "i \<notin> set fs"
  shows "rlinks (ps[i := p]) q fs = rlinks ps q fs"
  using assms by (induction fs arbitrary: q) auto

lemma links_bound: "links ps h fs \<Longrightarrow> f \<in> set fs \<Longrightarrow> f < length ps"
  by (induction fs arbitrary: h) auto

lemma unat_pfn [simp]: "f < 2 ^ 32 - 1 \<Longrightarrow> unat (of_nat f :: u32) = f"
  by (simp add: unat_of_nat take_bit_eq_mod)

lemma pfn_valid:
  assumes "f < 2 ^ 32 - 1"
  shows "(of_nat f :: u32) \<noteq> PFN_INVALID"
proof
  assume "(of_nat f :: u32) = PFN_INVALID"
  then have "unat (of_nat f :: u32) = unat PFN_INVALID" by simp
  then show False using assms by (simp add: PFN_INVALID_def)
qed

lemma pfdb_inv_Cons:
  assumes "pfdb_inv db (f # fs)"
  shows "unat (pf_head db) = f" and "f < length (pfs db)" and "f \<notin> set fs"
    and "links (pfs db) (pf_next (pfs db ! f)) fs" and "pf_head db = of_nat f"
  using assms by (auto simp: pfdb_inv_def)

lemma pfalloc_inv:
  assumes "pfdb_inv db (f # fs)" and "avail db \<noteq> 0"
  shows "\<exists>db'. pfalloc db = Some (f, db') \<and> pfdb_inv db' fs \<and> pf_type (pfs db' ! f) = PFTYPE_ALLOCATED
    \<and> refcount (pfs db' ! f) = 1 \<and> length (pfs db') = length (pfs db) \<and> avail db' = avail db
    \<and> (\<forall>g. g \<noteq> f \<longrightarrow> pf_type (pfs db' ! g) = pf_type (pfs db ! g)
          \<and> refcount (pfs db' ! g) = refcount (pfs db ! g))"
proof -
  note c = pfdb_inv_Cons [OF assms(1)]
  let ?p = "zero_pf\<lparr>refcount := 1, pf_type := PFTYPE_ALLOCATED\<rparr>"
  let ?h = "pf_next (pfs db ! f)"
  have inv: "length (pfs db) < 2 ^ 32 - 1" "distinct (f # fs)"
    "\<forall>g < length (pfs db). pf_type (pfs db ! g) = PFTYPE_AVAILABLE \<longleftrightarrow> g \<in> set (f # fs)"
    and rlinks: "rlinks (pfs db) (of_nat f) fs"
    using assms(1) by (auto simp: pfdb_inv_def)
  show ?thesis
  proof (cases fs)
    case Nil
    then have "?h = PFN_INVALID" using c(4) by simp
    then have "pfalloc db = Some (f, db\<lparr>pf_head := ?h, pfs := (pfs db)[f := ?p]\<rparr>)"
      using assms(2) c(1,2) by (simp add: pfalloc_def upd_pf_def Let_def)
    moreover have "pfdb_inv (db\<lparr>pf_head := ?h, pfs := (pfs db)[f := ?p]\<rparr>) fs"
      using Nil inv \<open>?h = PFN_INVALID\<close> by (auto simp: pfdb_inv_def nth_list_update)
    ultimately show ?thesis using c(2) by (auto simp: nth_list_update)
  next
    case (Cons g gs)
    have g: "?h = of_nat g" "g < length (pfs db)" "g \<noteq> f" "g \<notin> set gs"
      "links (pfs db) (pf_next (pfs db ! g)) gs" "rlinks (pfs db) (of_nat g) gs"
      using c(3,4) Cons inv(2) rlinks by auto
    have gb: "g < 2 ^ 32 - 1" using g(2) inv(1) by linarith
    let ?ps = "(pfs db)[g := (pfs db ! g)\<lparr>pf_prev := PFN_INVALID\<rparr>, f := ?p]"
    let ?db = "db\<lparr>pf_head := ?h, pfs := ?ps\<rparr>"
    have hd: "?h \<noteq> PFN_INVALID" "unat ?h = g" using g(1) pfn_valid [OF gb] unat_pfn [OF gb] by simp_all
    then have a: "pfalloc db = Some (f, ?db)"
      using assms(2) c(1,2) g(2) by (simp add: pfalloc_def upd_pf_def Let_def)
    have nf: "f \<notin> set gs" using inv(2) Cons by simp
    have "links ?ps ?h fs" "rlinks ?ps PFN_INVALID fs"
      using g nf c(3) by (simp_all add: Cons nth_list_update)
    moreover have "pf_type (?ps ! k) = PFTYPE_AVAILABLE \<longleftrightarrow> k \<in> set fs" if "k < length (pfs db)" for k
      using that inv(2,3) g(2) c(2) by (auto simp: nth_list_update Cons)
    ultimately have "pfdb_inv ?db fs" using inv(1,2) unfolding pfdb_inv_def by simp
    then show ?thesis using a c(2) g(2,3) by (auto simp: nth_list_update)
  qed
qed

lemma pfalloc_empty:
  assumes "pfdb_inv db []"
  shows "pfalloc db = None"
proof -
  have "length (pfs db) \<le> unat (pf_head db)"
    using assms by (simp add: pfdb_inv_def PFN_INVALID_def)
  then show ?thesis by (simp add: pfalloc_def Let_def)
qed

lemma pffree_inv:
  assumes "pfdb_inv db fs" and "f < length (pfs db)" and "pf_type (pfs db ! f) = PFTYPE_ALLOCATED" and "fs \<noteq> []"
  shows "\<exists>db'. pffree f db = Some db' \<and> pfdb_inv db' (f # fs) \<and> length (pfs db') = length (pfs db)
    \<and> avail db' = avail db + 1
    \<and> (\<forall>g. g \<noteq> f \<longrightarrow> pf_type (pfs db' ! g) = pf_type (pfs db ! g)
          \<and> refcount (pfs db' ! g) = refcount (pfs db ! g))"
proof -
  obtain g gs where fs: "fs = g # gs" using assms(4) by (cases fs) auto
  have inv: "length (pfs db) < 2 ^ 32 - 1" "distinct fs"
    "\<forall>g < length (pfs db). pf_type (pfs db ! g) = PFTYPE_AVAILABLE \<longleftrightarrow> g \<in> set fs"
    and l: "links (pfs db) (pf_head db) fs" "rlinks (pfs db) PFN_INVALID fs"
    using assms(1) by (auto simp: pfdb_inv_def)
  have nf: "f \<notin> set fs" using inv(3) assms(2,3) by auto
  have g: "pf_head db = of_nat g" "g < length (pfs db)" "links (pfs db) (pf_next (pfs db ! g)) gs"
    "rlinks (pfs db) (of_nat g) gs" using l by (auto simp: fs)
  have gb: "unat (pf_head db) = g" using g inv(1) by simp
  let ?p = "zero_pf\<lparr>pf_prev := PFN_INVALID, pf_next := pf_head db, pf_type := PFTYPE_AVAILABLE\<rparr>"
  let ?ps = "(pfs db)[f := ?p, g := (pfs db ! g)\<lparr>pf_prev := of_nat f\<rparr>]"
  let ?db = "db\<lparr>pfs := ?ps, pf_head := of_nat f, avail := avail db + 1\<rparr>"
  have gf: "g \<noteq> f" "f \<noteq> g" using nf by (auto simp: fs)
  then have a: "pffree f db = Some ?db"
    using assms(2,3) g(2) gb by (simp add: pffree_def upd_pf_def Let_def)
  have d: "g \<notin> set gs" "f \<notin> set gs" using inv(2) nf by (auto simp: fs)
  have "links ?ps (of_nat f) (f # fs)" "rlinks ?ps PFN_INVALID (f # fs)"
    using assms(2) g d gf by (simp_all add: fs nth_list_update)
  moreover have "pf_type (?ps ! k) = PFTYPE_AVAILABLE \<longleftrightarrow> k \<in> set (f # fs)" if "k < length (pfs db)" for k
    using that inv(3) g(2) assms(2) by (auto simp: nth_list_update fs)
  ultimately have "pfdb_inv ?db (f # fs)" using inv(1,2) nf unfolding pfdb_inv_def by simp
  then show ?thesis using a assms(2) g(2) gf by (auto simp: nth_list_update)
qed

section \<open>Building the list\<close>

definition pfn_at :: "nat list \<Rightarrow> nat \<Rightarrow> u32" where
  "pfn_at fs i = (if i < length fs then of_nat (fs ! i) else PFN_INVALID)"

lemma links_nth:
  "links ps h fs \<longleftrightarrow> h = pfn_at fs 0 \<and>
     (\<forall>i < length fs. fs ! i < length ps \<and> pf_next (ps ! (fs ! i)) = pfn_at fs (Suc i))"
proof (induction fs arbitrary: h)
  case (Cons f fs)
  have "pfn_at (f # fs) (Suc i) = pfn_at fs i" for i by (simp add: pfn_at_def)
  then show ?case
    by (auto simp: Cons pfn_at_def [of "f # fs" 0] less_Suc_eq_0_disj all_conj_distrib)
qed (simp add: pfn_at_def)

lemma rlinks_nth:
  "rlinks ps q fs \<longleftrightarrow>
     (\<forall>i < length fs. pf_prev (ps ! (fs ! i)) = (if i = 0 then q else of_nat (fs ! (i - 1))))"
proof (induction fs arbitrary: q)
  case (Cons f fs)
  have "(if i = 0 then of_nat f else of_nat (fs ! (i - 1))) = (of_nat ((f # fs) ! i) :: u32)" for i
    by (cases i) simp_all
  then show ?case by (auto simp: Cons less_Suc_eq_0_disj)
qed simp

lemma chain_frames_eq:
  assumes "pfnN \<le> length (pfs db)"
  shows "chain_frames pfn pfnN db = Some (db\<lparr>pfs := map (\<lambda>i. if pfn \<le> i \<and> i < pfnN
      then (pfs db ! i)\<lparr>pf_prev := of_nat i - 1, pf_next := of_nat i + 1, pf_type := PFTYPE_AVAILABLE\<rparr>
      else pfs db ! i) [0..<length (pfs db)]\<rparr>)"
  using assms
proof (induction pfn pfnN db rule: chain_frames.induct)
  case (1 pfn pfnN db)
  show ?case
  proof (cases "pfn < pfnN")
    case False
    then have "map (\<lambda>i. if pfn \<le> i \<and> i < pfnN then f i else pfs db ! i) [0..<length (pfs db)] = pfs db" for f
      by (intro nth_equalityI) auto
    then show ?thesis using False by (simp add: chain_frames.simps [of pfn])
  next
    case True
    let ?u = "\<lambda>i p. p\<lparr>pf_prev := of_nat i - 1, pf_next := of_nat i + 1, pf_type := PFTYPE_AVAILABLE\<rparr>"
    let ?db = "db\<lparr>pfs := (pfs db)[pfn := ?u pfn (pfs db ! pfn)]\<rparr>"
    have u: "upd_pf pfn (?u pfn) db = Some ?db" using True 1(2) by (simp add: upd_pf_def)
    have "chain_frames pfn pfnN db = chain_frames (pfn + 1) pfnN ?db"
      using True u by (simp add: chain_frames.simps [of pfn])
    also have "\<dots> = Some (?db\<lparr>pfs := map (\<lambda>i. if pfn + 1 \<le> i \<and> i < pfnN then ?u i (pfs ?db ! i) else pfs ?db ! i)
        [0..<length (pfs ?db)]\<rparr>)"
      using 1(1) [OF True u] 1(2) by simp
    also have "map (\<lambda>i. if pfn + 1 \<le> i \<and> i < pfnN then ?u i (pfs ?db ! i) else pfs ?db ! i) [0..<length (pfs ?db)]
        = map (\<lambda>i. if pfn \<le> i \<and> i < pfnN then ?u i (pfs db ! i) else pfs db ! i) [0..<length (pfs db)]"
      using True 1(2) by (intro nth_equalityI) (auto simp: nth_list_update)
    finally show ?thesis by simp
  qed
qed

definition tail_ok :: "pfdb \<Rightarrow> nat list \<Rightarrow> bool" where
  "tail_ok db fs \<longleftrightarrow> pf_tail db = (if fs = [] then PFN_INVALID else of_nat (last fs))"

lemma pfdb_inv_nth:
  "pfdb_inv db fs \<longleftrightarrow> length (pfs db) < 2 ^ 32 - 1 \<and> distinct fs \<and> pf_head db = pfn_at fs 0 \<and>
     (\<forall>i < length fs. fs ! i < length (pfs db) \<and> pf_next (pfs db ! (fs ! i)) = pfn_at fs (Suc i) \<and>
        pf_prev (pfs db ! (fs ! i)) = (if i = 0 then PFN_INVALID else of_nat (fs ! (i - 1)))) \<and>
     (\<forall>f < length (pfs db). pf_type (pfs db ! f) = PFTYPE_AVAILABLE \<longleftrightarrow> f \<in> set fs)"
  unfolding pfdb_inv_def links_nth rlinks_nth by auto

lemma add_frames_inv:
  fixes addr sz :: u64
  defines "p0 \<equiv> unat (drop_bit 12 addr)" and "pN \<equiv> unat (drop_bit 12 (addr + sz))"
  assumes "pfdb_inv db fs" and "tail_ok db fs" and "p0 < pN" and "pN \<le> length (pfs db)"
    and "{p0..<pN} \<inter> set fs = {}"
  shows "\<exists>db'. add_frames addr sz db = Some db' \<and> pfdb_inv db' (fs @ [p0..<pN]) \<and>
    tail_ok db' (fs @ [p0..<pN]) \<and> length (pfs db') = length (pfs db) \<and>
    avail db' = avail db + of_nat (pN - p0) \<and>
    (\<forall>f < length (pfs db). pf_type (pfs db' ! f) =
       (if p0 \<le> f \<and> f < pN then PFTYPE_AVAILABLE else pf_type (pfs db ! f)))"
proof -
  have len: "length (pfs db) < 2 ^ 32 - 1" using assms(3) by (simp add: pfdb_inv_def)
  let ?u = "\<lambda>i p. p\<lparr>pf_prev := of_nat i - 1, pf_next := of_nat i + 1, pf_type := PFTYPE_AVAILABLE\<rparr>"
  define A1 where "A1 = map (\<lambda>i. if p0 \<le> i \<and> i < pN then ?u i (pfs db ! i) else pfs db ! i) [0..<length (pfs db)]"
  have A1: "length A1 = length (pfs db)"
    "\<And>i. i < length (pfs db) \<Longrightarrow> A1 ! i = (if p0 \<le> i \<and> i < pN then ?u i (pfs db ! i) else pfs db ! i)"
    by (simp_all add: A1_def)
  have p0b: "p0 < length (pfs db)" "p0 < 2 ^ 32 - 1" "pN - 1 < 2 ^ 32 - 1" "pN - 1 < length (pfs db)" "pN < 2 ^ 32"
    using assms(5,6) len by auto
  have up0: "ucast (drop_bit 12 addr) = (of_nat p0 :: u32)" by (simp add: p0_def)
  have dN: "drop_bit 12 (addr + sz) = (of_nat pN :: u64)" "drop_bit 12 addr = (of_nat p0 :: u64)"
    by (simp_all add: pN_def p0_def)
  have dN1: "drop_bit 12 (addr + sz) - 1 = (of_nat (pN - 1) :: u64)" "drop_bit 12 (addr + sz) - drop_bit 12 addr = (of_nat (pN - p0) :: u64)"
    unfolding dN using assms(5) by (simp_all add: of_nat_diff)
  have upN: "ucast (drop_bit 12 (addr + sz) - 1) = (of_nat (pN - 1) :: u32)"
    "unat (drop_bit 12 (addr + sz) - 1) = pN - 1"
    "ucast (drop_bit 12 (addr + sz) - drop_bit 12 addr) = (of_nat (pN - p0) :: u32)"
    unfolding dN1 using p0b by (simp_all add: unsigned_of_nat take_bit_nat_eq_self)
  have inv: "distinct fs" "pf_head db = pfn_at fs 0"
    "\<And>i. i < length fs \<Longrightarrow> fs ! i < length (pfs db)"
    "\<And>i. i < length fs \<Longrightarrow> pf_next (pfs db ! (fs ! i)) = pfn_at fs (Suc i)"
    "\<And>i. i < length fs \<Longrightarrow> pf_prev (pfs db ! (fs ! i)) = (if i = 0 then PFN_INVALID else of_nat (fs ! (i - 1)))"
    "\<And>f. f < length (pfs db) \<Longrightarrow> pf_type (pfs db ! f) = PFTYPE_AVAILABLE \<longleftrightarrow> f \<in> set fs"
    using assms(3) by (auto simp: pfdb_inv_nth)
  define l where "l = last fs"
  have l: "fs \<noteq> [] \<Longrightarrow> l < length (pfs db) \<and> l \<in> set fs \<and> unat (of_nat l :: u32) = l \<and> (of_nat l :: u32) \<noteq> PFN_INVALID"
  proof -
    assume ne: "fs \<noteq> []"
    then have "l < length (pfs db)" using inv(3) [of "length fs - 1"] by (simp add: l_def last_conv_nth)
    moreover from this have "l < 2 ^ 32 - 1" using len by linarith
    ultimately show ?thesis using ne unat_pfn pfn_valid by (simp add: l_def)
  qed
  define A2 where "A2 = (if fs = [] then A1 else A1[l := (A1 ! l)\<lparr>pf_next := of_nat p0\<rparr>])"
  define A3 where "A3 = A2[p0 := (A2 ! p0)\<lparr>pf_prev := pf_tail db\<rparr>]"
  define A4 where "A4 = A3[pN - 1 := (A3 ! (pN - 1))\<lparr>pf_next := PFN_INVALID\<rparr>]"
  have lens: "length A2 = length (pfs db)" "length A3 = length (pfs db)" "length A4 = length (pfs db)"
    by (simp_all add: A2_def A3_def A4_def A1)
  let ?db = "db\<lparr>pfs := A4, pf_head := (if fs = [] then of_nat p0 else pf_head db),
      pf_tail := of_nat (pN - 1), avail := avail db + of_nat (pN - p0)\<rparr>"
  have tail: "pf_tail db = (if fs = [] then PFN_INVALID else of_nat l)"
    using assms(4) by (simp add: tail_ok_def l_def)
  have "add_frames addr sz db = Some ?db"
    unfolding add_frames_def Let_def p0_def [symmetric] pN_def [symmetric] up0 upN chain_frames_eq [OF assms(6)]
      A1_def [symmetric] bind.bind_lunit
    using tail l p0b by (cases "fs = []") (simp_all add: upd_pf_def A1(1) A2_def A3_def A4_def)
  moreover have at: "pf_next (A4 ! i) = (if i = pN - 1 then PFN_INVALID else if p0 \<le> i \<and> i < pN then of_nat i + 1
        else if fs \<noteq> [] \<and> i = l then of_nat p0 else pf_next (pfs db ! i))"
    "pf_prev (A4 ! i) = (if i = p0 then pf_tail db else if p0 \<le> i \<and> i < pN then of_nat i - 1
        else pf_prev (pfs db ! i))"
    "pf_type (A4 ! i) = (if p0 \<le> i \<and> i < pN then PFTYPE_AVAILABLE else pf_type (pfs db ! i))"
    if "i < length (pfs db)" for i
    using that p0b l assms(5,7) by (auto simp: A4_def A3_def A2_def A1 nth_list_update)
  have "pfdb_inv ?db (fs @ [p0..<pN])"
    unfolding pfdb_inv_nth
  proof (intro conjI allI impI)
    show "distinct (fs @ [p0..<pN])" using inv(1) assms(7) by auto
    show "pf_head ?db = pfn_at (fs @ [p0..<pN]) 0"
      using inv(2) assms(5) by (auto simp: pfn_at_def nth_append)
    show "pf_type (pfs ?db ! f) = PFTYPE_AVAILABLE \<longleftrightarrow> f \<in> set (fs @ [p0..<pN])"
      if "f < length (pfs ?db)" for f
      using that at(3) [of f] inv(6) [of f] lens by auto
    fix i assume i: "i < length (fs @ [p0..<pN])"
    let ?f = "(fs @ [p0..<pN]) ! i"
    show lt: "?f < length (pfs ?db)"
      using i inv(3) assms(6) lens by (auto simp: nth_append)
    show "pf_next (pfs ?db ! ?f) = pfn_at (fs @ [p0..<pN]) (Suc i)"
    proof (cases "i < length fs")
      case True
      then have f: "?f = fs ! i" "fs ! i \<in> set fs" by (simp_all add: nth_append)
      then have "\<not> (p0 \<le> fs ! i \<and> fs ! i < pN)" using assms(7) by auto
      then have r: "(p0 \<le> fs ! i \<and> fs ! i < pN) = False" "(fs ! i = pN - 1) = False" using assms(5) by auto
      have ne: "fs \<noteq> []" using True by auto
      have last: "fs ! i = l \<longleftrightarrow> i = length fs - 1"
        using True ne inv(1) unfolding l_def by (simp add: last_conv_nth nth_eq_iff_index_eq)
      have "pf_next (A4 ! (fs ! i)) = (if fs ! i = l then of_nat p0 else pfn_at fs (Suc i))"
        using at(1) [OF inv(3) [OF True]] ne inv(4) [OF True] by (simp only: r if_False simp_thms)
      then have n: "pf_next (pfs ?db ! ?f) = (if i = length fs - 1 then of_nat p0 else pfn_at fs (Suc i))"
        unfolding f(1) last by simp
      show ?thesis
      proof (cases "Suc i < length fs")
        case True
        then show ?thesis unfolding n by (auto simp: pfn_at_def nth_append)
      next
        case False
        then have "Suc i = length fs" using True by simp
        then show ?thesis unfolding n using assms(5) by (auto simp: pfn_at_def nth_append)
      qed
    next
      case False
      define j where "j = i - length fs"
      have "?f = p0 + j" "p0 + j < pN" using False i by (auto simp: nth_append j_def)
      then show ?thesis using at(1) [of "p0 + j"] False i assms(6)
        by (auto simp: pfn_at_def nth_append j_def add.commute)
    qed
    show "pf_prev (pfs ?db ! ?f) = (if i = 0 then PFN_INVALID else of_nat ((fs @ [p0..<pN]) ! (i - 1)))"
    proof (cases "i < length fs")
      case True
      then have f: "?f = fs ! i" "fs ! i \<in> set fs" by (simp_all add: nth_append)
      then have "\<not> (p0 \<le> fs ! i \<and> fs ! i < pN)" "fs ! i \<noteq> p0" using assms(5,7) by auto
      then show ?thesis
        using True f at(2) [of "fs ! i"] inv(3,5) [OF True] by (auto simp: nth_append)
    next
      case False
      define j where "j = i - length fs"
      have "?f = p0 + j" "p0 + j < pN" using False i by (auto simp: nth_append j_def)
      then have prev: "pf_prev (pfs ?db ! ?f) = (if j = 0 then pf_tail db else of_nat (p0 + j) - 1)"
        using at(2) [of "p0 + j"] assms(6) by simp
      show ?thesis
      proof (cases j)
        case 0
        then have "i = length fs" using False by (simp add: j_def)
        then show ?thesis using prev 0 tail l_def by (auto simp: nth_append last_conv_nth)
      next
        case (Suc k)
        then have "i \<noteq> 0" "(fs @ [p0..<pN]) ! (i - 1) = p0 + k" using False i by (auto simp: nth_append j_def)
        then show ?thesis using prev Suc by simp
      qed
    qed
  qed (use len lens in auto)
  moreover have "tail_ok ?db (fs @ [p0..<pN])" using assms(5) by (simp add: tail_ok_def)
  ultimately show ?thesis using lens at(3) by (intro exI [of _ ?db]) simp
qed

section \<open>The pool of frames\<close>

text \<open>What the page allocator relies on: frames come from a list, a frame handed out is owned
  until it is given back.  \<open>k\<close> bounds the frames that will still be given back, \<open>ok k d fs\<close>
  says that the free frames of \<open>d\<close> are \<open>fs\<close>.\<close>

datatype pool_op = Alloc | Free nat

text \<open>Each operation with the frame it hands out, if it is an allocation.\<close>

fun pool_spec :: "pool_op \<Rightarrow> nat list \<times> nat set \<Rightarrow> (nat option \<times> nat list \<times> nat set) option" where
  "pool_spec Alloc (f # fs, own) = Some (Some f, fs, insert f own)"
| "pool_spec Alloc ([], own) = None"
| "pool_spec (Free f) (fs, own) = (if fs \<noteq> [] \<and> f \<in> own then Some (None, f # fs, own - {f}) else None)"

fun frees_of :: "pool_op list \<Rightarrow> nat" where
  "frees_of [] = 0"
| "frees_of (Alloc # qs) = frees_of qs"
| "frees_of (Free f # qs) = Suc (frees_of qs)"

primrec op_step :: "('d \<Rightarrow> (nat \<times> 'd) option) \<Rightarrow> (nat \<Rightarrow> 'd \<Rightarrow> 'd option) \<Rightarrow> pool_op \<Rightarrow> 'd
    \<Rightarrow> (nat option \<times> 'd) option" where
  "op_step alloc free Alloc d = do { (f, d) \<leftarrow> alloc d; Some (Some f, d) }"
| "op_step alloc free (Free f) d = do { d \<leftarrow> free f d; Some (None, d) }"

locale frame_pool =
  fixes alloc :: "'d \<Rightarrow> (nat \<times> 'd) option" and free :: "nat \<Rightarrow> 'd \<Rightarrow> 'd option"
    and ok :: "nat \<Rightarrow> 'd \<Rightarrow> nat list \<Rightarrow> bool" and owned :: "'d \<Rightarrow> nat set"
  assumes alloc_takes:
      "ok k d (f # fs) \<Longrightarrow> \<exists>d'. alloc d = Some (f, d') \<and> ok k d' fs \<and> owned d' = insert f (owned d)"
    and free_returns:
      "ok (Suc k) d fs \<Longrightarrow> fs \<noteq> [] \<Longrightarrow> f \<in> owned d \<Longrightarrow>
       \<exists>d'. free f d = Some d' \<and> ok k d' (f # fs) \<and> owned d' = owned d - {f}"
    and pool_disjoint: "ok k d fs \<Longrightarrow> distinct fs \<and> set fs \<inter> owned d = {}"
begin

lemma run_simulates:
  assumes "ok (frees_of qs + k) d fs" and "run pool_spec qs (fs, owned d) = Some (rs, fs', own')"
  shows "\<exists>d'. run (op_step alloc free) qs d = Some (rs, d') \<and> ok k d' fs' \<and> owned d' = own'"
  using assms
proof (induction qs arbitrary: d fs rs)
  case (Cons q qs)
  from Cons.prems(2) obtain r rs' c where
    c: "pool_spec q (fs, owned d) = Some (r, c)" "run pool_spec qs c = Some (rs', fs', own')" "rs = r # rs'"
    by (rule run_Cons)
  show ?case
  proof (cases q)
    case Alloc
    obtain f gs where fs: "fs = f # gs" using c(1) Alloc by (cases fs) auto
    from alloc_takes Cons.prems(1) obtain d1 where
      "alloc d = Some (f, d1)" "ok (frees_of qs + k) d1 gs" "owned d1 = insert f (owned d)"
      unfolding fs Alloc frees_of.simps by blast
    then show ?thesis using Cons.IH [of d1 gs rs'] c by (auto simp: Alloc fs)
  next
    case (Free f)
    then have "fs \<noteq> []" "f \<in> owned d" and r: "run pool_spec qs (f # fs, owned d - {f}) = Some (rs', fs', own')"
      using c by (auto split: if_splits)
    with free_returns [of "frees_of qs + k" d fs f] Cons.prems(1) obtain d1 where
      "free f d = Some d1" "ok (frees_of qs + k) d1 (f # fs)" "owned d1 = owned d - {f}"
      unfolding Free frees_of.simps by auto
    then show ?thesis using Cons.IH [of d1 "f # fs" rs'] r c(1,3) Free by (auto split: if_splits)
  qed
qed simp

end

lemma pool_partition:
  "run pool_spec qs (fs, own) = Some (rs, fs', own') \<Longrightarrow> set fs' \<union> own' = set fs \<union> own"
proof (induction qs arbitrary: fs own rs)
  case (Cons q qs)
  then obtain r rs' fs1 own1 where 1: "pool_spec q (fs, own) = Some (r, fs1, own1)"
    "run pool_spec qs (fs1, own1) = Some (rs', fs', own')" by (auto simp: bind_eq_Some_conv)
  have "set fs1 \<union> own1 = set fs \<union> own"
    using 1(1) by (cases q; cases fs) (auto split: if_splits)
  then show ?case using Cons.IH [OF 1(2)] by simp
qed simp

text \<open>The database as such a pool: the frames owned are those marked allocated.\<close>

definition pfdb_ok :: "nat \<Rightarrow> pfdb \<Rightarrow> nat list \<Rightarrow> bool" where
  "pfdb_ok k db fs \<longleftrightarrow> pfdb_inv db fs \<and> 0 < unat (avail db) \<and> unat (avail db) + k < 2 ^ 32"

definition allocated :: "pfdb \<Rightarrow> nat set" where
  "allocated db = {f. f < length (pfs db) \<and> pf_type (pfs db ! f) = PFTYPE_ALLOCATED}"

lemma avail_Suc:
  assumes "unat (a :: u32) + Suc k < 2 ^ 32"
  shows "unat (a + 1) = unat a + 1"
  using assms unat_add_nowrap [of a 1] by simp

interpretation pf_pool: frame_pool pfalloc pffree pfdb_ok allocated
proof
  show "\<exists>d'. pfalloc d = Some (f, d') \<and> pfdb_ok k d' fs \<and> allocated d' = insert f (allocated d)"
    if "pfdb_ok k d (f # fs)" for k d f fs
  proof -
    have "pfdb_inv d (f # fs)" "avail d \<noteq> 0" using that by (auto simp: pfdb_ok_def)
    from pfalloc_inv [OF this] pfdb_inv_Cons(2) [OF this(1)] obtain d' where
      d': "pfalloc d = Some (f, d')" "pfdb_inv d' fs" "pf_type (pfs d' ! f) = PFTYPE_ALLOCATED"
        "length (pfs d') = length (pfs d)" "avail d' = avail d" "f < length (pfs d)"
        "\<forall>g. g \<noteq> f \<longrightarrow> pf_type (pfs d' ! g) = pf_type (pfs d ! g)" by auto
    have "x \<in> allocated d' \<longleftrightarrow> x \<in> insert f (allocated d)" for x
      using d' by (cases "x = f") (auto simp: allocated_def)
    then show ?thesis using d' that by (auto simp: pfdb_ok_def)
  qed
  show "\<exists>d'. pffree f d = Some d' \<and> pfdb_ok k d' (f # fs) \<and> allocated d' = allocated d - {f}"
    if "pfdb_ok (Suc k) d fs" "fs \<noteq> []" "f \<in> allocated d" for k d f fs
  proof -
    from that have "pfdb_inv d fs" "f < length (pfs d)" "pf_type (pfs d ! f) = PFTYPE_ALLOCATED"
      by (auto simp: pfdb_ok_def allocated_def)
    from pffree_inv [OF this that(2)] obtain d' where
      d': "pffree f d = Some d'" "pfdb_inv d' (f # fs)" "length (pfs d') = length (pfs d)"
        "avail d' = avail d + 1" "\<forall>g. g \<noteq> f \<longrightarrow> pf_type (pfs d' ! g) = pf_type (pfs d ! g)" by auto
    have "unat (avail d + 1) = unat (avail d) + 1"
      using that(1) by (intro avail_Suc [of _ k]) (simp add: pfdb_ok_def)
    then have "pfdb_ok k d' (f # fs)" using that(1) d' by (simp add: pfdb_ok_def)
    moreover have "pf_type (pfs d' ! f) = PFTYPE_AVAILABLE"
      using d'(2,3) \<open>f < length (pfs d)\<close> by (auto simp: pfdb_inv_def)
    then have "x \<in> allocated d' \<longleftrightarrow> x \<in> allocated d - {f}" for x
      using d'(3,5) by (cases "x = f") (auto simp: allocated_def)
    then have "allocated d' = allocated d - {f}" by blast
    ultimately show ?thesis using d'(1) by blast
  qed
  show "distinct fs \<and> set fs \<inter> allocated d = {}" if "pfdb_ok k d fs" for k d fs
    using that by (auto simp: pfdb_ok_def pfdb_inv_def allocated_def)
qed

section \<open>Properties\<close>

text \<open>A database of \<open>n\<close> frames, all of them in one usable region but the first.\<close>

definition blank_pfdb :: "nat \<Rightarrow> pfdb" where
  "blank_pfdb n = \<lparr>pfs = replicate n zero_pf, pf_count = of_nat n, avail = 0,
     pf_head = PFN_INVALID, pf_tail = PFN_INVALID\<rparr>"

lemma blank_pfdb_inv: "n < 2 ^ 32 - 1 \<Longrightarrow> pfdb_inv (blank_pfdb n) [] \<and> tail_ok (blank_pfdb n) []"
  by (simp add: pfdb_inv_def tail_ok_def blank_pfdb_def zero_pf_def)

lemma small_pfdb:
  obtains db where "add_frames 0x1000 0x3000 (blank_pfdb 4) = Some db" "pfdb_inv db [1, 2, 3]"
    "avail db = 3" "allocated db = {}"
proof -
  have p: "unat (drop_bit 12 (0x1000 :: u64)) = 1" "unat (drop_bit 12 (0x1000 + 0x3000 :: u64)) = 4"
    by simp_all
  have u: "[1..<4] = [1, 2, 3::nat]" by (simp add: upt_conv_Cons)
  have b: "pfdb_inv (blank_pfdb 4) []" "tail_ok (blank_pfdb 4) []" using blank_pfdb_inv [of 4] by simp_all
  have "{1..<4} \<inter> set ([]::nat list) = {}" "(4::nat) \<le> length (pfs (blank_pfdb 4))" "(1::nat) < 4"
    by (simp_all add: blank_pfdb_def)
  from add_frames_inv [where addr = "0x1000" and sz = "0x3000", unfolded p, OF b this(3,2,1)]
  obtain db where db: "add_frames 0x1000 0x3000 (blank_pfdb 4) = Some db" "pfdb_inv db ([] @ [1..<4])"
    "length (pfs db) = length (pfs (blank_pfdb 4))" "avail db = avail (blank_pfdb 4) + of_nat (4 - 1)"
    "\<forall>f < length (pfs (blank_pfdb 4)). pf_type (pfs db ! f) =
       (if 1 \<le> f \<and> f < 4 then PFTYPE_AVAILABLE else pf_type (pfs (blank_pfdb 4) ! f))" by blast
  have "pf_type (pfs db ! f) \<noteq> PFTYPE_ALLOCATED" if "f < 4" for f
    using that db(5) by (auto simp: blank_pfdb_def zero_pf_def)
  then have "allocated db = {}" using db(3) by (auto simp: allocated_def blank_pfdb_def)
  then show thesis using that db(1,2,4) unfolding u by (simp add: blank_pfdb_def)
qed

text \<open>C34: a sequence of allocations and frees that is possible for a list of free frames and a
  set of frames in use, with every frame given back once and never while none is free, is
  carried out by the database on its linked records: no call fails, the calls return the results
  of the list, which hands out the frame at its front, and free and allocated frames stay the
  same partition of the same frames.\<close>

theorem frames_refine_pool:
  assumes "pfdb_inv db fs" and "0 < unat (avail db)" and "unat (avail db) + frees_of qs < 2 ^ 32"
    and "run pool_spec qs (fs, allocated db) = Some (rs, fs', own')"
  shows "\<exists>db'. run (op_step pfalloc pffree) qs db = Some (rs, db') \<and> pfdb_inv db' fs' \<and> allocated db' = own' \<and>
    distinct fs' \<and> set fs' \<inter> allocated db' = {} \<and>
    set fs' \<union> allocated db' = set fs \<union> allocated db"
proof -
  have "pfdb_ok (frees_of qs + 0) db fs" using assms(1-3) by (simp add: pfdb_ok_def)
  from pf_pool.run_simulates [OF this assms(4)] obtain db' where
    "run (op_step pfalloc pffree) qs db = Some (rs, db')" "pfdb_ok 0 db' fs'" "allocated db' = own'" by blast
  with pf_pool.pool_disjoint [of 0 db' fs'] pool_partition [OF assms(4)] show ?thesis
    by (auto simp: pfdb_ok_def)
qed

theorem frames_refine_pool_witness:
  "\<exists>db db'. add_frames 0x1000 0x3000 (blank_pfdb 4) = Some db \<and> pfdb_inv db [1, 2, 3] \<and>
     run (op_step pfalloc pffree) [Alloc, Alloc, Free 1, Alloc] db = Some ([Some 1, Some 2, None, Some 1], db') \<and> pfdb_inv db' [3] \<and>
     allocated db' = {1, 2}"
proof -
  obtain db where db: "add_frames 0x1000 0x3000 (blank_pfdb 4) = Some db" "pfdb_inv db [1, 2, 3]"
    "avail db = 3" "allocated db = {}" by (rule small_pfdb)
  then show ?thesis
    using frames_refine_pool [OF db(2), of "[Alloc, Alloc, Free 1, Alloc]" "[Some 1, Some 2, None, Some 1]" "[3]" "{1, 2}"] by auto
qed

text \<open>\<open>page_init\<close> links the frames of a usable region, in ascending order, behind the
  frames already on the list, and counts them; frames outside the region keep their type.\<close>

lemma add_frames_appends:
  assumes "pfdb_inv db fs" and "tail_ok db fs"
    and "addr div 0x1000 < (addr + sz) div 0x1000" and "unat ((addr + sz) div 0x1000) \<le> length (pfs db)"
    and "{unat (addr div 0x1000)..<unat ((addr + sz) div 0x1000)} \<inter> set fs = {}"
  shows "\<exists>db'. add_frames addr sz db = Some db' \<and>
    pfdb_inv db' (fs @ [unat (addr div 0x1000)..<unat ((addr + sz) div 0x1000)]) \<and>
    tail_ok db' (fs @ [unat (addr div 0x1000)..<unat ((addr + sz) div 0x1000)]) \<and>
    avail db' = avail db + of_nat (unat ((addr + sz) div 0x1000) - unat (addr div 0x1000)) \<and>
    allocated db' = allocated db - {unat (addr div 0x1000)..<unat ((addr + sz) div 0x1000)}"
proof -
  have d: "drop_bit 12 a = a div 0x1000" for a :: u64 by (simp add: drop_bit_eq_div)
  have "unat (addr div 0x1000) < unat ((addr + sz) div 0x1000)" using assms(3) by (simp add: word_less_nat_alt)
  from add_frames_inv [of db fs addr sz, unfolded d, OF assms(1,2) this assms(4,5)] obtain db' where
    db': "add_frames addr sz db = Some db'"
      "pfdb_inv db' (fs @ [unat (addr div 0x1000)..<unat ((addr + sz) div 0x1000)])"
      "tail_ok db' (fs @ [unat (addr div 0x1000)..<unat ((addr + sz) div 0x1000)])"
      "length (pfs db') = length (pfs db)"
      "avail db' = avail db + of_nat (unat ((addr + sz) div 0x1000) - unat (addr div 0x1000))"
      "\<forall>f < length (pfs db). pf_type (pfs db' ! f) =
        (if unat (addr div 0x1000) \<le> f \<and> f < unat ((addr + sz) div 0x1000) then PFTYPE_AVAILABLE
         else pf_type (pfs db ! f))" by blast
  have "allocated db' = allocated db - {unat (addr div 0x1000)..<unat ((addr + sz) div 0x1000)}"
    using db'(4,6) by (auto simp: allocated_def split: if_splits)
  then show ?thesis using db' by blast
qed

primrec alloc_n :: "nat \<Rightarrow> pfdb \<Rightarrow> pfdb option" where
  "alloc_n 0 db = Some db"
| "alloc_n (Suc n) db = do { (f, db) \<leftarrow> pfalloc db; alloc_n n db }"

text \<open>C35: \<open>pfalloc\<close> never lowers the number of available frames.  After every free frame has
  been handed out the count is what it was, so the check for exhausted memory passes and the
  next allocation takes the frame with the invalid number, outside the array; and giving a
  frame back while none is free also writes the record of the invalid number.\<close>

theorem pfalloc_misses_exhaustion:
  assumes "pfdb_inv db fs" and "avail db \<noteq> 0"
  shows "\<exists>db'. alloc_n (length fs) db = Some db' \<and> avail db' = avail db \<and>
    pf_head db' = PFN_INVALID \<and> length (pfs db') \<le> unat (pf_head db') \<and> pfalloc db' = None \<and>
    pffree f db' = None"
  using assms
proof (induction fs arbitrary: db)
  case Nil
  have h: "pf_head db = PFN_INVALID" "length (pfs db) \<le> unat (pf_head db)"
    using Nil(1) by (simp_all add: pfdb_inv_def PFN_INVALID_def)
  then have "pffree f db = None" by (simp add: pffree_def upd_pf_def)
  then show ?case using h pfalloc_empty [OF Nil(1)] by simp
next
  case (Cons g fs)
  from pfalloc_inv [OF Cons.prems] obtain db1 where
    "pfalloc db = Some (g, db1)" "pfdb_inv db1 fs" "avail db1 = avail db" by blast
  then show ?case using Cons.IH [of db1] Cons.prems(2) by simp
qed

theorem pfalloc_misses_exhaustion_witness:
  "\<exists>db db'. add_frames 0x1000 0x3000 (blank_pfdb 4) = Some db \<and> alloc_n 3 db = Some db' \<and>
    avail db' = 3 \<and> pfalloc db' = None"
proof -
  obtain db where db: "add_frames 0x1000 0x3000 (blank_pfdb 4) = Some db" "pfdb_inv db [1, 2, 3]" "avail db = 3"
    by (rule small_pfdb)
  from pfalloc_misses_exhaustion [OF db(2)] db(3) obtain db' where
    "alloc_n 3 db = Some db'" "avail db' = 3" "pfalloc db' = None" by (auto simp: numeral_3_eq_3)
  then show ?thesis using db(1) by blast
qed

end
