(* ===== verification/Kmem.thy ===== *)
theory Kmem
  imports PageTable Pmap
begin

text \<open>
  \<^verbatim>\<open>kernel/mem/kmem.c\<close>: the kernel's own page table, which identity maps the physical memory
  map with the largest pages that fit.  \<open>fatal\<close>, an interrupt that never returns, is \<open>None\<close>.
\<close>

section \<open>The code\<close>

definition KMEM_KERNEL_PAGETABLE :: u64 where "KMEM_KERNEL_PAGETABLE = 0x00020000"
definition KMEM_KERNEL_PAGETABLE_END :: u64 where "KMEM_KERNEL_PAGETABLE_END = 0x00070000"
definition KMEM_KERNEL_PAGETABLE_SIZE :: u64 where "KMEM_KERNEL_PAGETABLE_SIZE = 0x00050000"

definition get_pdflags :: "u32 \<Rightarrow> u64 option" where
  "get_pdflags memtype =
     (if memtype = pmemtype_val PMEMTYPE_ACPI_NVS \<or> memtype = pmemtype_val PMEMTYPE_UNCACHED
      then Some (PF_PRESENT OR PF_GLOBAL OR PF_SYSTEM OR PF_RW OR PF_PS OR PF_PWT OR PF_PCD)
      else if memtype = pmemtype_val PMEMTYPE_BAD \<or> memtype = pmemtype_val PMEMTYPE_UNMAPPED
      then Some 0
      else if memtype = pmemtype_val PMEMTYPE_USABLE \<or> memtype = pmemtype_val PMEMTYPE_RESERVED
        \<or> memtype = pmemtype_val PMEMTYPE_ACPI
      then Some (PF_PRESENT OR PF_GLOBAL OR PF_SYSTEM OR PF_RW OR PF_PS)
      else None)"

definition get_ptflags :: "u32 \<Rightarrow> u64 option" where
  "get_ptflags memtype =
     (if memtype = pmemtype_val PMEMTYPE_ACPI_NVS \<or> memtype = pmemtype_val PMEMTYPE_UNCACHED
      then Some (PF_PRESENT OR PF_GLOBAL OR PF_SYSTEM OR PF_RW OR PF_PWT OR PF_PCD)
      else if memtype = pmemtype_val PMEMTYPE_BAD \<or> memtype = pmemtype_val PMEMTYPE_UNMAPPED
      then Some 0
      else if memtype = pmemtype_val PMEMTYPE_USABLE \<or> memtype = pmemtype_val PMEMTYPE_RESERVED
        \<or> memtype = pmemtype_val PMEMTYPE_ACPI
      then Some (PF_PRESENT OR PF_GLOBAL OR PF_SYSTEM OR PF_RW)
      else None)"

definition alloc_page :: "pagetable \<Rightarrow> (u64 \<times> pagetable) option" where
  "alloc_page pt =
     (if vnext pt \<ge> vterm pt then None
      else Some (vnext pt OR PF_SYSTEM OR PF_PRESENT OR PF_RW, pt\<lparr>vnext := vnext pt + PAGE_SIZE\<rparr>))"

text \<open>\<open>if (page->entry[e] == 0) page->entry[e] = alloc_page(pt);\<close> and the pointer to the
  table the entry then refers to.\<close>

definition need_table :: "u64 \<Rightarrow> u64 \<Rightarrow> pagetable \<times> pmem \<Rightarrow> (u64 \<times> pagetable \<times> pmem) option" where
  "need_table page e = (\<lambda>(pt, m).
     if get_entry m page e = 0 then do {
       (v, pt) \<leftarrow> alloc_page pt;
       let m = set_entry page e v m;
       Some (PGPTR (get_entry m page e), pt, m)
     }
     else Some (PGPTR (get_entry m page e), pt, m))"

definition create_huge_page :: "u64 \<Rightarrow> u32 \<Rightarrow> pagetable \<times> pmem \<Rightarrow> (pagetable \<times> pmem) option" where
  "create_huge_page addr memtype s = do {
     (pdpt, pt, m) \<leftarrow> need_table (proot (fst s)) (PML4E addr) s;
     f \<leftarrow> get_pdflags memtype;
     Some (pt, set_entry pdpt (PDPTE addr) (addr OR f) m)
   }"

definition create_large_page :: "u64 \<Rightarrow> u32 \<Rightarrow> pagetable \<times> pmem \<Rightarrow> (pagetable \<times> pmem) option" where
  "create_large_page addr memtype s = do {
     (pdpt, s) \<leftarrow> need_table (proot (fst s)) (PML4E addr) s;
     (pdt, pt, m) \<leftarrow> need_table pdpt (PDPTE addr) s;
     f \<leftarrow> get_pdflags memtype;
     Some (pt, set_entry pdt (PDE addr) (addr OR f) m)
   }"

definition create_small_page :: "u64 \<Rightarrow> u32 \<Rightarrow> pagetable \<times> pmem \<Rightarrow> (pagetable \<times> pmem) option" where
  "create_small_page addr memtype s = do {
     (pdpt, s) \<leftarrow> need_table (proot (fst s)) (PML4E addr) s;
     (pdt, s) \<leftarrow> need_table pdpt (PDPTE addr) s;
     (ptt, pt, m) \<leftarrow> need_table pdt (PDE addr) s;
     f \<leftarrow> get_ptflags memtype;
     Some (pt, set_entry ptt (PTE addr) (addr OR f) m)
   }"

text \<open>The loop of \<open>map_region\<close>; it does not end when \<open>addr\<close> wraps around below \<open>term\<close>.\<close>

partial_function (option) map_pages ::
  "u64 \<Rightarrow> u64 \<Rightarrow> u32 \<Rightarrow> pagetable \<times> pmem \<Rightarrow> (pagetable \<times> pmem) option" where
  "map_pages addr end type s =
     (if addr < end then
        let remain = end - addr in
        if addr AND (PAGE_SIZE_HUGE - 1) = 0 \<and> remain \<ge> PAGE_SIZE_HUGE
        then do { s \<leftarrow> create_huge_page addr type s; map_pages (addr + PAGE_SIZE_HUGE) end type s }
        else if addr AND (PAGE_SIZE_LARGE - 1) = 0 \<and> remain \<ge> PAGE_SIZE_LARGE
        then do { s \<leftarrow> create_large_page addr type s; map_pages (addr + PAGE_SIZE_LARGE) end type s }
        else do { s \<leftarrow> create_small_page addr type s; map_pages (addr + PAGE_SIZE) end type s }
      else Some s)"

declare map_pages.simps [code]

definition map_region :: "pmap \<Rightarrow> pmapregion \<Rightarrow> pagetable \<times> pmem \<Rightarrow> (pagetable \<times> pmem) option" where
  "map_region mp r s =
     (if reg_type r = pmemtype_val PMEMTYPE_UNMAPPED \<or> reg_type r = pmemtype_val PMEMTYPE_BAD then Some s
      else if reg_type r = pmemtype_val PMEMTYPE_RESERVED \<and> reg_addr r \<ge> last_usable mp then Some s
      else map_pages (reg_addr r) (reg_addr r + reg_size r) (reg_type r) s)"

primrec map_regions :: "pmap \<Rightarrow> pmapregion list \<Rightarrow> pagetable \<times> pmem \<Rightarrow> (pagetable \<times> pmem) option" where
  "map_regions mp [] s = Some s"
| "map_regions mp (r # rs) s = do { s \<leftarrow> map_region mp r s; map_regions mp rs s }"

definition kmem_init :: "pmap \<Rightarrow> pmem \<Rightarrow> (pagetable \<times> pmem) option" where
  "kmem_init mp m =
     (let m = zero_mem KMEM_KERNEL_PAGETABLE KMEM_KERNEL_PAGETABLE_SIZE m;
          pt = \<lparr>proot = KMEM_KERNEL_PAGETABLE, vroot = KMEM_KERNEL_PAGETABLE,
                vnext = KMEM_KERNEL_PAGETABLE + PAGE_SIZE, vterm = KMEM_KERNEL_PAGETABLE_END\<rparr>
      in map_regions mp (region mp) (pt, m))"

end
