(* ===== verification/Paging.thy ===== *)
theory Paging
  imports Frames Kmem
begin

text \<open>
  \<^verbatim>\<open>kernel/mem/paging.c\<close>: page allocation, page tables for virtual address spaces, and the
  initialization of paging.  The state is the page frame database, the memory that holds page
  tables (reached through the kernel's identity mapping), the page table structures the
  callers keep, named by numbers with the kernel's own as number 0, and the privileged
  instructions issued.  \<open>fatal\<close> and an access outside the frame database are \<open>None\<close>, and so is
  an access of \<open>remove_pte\<close> through the null page, which is never mapped; the tables that \<open>grow\<close> and
  \<open>insert_pte\<close> reach are present or made on the way, so they have no such case.
\<close>

section \<open>State\<close>

datatype vm_event = SetPagetable u64 | InvalidatePage u64

record vm =
  vdb :: pfdb
  vmem :: pmem
  pts :: "nat \<Rightarrow> pagetable"
  active_pt :: nat
  vm_io :: "vm_event list"

definition kpt :: nat where "kpt = 0"

definition CONTAINS_TABLE :: u32 where "CONTAINS_TABLE = 1"

definition zero_pagetable :: pagetable where
  "zero_pagetable = \<lparr>proot = 0, vroot = 0, vnext = 0, vterm = 0\<rparr>"

definition set_vmem :: "(pmem \<Rightarrow> pmem) \<Rightarrow> vm \<Rightarrow> vm" where
  "set_vmem f vm = vm\<lparr>vmem := f (vmem vm)\<rparr>"

definition set_pt :: "nat \<Rightarrow> (pagetable \<Rightarrow> pagetable) \<Rightarrow> vm \<Rightarrow> vm" where
  "set_pt i f vm = vm\<lparr>pts := (pts vm)(i := f (pts vm i))\<rparr>"

definition emit :: "vm_event \<Rightarrow> vm \<Rightarrow> vm" where
  "emit ev vm = vm\<lparr>vm_io := vm_io vm @ [ev]\<rparr>"

text \<open>The 512 entries of a page.\<close>

definition entries :: "u64 list" where "entries = map of_nat [0..<512]"

section \<open>Pages\<close>

definition pgalloc :: "vm \<Rightarrow> (u64 \<times> vm) option" where
  "pgalloc vm = do {
     (pf, db) \<leftarrow> pfalloc (vdb vm);
     let paddr = push_bit 12 (of_nat pf);
     Some (paddr, set_vmem (zero_mem paddr PAGE_SIZE) (vm\<lparr>vdb := db\<rparr>))
   }"

definition pgfree :: "u64 \<Rightarrow> vm \<Rightarrow> vm option" where
  "pgfree paddr vm = do {
     let pf = unat (drop_bit 12 paddr);
     db \<leftarrow> upd_pf pf (\<lambda>p. p\<lparr>refcount := refcount p - 1\<rparr>) (vdb vm);
     db \<leftarrow> (if refcount (pfs db ! pf) = 0 then pffree pf db else Some db);
     Some (vm\<lparr>vdb := db\<rparr>)
   }"

text \<open>One entry of a lowest-level table.\<close>

definition pgfree_leaf :: "u64 \<Rightarrow> u64 \<Rightarrow> vm \<Rightarrow> vm option" where
  "pgfree_leaf page e vm =
     (let paddr = PGPTR (get_entry (vmem vm) page e) in
      if paddr = 0 then Some vm
      else let pf = unat (drop_bit 12 paddr) in
        if pf \<ge> length (pfs (vdb vm)) then None
        else if pf_type (pfs (vdb vm) ! pf) = PFTYPE_ALLOCATED then pgfree paddr vm
        else Some vm)"

primrec pgfree_recurse :: "nat \<Rightarrow> u64 \<Rightarrow> vm \<Rightarrow> vm option" where
  "pgfree_recurse 0 page vm = None"
| "pgfree_recurse (Suc l) page vm =
     (if l = 0 then foldM (pgfree_leaf page) entries vm
      else foldM (\<lambda>e vm.
             if get_entry (vmem vm) page e AND PF_SYSTEM \<noteq> 0 then Some vm
             else let child = PGPTR (get_entry (vmem vm) page e) in
               if child = 0 then Some vm else pgfree_recurse l child vm) entries vm)"

section \<open>Page table entries\<close>

text \<open>Follow an entry to the table below, creating the table if the entry is empty; the list
  collects the pages created (\<open>added\<close>).\<close>

definition grow :: "u64 \<Rightarrow> u64 \<Rightarrow> u64 list \<times> vm \<Rightarrow> (u64 \<times> u64 list \<times> vm) option" where
  "grow page e = (\<lambda>(added, vm).
     if get_entry (vmem vm) page e = 0 then do {
       (pgaddr, vm) \<leftarrow> pgalloc vm;
       let vm = set_vmem (set_entry page e (pgaddr OR PF_PRESENT OR PF_RW)) vm;
       Some (PGPTR (get_entry (vmem vm) page e), added @ [pgaddr], vm)
     }
     else Some (PGPTR (get_entry (vmem vm) page e), added, vm))"

text \<open>The part of \<open>add_pte\<close> before its loop.\<close>

definition insert_pte :: "nat \<Rightarrow> u64 \<Rightarrow> u64 \<Rightarrow> u64 \<Rightarrow> vm \<Rightarrow> (u64 list \<times> vm) option" where
  "insert_pte i vaddr paddr pflags vm =
     (let pml4t = proot (pts vm i); e = get_entry (vmem vm) pml4t (PML4E vaddr) in
      if e \<noteq> 0 \<and> e AND PF_SYSTEM \<noteq> 0 then None
      else do {
        (pdpt, s) \<leftarrow> grow pml4t (PML4E vaddr) ([], vm);
        (pdt, s) \<leftarrow> grow pdpt (PDPTE vaddr) s;
        (ptt, added, vm) \<leftarrow> grow pdt (PDE vaddr) s;
        Some (added, set_vmem (set_entry ptt (PTE vaddr) (paddr OR pflags)) vm)
      })"

definition bump_vnext :: "nat \<Rightarrow> vm \<Rightarrow> vm" where
  "bump_vnext i vm = set_pt i (\<lambda>pt. pt\<lparr>vnext := vnext pt + PAGE_SIZE\<rparr>) vm"

text \<open>\<open>add_pte\<close> and its loop over the pages added, which calls it again; the first argument
  bounds the depth of the calls.\<close>

fun add_pte_depth :: "nat \<Rightarrow> nat \<Rightarrow> u64 \<Rightarrow> u64 \<Rightarrow> u64 \<Rightarrow> u32 \<Rightarrow> vm \<Rightarrow> vm option"
  and add_tables :: "nat \<Rightarrow> nat \<Rightarrow> u64 list \<Rightarrow> vm \<Rightarrow> vm option" where
  "add_pte_depth 0 i vaddr paddr pflags addflags vm = None"
| "add_pte_depth (Suc n) i vaddr paddr pflags addflags vm =
     (if addflags AND CONTAINS_TABLE \<noteq> 0 \<and> vaddr \<ge> vterm (pts vm i) then None
      else do {
        (added, vm) \<leftarrow> insert_pte i vaddr paddr pflags vm;
        add_tables n i added vm
      })"
| "add_tables n i [] vm = Some vm"
| "add_tables n i (a # as) vm = do {
     vm \<leftarrow> add_pte_depth n i (vnext (pts vm i)) a (PF_PRESENT OR PF_RW) CONTAINS_TABLE vm;
     add_tables n i as (bump_vnext i vm)
   }"

text \<open>Each call that calls again has taken a frame, so the number of frames bounds the depth.\<close>

definition add_pte :: "nat \<Rightarrow> u64 \<Rightarrow> u64 \<Rightarrow> u64 \<Rightarrow> u32 \<Rightarrow> vm \<Rightarrow> vm option" where
  "add_pte i vaddr paddr pflags addflags vm =
     add_pte_depth (length (pfs (vdb vm)) + 2) i vaddr paddr pflags addflags vm"

text \<open>The same two routines without a bound, as the calls that end and their results:
  \<open>add_pte_ends i vaddr paddr pflags addflags vm r\<close> says that the call ends, with \<open>r\<close> the state
  it leaves, or \<open>None\<close> when it ends in \<open>fatal\<close>.  A recursion that goes on for ever has no result.\<close>

inductive add_pte_ends :: "nat \<Rightarrow> u64 \<Rightarrow> u64 \<Rightarrow> u64 \<Rightarrow> u32 \<Rightarrow> vm \<Rightarrow> vm option \<Rightarrow> bool"
  and add_tables_end :: "nat \<Rightarrow> u64 list \<Rightarrow> vm \<Rightarrow> vm option \<Rightarrow> bool" where
  window_full: "addflags AND CONTAINS_TABLE \<noteq> 0 \<Longrightarrow> vaddr \<ge> vterm (pts vm i) \<Longrightarrow>
     add_pte_ends i vaddr paddr pflags addflags vm None"
| insert_fatal: "\<not> (addflags AND CONTAINS_TABLE \<noteq> 0 \<and> vaddr \<ge> vterm (pts vm i)) \<Longrightarrow>
     insert_pte i vaddr paddr pflags vm = None \<Longrightarrow> add_pte_ends i vaddr paddr pflags addflags vm None"
| inserted: "\<not> (addflags AND CONTAINS_TABLE \<noteq> 0 \<and> vaddr \<ge> vterm (pts vm i)) \<Longrightarrow>
     insert_pte i vaddr paddr pflags vm = Some (added, vm') \<Longrightarrow> add_tables_end i added vm' r \<Longrightarrow>
     add_pte_ends i vaddr paddr pflags addflags vm r"
| no_table: "add_tables_end i [] vm (Some vm)"
| table_fatal: "add_pte_ends i (vnext (pts vm i)) a (PF_PRESENT OR PF_RW) CONTAINS_TABLE vm None \<Longrightarrow>
     add_tables_end i (a # as) vm None"
| table_added: "add_pte_ends i (vnext (pts vm i)) a (PF_PRESENT OR PF_RW) CONTAINS_TABLE vm (Some vm') \<Longrightarrow>
     add_tables_end i as (bump_vnext i vm') r \<Longrightarrow> add_tables_end i (a # as) vm r"

inductive_cases add_pte_endsE: "add_pte_ends i vaddr paddr pflags addflags vm r"
inductive_cases no_table_endE: "add_tables_end i [] vm r"
inductive_cases table_endE: "add_tables_end i (a # as) vm r"

lemma add_pte_ends_unique:
  "add_pte_ends i vaddr paddr pflags addflags vm r \<Longrightarrow> add_pte_ends i vaddr paddr pflags addflags vm r' \<Longrightarrow> r' = r"
  "add_tables_end i added vm r \<Longrightarrow> add_tables_end i added vm r' \<Longrightarrow> r' = r"
proof (induction i vaddr paddr pflags addflags vm r and i added vm r arbitrary: r' and r'
    rule: add_pte_ends_add_tables_end.inducts)
  case (window_full addflags vaddr vm i paddr pflags)
  from window_full.prems show ?case by (rule add_pte_endsE) (use window_full.hyps in auto)
next
  case (insert_fatal addflags vaddr vm i paddr pflags)
  from insert_fatal.prems show ?case by (rule add_pte_endsE) (use insert_fatal.hyps in auto)
next
  case (inserted addflags vaddr vm i paddr pflags added vm' r)
  have "add_tables_end i added vm' r'"
    using inserted.prems by (rule add_pte_endsE) (use inserted.hyps in auto)
  then show ?case by (rule inserted.IH)
next
  case (no_table i vm)
  then show ?case by (rule no_table_endE)
next
  case (table_fatal i vm a as)
  from table_fatal.prems show ?case by (rule table_endE) (auto dest: table_fatal.IH)
next
  case (table_added i vm a vm' as r)
  have "add_tables_end i as (bump_vnext i vm') r'"
    using table_added.prems by (rule table_endE) (auto dest: table_added.IH(1))
  then show ?case by (rule table_added.IH(2))
qed

definition remove_pte :: "nat \<Rightarrow> u64 \<Rightarrow> vm \<Rightarrow> (u64 \<times> vm) option" where
  "remove_pte i vaddr vm =
     (let pml4t = proot (pts vm i);
          pdpt = PGPTR (get_entry (vmem vm) pml4t (PML4E vaddr));
          pdt = PGPTR (get_entry (vmem vm) pdpt (PDPTE vaddr));
          ptt = PGPTR (get_entry (vmem vm) pdt (PDE vaddr));
          pg = PGPTR (get_entry (vmem vm) ptt (PTE vaddr))
      in if pdpt = 0 \<or> pdt = 0 \<or> ptt = 0 then None
         else
           let vm = set_vmem (set_entry ptt (PTE vaddr) 0) vm;
               vm = (if i = active_pt vm then emit (InvalidatePage vaddr) vm else vm)
           in Some (pg, vm))"

section \<open>Page tables and pages of an address space\<close>

definition pagetable_create :: "nat \<Rightarrow> u64 \<Rightarrow> u64 \<Rightarrow> vm \<Rightarrow> vm option" where
  "pagetable_create i vaddr sz vm =
     (if sz mod PAGE_SIZE \<noteq> 0 then None
      else do {
        (root, vm) \<leftarrow> pgalloc vm;
        let vm = set_pt i (\<lambda>_. \<lparr>proot = root, vroot = vaddr, vnext = vaddr + PAGE_SIZE, vterm = vaddr + sz\<rparr>) vm;
        Some (fold (\<lambda>e. set_vmem (\<lambda>m. set_entry (proot (pts vm i)) e (get_entry m (proot (pts vm kpt)) e) m))
                entries vm)
      })"

partial_function (option) invalidate_pages :: "u64 \<Rightarrow> u64 \<Rightarrow> vm \<Rightarrow> vm option" where
  "invalidate_pages vaddr end vm =
     (if vaddr < end then invalidate_pages (vaddr + PAGE_SIZE) end (emit (InvalidatePage vaddr) vm)
      else Some vm)"

declare invalidate_pages.simps [code]

definition pagetable_destroy :: "nat \<Rightarrow> vm \<Rightarrow> vm option" where
  "pagetable_destroy i vm =
     (if proot (pts vm i) = 0 then None
      else do {
        vm \<leftarrow> pgfree_recurse 4 (proot (pts vm i)) vm;
        vm \<leftarrow> (if i = active_pt vm then invalidate_pages (vroot (pts vm i)) (vterm (pts vm i)) vm
              else Some vm);
        Some (set_pt i (\<lambda>_. zero_pagetable) vm)
      })"

definition pagetable_activate :: "nat option \<Rightarrow> vm \<Rightarrow> vm option" where
  "pagetable_activate pt vm =
     (let i = (case pt of None \<Rightarrow> kpt | Some i \<Rightarrow> i) in
      if proot (pts vm i) = 0 then None
      else Some ((emit (SetPagetable (proot (pts vm i))) vm)\<lparr>active_pt := i\<rparr>))"

primrec alloc_pages :: "nat \<Rightarrow> nat \<Rightarrow> u64 \<Rightarrow> vm \<Rightarrow> vm option" where
  "alloc_pages i 0 vaddr vm = Some vm"
| "alloc_pages i (Suc n) vaddr vm = do {
     (paddr, vm) \<leftarrow> pgalloc vm;
     vm \<leftarrow> add_pte i vaddr paddr (PF_PRESENT OR PF_RW) 0 vm;
     alloc_pages i n (vaddr + PAGE_SIZE) vm
   }"

primrec free_pages :: "nat \<Rightarrow> nat \<Rightarrow> u64 \<Rightarrow> vm \<Rightarrow> vm option" where
  "free_pages i 0 vaddr vm = Some vm"
| "free_pages i (Suc n) vaddr vm = do {
     (paddr, vm) \<leftarrow> remove_pte i vaddr vm;
     vm \<leftarrow> pgfree paddr vm;
     free_pages i n (vaddr + PAGE_SIZE) vm
   }"

text \<open>The loops run until \<open>count\<close> is 0; below 0 it counts down until it overflows.\<close>

definition page_alloc :: "nat \<Rightarrow> u64 \<Rightarrow> int \<Rightarrow> vm \<Rightarrow> (u64 \<times> vm) option" where
  "page_alloc i vaddr cnt vm =
     (if cnt < 0 then None else do { vm \<leftarrow> alloc_pages i (nat cnt) vaddr vm; Some (vaddr, vm) })"

definition page_free :: "nat \<Rightarrow> u64 \<Rightarrow> int \<Rightarrow> vm \<Rightarrow> vm option" where
  "page_free i vaddr cnt vm = (if cnt < 0 then None else free_pages i (nat cnt) vaddr vm)"

section \<open>Initialization\<close>

text \<open>The loop of \<open>reserve_region\<close> over the regions; \<open>None\<close> inside the result is the null
  pointer.\<close>

fun reserve_in :: "pmapregion list \<Rightarrow> u64 \<Rightarrow> nat \<Rightarrow> pmap_state \<Rightarrow> (u64 option \<times> pmap_state) option" where
  "reserve_in [] sz k s = Some (None, s)"
| "reserve_in (r # rs) sz k s =
     (let paddr = push_bit k (drop_bit k (reg_addr r + push_bit k 1 - 1)) in
      if reg_type r \<noteq> pmemtype_val PMEMTYPE_USABLE then reserve_in rs sz k s
      else if reg_size r < sz then reserve_in rs sz k s
      else if paddr + sz > reg_addr r + reg_size r then reserve_in rs sz k s
      else do { s \<leftarrow> pmap_add paddr sz PMEMTYPE_RESERVED s; Some (Some paddr, s) })"

definition reserve_region :: "u64 \<Rightarrow> nat \<Rightarrow> pmap_state \<Rightarrow> (u64 option \<times> pmap_state) option" where
  "reserve_region sz k s = reserve_in (region (pm_map s)) sz k s"

definition init_frames :: "pmap \<Rightarrow> pfdb \<Rightarrow> pfdb option" where
  "init_frames mp = foldM (\<lambda>r db.
     if reg_type r \<noteq> pmemtype_val PMEMTYPE_USABLE then Some db
     else add_frames (reg_addr r) (reg_size r) db) (region mp)"

text \<open>The result is the memory map, changed by the reservation, and the paging state.\<close>

definition page_init :: "pmap_state \<Rightarrow> pmem \<Rightarrow> (pmap_state \<times> vm) option" where
  "page_init s m =
     (if last_usable (pm_map s) = 0 then None
      else do {
        let cnt = (ucast (last_usable (pm_map s) div PAGE_SIZE) :: u32);
        let pfdbsize = push_bit 21 (drop_bit 21 (ucast cnt * 32 + (PAGE_SIZE_LARGE - 1)));
        (pf, s) \<leftarrow> reserve_region pfdbsize 21 s;
        pf \<leftarrow> (if pf = Some 0 then None else pf);
        (pt, m) \<leftarrow> kmem_init (pm_map s) m;
        let db = \<lparr>pfs = replicate (unat cnt) zero_pf, pf_count = cnt, avail = 0,
                  pf_head = PFN_INVALID, pf_tail = PFN_INVALID\<rparr>;
        db \<leftarrow> init_frames (pm_map s) db;
        Some (s, \<lparr>vdb = db, vmem = m, pts = (\<lambda>_. zero_pagetable)(kpt := pt), active_pt = kpt,
                  vm_io = [SetPagetable (proot pt)]\<rparr>)
      })"

end
