(* ===== verification/Vspace.thy ===== *)
theory Vspace
  imports Paging
begin

text \<open>
  What \<^verbatim>\<open>kernel/mem/paging.c\<close> does to a virtual address space.  \<open>space i K fs tab vm\<close> is the
  invariant of page table \<open>i\<close>: its tables form the tree \<open>tab\<close>, an entry above the lowest level
  is empty or a link, the root's entries in \<open>K\<close> are the kernel's, and the free frames \<open>fs\<close> are
  not tables.  \<open>pagetable_create\<close> establishes it; \<open>add_pte\<close>, \<open>page_alloc\<close> and \<open>page_free\<close> keep it
  and change the translation of the addresses they are asked to change, and of addresses in the
  window the tables themselves are mapped in.
\<close>

section \<open>Frames as pages\<close>

definition frame_addr :: "nat \<Rightarrow> u64" where "frame_addr f = push_bit 12 (of_nat f)"

lemma bit_frame: "f < 2 ^ 32 \<Longrightarrow> bit (frame_addr f) n \<longleftrightarrow> 12 \<le> n \<and> n < 44 \<and> bit f (n - 12)"
proof -
  assume f: "f < 2 ^ 32"
  have "k < 32" if "bit f k" for k
  proof (rule ccontr)
    assume "\<not> k < 32"
    then have "f < 2 ^ k" using f by (meson less_le_trans one_le_numeral power_increasing not_less)
    then show False using that by (simp add: bit_iff_odd)
  qed
  from this [of "n - 12"] show ?thesis by (auto simp: frame_addr_def bit_push_bit_iff bit_of_nat_iff)
qed

lemma flags_mask: "PF_PRESENT OR PF_RW = mask 2" "PGMASK_OFFSET = mask 10"
  "(0x000ffffffffff000 :: u64) = mask 52 AND NOT (mask 12)" "(0xfff :: u64) = mask 12"
  by (simp_all add: pf_flag_defs PGMASK_OFFSET_def mask_eq_exp_minus_1)

lemma flag_bits: "v AND PF_PRESENT = 0 \<longleftrightarrow> \<not> bit v 0" "v AND PF_PS = 0 \<longleftrightarrow> \<not> bit v 7"
  "v AND PF_SYSTEM = 0 \<longleftrightarrow> \<not> bit v 9"
  using and_exp_eq_0_iff_not_bit [of v 0] and_exp_eq_0_iff_not_bit [of v 7] and_exp_eq_0_iff_not_bit [of v 9]
  by (simp_all add: pf_flag_defs)

lemma frame_aligned: "f < 2 ^ 32 \<Longrightarrow> aligned (frame_addr f)"
  unfolding aligned_def flags_mask by (rule bit_word_eqI) (simp add: bit_simps bit_frame)

lemma frame_links:
  assumes "f < 2 ^ 32"
  shows "links_to (frame_addr f OR PF_PRESENT OR PF_RW) (frame_addr f)"
proof -
  have "bit (frame_addr f OR PF_PRESENT OR PF_RW) n \<longleftrightarrow> bit (frame_addr f) n \<or> n < 2" for n
    unfolding flags_mask by (auto simp: bit_simps)
  note b = this bit_frame [OF assms]
  have "present (frame_addr f OR PF_PRESENT OR PF_RW)"
    "(frame_addr f OR PF_PRESENT OR PF_RW) AND PF_PS = 0"
    by (simp_all only: present_def flag_bits b) simp_all
  moreover have "table_addr (frame_addr f OR PF_PRESENT OR PF_RW) = frame_addr f"
    unfolding table_addr_def flags_mask(3) by (rule bit_word_eqI) (auto simp: bit_and_iff bit_not_iff bit_mask_iff b)
  moreover have "PGPTR (frame_addr f OR PF_PRESENT OR PF_RW) = frame_addr f"
    unfolding PGPTR_def flags_mask(2) by (rule bit_word_eqI) (auto simp: bit_and_iff bit_not_iff bit_mask_iff b)
  ultimately show ?thesis by (simp add: links_to_def)
qed

lemma frame_user:
  assumes "f < 2 ^ 32"
  shows "(frame_addr f OR PF_PRESENT OR PF_RW) AND PF_SYSTEM = 0"
  unfolding flag_bits flags_mask using bit_frame [OF assms, of 9] by (simp add: bit_simps)

lemma unat_frame: "f < 2 ^ 32 \<Longrightarrow> unat (frame_addr f) = 4096 * f"
  by (simp add: frame_addr_def push_bit_eq_mult unat_word_ariths unat_of_nat)

lemma frame_inj: "f < 2 ^ 32 \<Longrightarrow> g < 2 ^ 32 \<Longrightarrow> frame_addr f = frame_addr g \<longleftrightarrow> f = g"
  by (metis unat_frame mult_left_cancel zero_neq_numeral)

section \<open>The invariant of an address space\<close>

definition space :: "nat \<Rightarrow> u64 set \<Rightarrow> nat list \<Rightarrow> tables \<Rightarrow> vm \<Rightarrow> bool" where
  "space i K fs tab vm \<longleftrightarrow>
     pfdb_inv (vdb vm) fs \<and> tree (vmem vm) tab K \<and> tab [] = Some (proot (pts vm i)) \<and>
     (\<forall>e < 512. e \<in> K \<longleftrightarrow> get_entry (vmem vm) (proot (pts vm i)) e AND PF_SYSTEM \<noteq> 0) \<and>
     (\<forall>xs e p. tab xs = Some p \<and> length xs < 3 \<and> e < 512 \<and> tab (xs @ [e]) = None \<and> \<not> foreign K (xs @ [e]) \<longrightarrow>
        get_entry (vmem vm) p e = 0) \<and>
     (\<forall>f \<in> set fs. frame_addr f \<notin> ran tab)"

lemma spaceD:
  assumes "space i K fs tab vm"
  shows "pfdb_inv (vdb vm) fs" "tree (vmem vm) tab K" "tab [] = Some (proot (pts vm i))"
    and "e < 512 \<Longrightarrow> e \<in> K \<longleftrightarrow> get_entry (vmem vm) (proot (pts vm i)) e AND PF_SYSTEM \<noteq> 0"
    and "tab xs = Some p \<Longrightarrow> length xs < 3 \<Longrightarrow> e < 512 \<Longrightarrow> tab (xs @ [e]) = None \<Longrightarrow> \<not> foreign K (xs @ [e]) \<Longrightarrow>
      get_entry (vmem vm) p e = 0"
    and "f \<in> set fs \<Longrightarrow> frame_addr f \<notin> ran tab" "f \<in> set fs \<Longrightarrow> f < 2 ^ 32" "distinct fs"
proof -
  show "f < 2 ^ 32" if "f \<in> set fs"
    using assms that links_bound [of "pfs (vdb vm)" "pf_head (vdb vm)" fs f]
    by (fastforce simp: space_def pfdb_inv_def)
qed (use assms in \<open>auto simp: space_def pfdb_inv_def\<close>)

text \<open>What an operation that takes frames and builds tables leaves as it was.\<close>

definition grown :: "nat \<Rightarrow> u64 set \<Rightarrow> nat list \<Rightarrow> tables \<Rightarrow> vm \<Rightarrow> nat list \<Rightarrow> nat list \<Rightarrow> tables \<Rightarrow> vm \<Rightarrow> bool" where
  "grown i K fs tab vm taken fs' tab' vm' \<longleftrightarrow>
     fs = taken @ fs' \<and> space i K fs' tab' vm' \<and>
     tab \<subseteq>\<^sub>m tab' \<and> ran tab' \<subseteq> ran tab \<union> frame_addr ` set taken \<and>
     proot (pts vm' i) = proot (pts vm i) \<and> vterm (pts vm' i) = vterm (pts vm i) \<and>
     (\<forall>j. j \<noteq> i \<longrightarrow> pts vm' j = pts vm j) \<and>
     active_pt vm' = active_pt vm \<and> vm_io vm' = vm_io vm \<and> avail (vdb vm') = avail (vdb vm) \<and>
     length (pfs (vdb vm')) = length (pfs (vdb vm)) \<and>
     allocated (vdb vm') = set taken \<union> allocated (vdb vm) \<and>
     (\<forall>f. refcount (pfs (vdb vm') ! f) = (if f \<in> set taken then 1 else refcount (pfs (vdb vm) ! f))) \<and>
     (\<forall>p e. aligned p \<and> e < 512 \<and> p \<notin> ran tab' \<and> p \<notin> frame_addr ` set taken \<longrightarrow>
        get_entry (vmem vm') p e = get_entry (vmem vm) p e)"

lemma grown_refl: "space i K fs tab vm \<Longrightarrow> grown i K fs tab vm [] fs tab vm"
  by (simp add: grown_def)

lemma grown_trans:
  assumes "grown i K fs tab vm ts fs1 tab1 vm1" and "grown i K fs1 tab1 vm1 us fs2 tab2 vm2"
  shows "grown i K fs tab vm (ts @ us) fs2 tab2 vm2"
proof -
  have "ran tab1 \<subseteq> ran tab2" using assms(2) by (auto simp: grown_def map_le_def ran_def dom_def) metis
  note sub = subsetD [OF this]
  have one: "get_entry (vmem vm1) p e = get_entry (vmem vm) p e"
    if "aligned p" "e < 512" "p \<notin> ran tab1" "p \<notin> frame_addr ` set ts" for p e
    using assms(1) that unfolding grown_def by blast
  have two: "get_entry (vmem vm2) p e = get_entry (vmem vm1) p e"
    if "aligned p" "e < 512" "p \<notin> ran tab2" "p \<notin> frame_addr ` set us" for p e
    using assms(2) that unfolding grown_def by blast
  have "get_entry (vmem vm2) p e = get_entry (vmem vm) p e"
    if "aligned p" "e < 512" "p \<notin> ran tab2" "p \<notin> frame_addr ` set (ts @ us)" for p e
    using two [of p e] one [of p e] that sub [of p] by (auto simp: image_Un)
  moreover have "ran tab2 \<subseteq> ran tab \<union> frame_addr ` set (ts @ us)"
    using assms by (auto simp: grown_def image_Un)
  ultimately show ?thesis using assms by (auto simp: grown_def intro: map_le_trans)
qed

text \<open>The paths through page tables a program can use.\<close>

definition user_path :: "u64 set \<Rightarrow> u64 list \<Rightarrow> bool" where
  "user_path K es \<longleftrightarrow> length es = 4 \<and> (\<forall>e \<in> set es. e < 512) \<and> \<not> foreign K es"

abbreviation walks :: "nat \<Rightarrow> vm \<Rightarrow> u64 list \<Rightarrow> (nat \<times> u64) option" where
  "walks i vm \<equiv> lwalk (vmem vm) (proot (pts vm i))"

section \<open>A page\<close>

lemma pgalloc_space:
  assumes s: "space i K fs tab vm" and a: "pgalloc vm = Some (a, vm')"
  obtains f fs' where "a = frame_addr f" "grown i K fs tab vm [f] fs' tab vm'" "pts vm' = pts vm"
    "\<And>es. user_path K es \<Longrightarrow> walks i vm' es = walks i vm es"
    "\<And>e. e < 512 \<Longrightarrow> get_entry (vmem vm') a e = 0" "a \<notin> ran tab" "aligned a"
    "\<And>p e. aligned p \<Longrightarrow> e < 512 \<Longrightarrow> p \<noteq> a \<Longrightarrow> get_entry (vmem vm') p e = get_entry (vmem vm) p e"
proof -
  from a obtain f db where al: "pfalloc (vdb vm) = Some (f, db)" "a = frame_addr f"
    "vm' = set_vmem (zero_mem a PAGE_SIZE) (vm\<lparr>vdb := db\<rparr>)"
    by (auto simp: pgalloc_def frame_addr_def bind_eq_Some_conv Let_def)
  note inv = spaceD(1) [OF s]
  have "avail (vdb vm) \<noteq> 0" using al(1) by (auto simp: pfalloc_def)
  moreover obtain g fs' where fs: "fs = g # fs'"
    using al(1) inv pfalloc_empty by (cases fs) auto
  ultimately obtain db' where db': "pfalloc (vdb vm) = Some (g, db')" "pfdb_inv db' fs'"
    "pf_type (pfs db' ! g) = PFTYPE_ALLOCATED" "length (pfs db') = length (pfs (vdb vm))"
    "avail db' = avail (vdb vm)" "refcount (pfs db' ! g) = 1" "\<forall>h. h \<noteq> g \<longrightarrow> pf_type (pfs db' ! h) = pf_type (pfs (vdb vm) ! h)"
    "\<forall>h. h \<noteq> g \<longrightarrow> refcount (pfs db' ! h) = refcount (pfs (vdb vm) ! h)"
    using pfalloc_inv [of "vdb vm" g fs'] inv by auto
  have g: "f = g" "db = db'" using al(1) db'(1) by simp_all
  have f: "f < 2 ^ 32" "frame_addr f \<notin> ran tab" using spaceD(6,7) [OF s, of f] fs g by auto
  have at: "get_entry (vmem vm') p e = (if p = a then 0 else get_entry (vmem vm) p e)"
    if "aligned p" "e < 512" for p e
    using that get_zero_page [of p a e] frame_aligned [OF f(1)] by (simp add: al set_vmem_def)
  have same: "get_entry (vmem vm') p e = get_entry (vmem vm) p e" if "tab xs = Some p" "e < 512" for xs p e
    using that at treeD(1) [OF spaceD(2) [OF s]] f(2) al(2) by (auto simp: ran_def)
  have t: "tree (vmem vm') tab K" by (rule tree_cong [OF spaceD(2) [OF s] same])
  have pts: "pts vm' = pts vm" "vdb vm' = db'" using al g by (simp_all add: set_vmem_def)
  have root: "tab [] = Some (proot (pts vm i))" using spaceD(3) [OF s] .
  have sp: "space i K fs' tab vm'"
    unfolding space_def pts
    using db'(2) t root spaceD [OF s] fs same by auto
  have al': "allocated (vdb vm') = {f} \<union> allocated (vdb vm)"
    using db' pfdb_inv_Cons(2) [OF inv [unfolded fs]] by (force simp: allocated_def pts g)
  show thesis
  proof (rule that [of f fs'])
    show "grown i K fs tab vm [f] fs' tab vm'"
      using sp al' pts fs g at db'(4-) by (simp add: grown_def al(2)) (auto simp: al set_vmem_def)
    show "walks i vm' es = walks i vm es" if "user_path K es" for es
      using lwalk_cong [OF spaceD(2) [OF s] same root, where es = es] that by (simp add: user_path_def pts)
  qed (use al pts at f frame_aligned in auto)
qed

section \<open>Page table entries\<close>

lemma grownD:
  assumes "grown i K fs tab vm ts fs' tab' vm'"
  shows "fs = ts @ fs'" "space i K fs' tab' vm'" "tab xs = Some p \<Longrightarrow> tab' xs = Some p"
    "proot (pts vm' i) = proot (pts vm i)" "ran tab \<subseteq> ran tab'"
  using assms by (auto simp: grown_def map_le_def ran_def dom_def) (metis option.distinct(1))+

lemma grow_space:
  assumes s: "space i K fs tab vm" and xs: "tab xs = Some page" "length xs < 3" and e: "e < 512"
    and fo: "\<not> foreign K (xs @ [e])" and g: "grow page e (added, vm) = Some (q, added', vm')"
  obtains ts fs' tab' where "grown i K fs tab vm ts fs' tab' vm'" "pts vm' = pts vm"
    "added' = added @ map frame_addr ts" "tab' (xs @ [e]) = Some q"
    "\<And>es. user_path K es \<Longrightarrow> walks i vm' es = walks i vm es"
    "\<And>S. finite S \<Longrightarrow> xs @ [e] \<in> S \<Longrightarrow> card (S - dom tab) = length ts + card (S - dom tab')"
proof (cases "get_entry (vmem vm) page e = 0")
  case False
  then obtain r where r: "tab (xs @ [e]) = Some r" using spaceD(5) [OF s xs e _ fo] by fastforce
  with spaceD(2) [OF s] obtain p where "tab xs = Some p" "links_to (get_entry (vmem vm) p e) r"
    by (rule tree_link)
  then have "q = r" "added' = added" "vm' = vm" using g xs False by (auto simp: grow_def links_to_def)
  then show thesis using that [of "[]" fs tab] grown_refl [OF s] r by simp
next
  case True
  then obtain a vm1 where a: "pgalloc vm = Some (a, vm1)" "added' = added @ [a]"
    and vm': "vm' = set_vmem (set_entry page e (a OR PF_PRESENT OR PF_RW)) vm1"
    and q: "q = PGPTR (get_entry (vmem vm') page e)"
    using g by (auto simp: grow_def bind_eq_Some_conv Let_def)
  obtain f fs' where f: "a = frame_addr f" "grown i K fs tab vm [f] fs' tab vm1" "pts vm1 = pts vm"
    "\<And>es. user_path K es \<Longrightarrow> walks i vm1 es = walks i vm es"
    "\<And>e. e < 512 \<Longrightarrow> get_entry (vmem vm1) a e = 0" "a \<notin> ran tab" "aligned a"
    "\<And>p e. aligned p \<Longrightarrow> e < 512 \<Longrightarrow> p \<noteq> a \<Longrightarrow> get_entry (vmem vm1) p e = get_entry (vmem vm) p e"
    by (rule pgalloc_space [OF s a(1)]) (rule that)
  note s1 = grownD(2) [OF f(2)]
  note t = spaceD(2) [OF s1]
  have f32: "f < 2 ^ 32" using spaceD(7) [OF s, of f] grownD(1) [OF f(2)] by simp
  let ?v = "a OR PF_PRESENT OR PF_RW" and ?tab = "tab(xs @ [e] \<mapsto> a)"
  have al: "aligned page" using treeD(1) [OF t xs(1)] .
  have ne: "page \<noteq> a" using f(6) xs(1) by (auto simp: ran_def)
  have ln: "links_to ?v a" unfolding f(1) using f32 by (rule frame_links)
  have sys: "?v AND PF_SYSTEM = 0"
    unfolding f(1) using f32 by (rule frame_user)
  have at: "get_entry (vmem vm') p k = (if p = page \<and> k = e then ?v else get_entry (vmem vm1) p k)"
    if "aligned p" "k < 512" for p k
    using get_set_entry [OF that(1) al that(2) e] by (simp add: vm' set_vmem_def)
  have m: "vmem vm' = set_entry page e ?v (vmem vm1)" by (simp add: vm' set_vmem_def)
  have z: "\<not> present (get_entry (vmem vm1) page e)" using f(8) [OF al e ne] True by (simp add: present_def)
  have nz: "\<And>k. k < 512 \<Longrightarrow> \<not> present (get_entry (vmem vm1) a k)" using f(5) by (simp add: present_def)
  note add = tree_add [OF t xs(1) e xs(2) fo z f(7,6) nz ln]
  have q': "q = a" using q at [OF al e] ln by (simp add: links_to_def)
  have pts: "pts vm' = pts vm" using f(3) by (simp add: vm' set_vmem_def)
  have db: "vdb vm' = vdb vm1" "active_pt vm' = active_pt vm1" "vm_io vm' = vm_io vm1"
    by (simp_all add: vm' set_vmem_def)
  have n: "tab (xs @ [e]) = None"
  proof (rule ccontr)
    assume "tab (xs @ [e]) \<noteq> None"
    then obtain r where "tab (xs @ [e]) = Some r" by auto
    with t obtain p' where "tab xs = Some p'" "links_to (get_entry (vmem vm1) p' e) r" by (rule tree_link)
    then show False using z xs(1) by (simp add: links_to_def)
  qed
  have ran: "ran ?tab = insert a (ran tab)" using n by simp
  have al_r: "aligned (proot (pts vm i))" using treeD(1) [OF t spaceD(3) [OF s1]] f(3) by simp
  have sp: "space i K fs' ?tab vm'"
    unfolding space_def pts db
  proof (intro conjI allI impI ballI)
    show "pfdb_inv (vdb vm1) fs'" by (rule spaceD(1) [OF s1])
    show "tree (vmem vm') ?tab K" unfolding m by (rule add(1))
    show "?tab [] = Some (proot (pts vm i))" using spaceD(3) [OF s] by simp
  next
    fix k :: u64 assume k: "k < 512"
    have "\<not> foreign K [e]" if "page = proot (pts vm i)"
    proof -
      have "xs = []" using treeD(5) [OF t xs(1)] spaceD(3) [OF s] that by blast
      then show ?thesis using fo by simp
    qed
    then show "k \<in> K \<longleftrightarrow> get_entry (vmem vm') (proot (pts vm i)) k AND PF_SYSTEM \<noteq> 0"
      using spaceD(4) [OF s1 k] at [OF al_r k] sys f(3) by (auto simp: foreign_def)
  next
    fix ys k p assume a: "?tab ys = Some p \<and> length ys < 3 \<and> k < 512 \<and> ?tab (ys @ [k]) = None \<and> \<not> foreign K (ys @ [k])"
    show "get_entry (vmem vm') p k = 0"
    proof (cases "ys = xs @ [e]")
      case True
      then show ?thesis using a at [OF f(7)] f(5) ne by auto
    next
      case False
      then have y: "tab ys = Some p" using a by auto
      have b: "tab (ys @ [k]) = None" using a by (auto split: if_splits)
      have "\<not> (p = page \<and> k = e)" using treeD(5) [OF t xs(1)] y a by auto
      then show ?thesis using at [OF treeD(1) [OF t y], of k] spaceD(5) [OF s1 y _ _ b] a by auto
    qed
  next
    fix g assume g: "g \<in> set fs'"
    then have "g \<noteq> f" "g < 2 ^ 32" using spaceD(7,8) [OF s] grownD(1) [OF f(2)] by auto
    then show "frame_addr g \<notin> ran ?tab"
      unfolding ran using spaceD(6) [OF s1 g] frame_inj [of g f] f32 by (simp add: f(1))
  qed
  have "get_entry (vmem vm') p k = get_entry (vmem vm) p k"
    if "aligned p" "k < 512" "p \<notin> ran ?tab" for p k
  proof -
    have "p \<noteq> a" "p \<noteq> page" using that(3) xs(1) by (auto simp: ran ranI)
    then show ?thesis using at [OF that(1,2)] f(8) [OF that(1,2)] by simp
  qed
  moreover have "tab \<subseteq>\<^sub>m ?tab" using n by (simp add: map_le_def dom_def)
  ultimately have gr: "grown i K fs tab vm [f] fs' ?tab vm'"
    using f(2) sp pts db ran f(1) unfolding grown_def by auto
  have wk: "walks i vm' es = walks i vm es" if "user_path K es" for es
    using add(2) [OF _ spaceD(3) [OF s1], of es] that f(4) [OF that]
    by (simp add: m pts f(3) user_path_def)
  have cd: "card (S - dom tab) = length [f] + card (S - dom ?tab)" if "finite S" "xs @ [e] \<in> S" for S
  proof -
    have d: "dom ?tab = insert (xs @ [e]) (dom tab)" by simp
    have x: "xs @ [e] \<notin> dom tab" using n by (simp only: domIff not_not)
    have "S - dom tab = insert (xs @ [e]) (S - dom ?tab)" unfolding d using that(2) x by blast
    moreover have "xs @ [e] \<notin> S - dom ?tab" unfolding d by blast
    ultimately have "card (S - dom tab) = Suc (card (S - dom ?tab))"
      using that(1) by (metis card_insert_disjoint finite_Diff)
    then show ?thesis by (simp only: list.size)
  qed
  show thesis
    by (rule that [OF gr pts _ _ wk cd]) (simp_all add: a(2) f(1) [symmetric] q')
qed

lemma leaf_entry: "leaf_of 0 (v OR PF_PRESENT OR w) = Some (0, v OR PF_PRESENT OR w)"
proof -
  have "present (v OR PF_PRESENT OR w)"
    unfolding present_def flag_bits by (simp add: bit_or_iff PF_PRESENT_def)
  then show ?thesis by (simp add: leaf_of_def)
qed

lemma space_leaf:
  assumes s: "space i K fs tab vm" and p: "tab xs = Some p" and len: "length xs = 3" and e: "e < 512"
  shows "space i K fs tab (set_vmem (set_entry p e v) vm)"
    and "user_path K es \<Longrightarrow> walks i (set_vmem (set_entry p e v) vm) es =
      (if es = xs @ [e] then leaf_of 0 v else walks i vm es)"
proof -
  note t = spaceD(2) [OF s] and root = spaceD(3) [OF s]
  have n: "tab (xs @ [e]) = None" using treeD(2) [OF t, of "xs @ [e]"] len by (cases "tab (xs @ [e])") auto
  have st: "stops (3 - length xs) v" using len by (simp add: stops_def is_leaf_def)
  note al = treeD(1) [OF t]
  have ne: "p \<noteq> q" if "tab ys = Some q" "length ys < 3" for ys q
    using treeD(5) [OF t p] that len by fastforce
  have same: "get_entry (set_entry p e v (vmem vm)) q k = get_entry (vmem vm) q k"
    if "tab ys = Some q" "length ys < 3" "k < 512" for ys q k
    using get_set_entry [OF al [OF that(1)] al [OF p] that(3) e] ne [OF that(1,2)] by simp
  have t': "tree (set_entry p e v (vmem vm)) tab K" by (rule tree_write [OF t p e n st])
  show "space i K fs tab (set_vmem (set_entry p e v) vm)"
    unfolding space_def
    using spaceD [OF s] t' same [OF root] same by (auto simp: set_vmem_def)
  have l: "take 4 es = es" if "user_path K es" using that by (simp add: user_path_def)
  show "walks i (set_vmem (set_entry p e v) vm) es =
      (if es = xs @ [e] then leaf_of 0 v else walks i vm es)" if "user_path K es"
    using lwalk_write [OF t p e n st root, where es = es] that len
    by (simp add: set_vmem_def user_path_def l [OF that, simplified])
qed

lemma grown_leaf:
  assumes s: "space i K fs tab vm" and p: "tab xs = Some p" and len: "length xs = 3" and e: "e < 512"
  shows "grown i K fs tab vm [] fs tab (set_vmem (set_entry p e v) vm)"
proof -
  have "get_entry (set_entry p e v (vmem vm)) q k = get_entry (vmem vm) q k"
    if "aligned q" "k < 512" "q \<notin> ran tab" for q k
    using get_set_entry [OF that(1) treeD(1) [OF spaceD(2) [OF s] p] that(2) e] that(3) p by (auto simp: ranI)
  then show ?thesis using space_leaf(1) [OF s p len e] by (simp add: grown_def set_vmem_def)
qed

text \<open>The tables a page needs, by their paths.\<close>

definition tables_of :: "u64 \<Rightarrow> u64 list set" where
  "tables_of a = {[PML4E a], [PML4E a, PDPTE a], [PML4E a, PDPTE a, PDE a]}"

lemma insert_pte_space:
  assumes s: "space i K fs tab vm" and g: "insert_pte i vaddr paddr pflags vm = Some (added, vm')"
  obtains ts fs' tab' where "grown i K fs tab vm ts fs' tab' vm'" "pts vm' = pts vm"
    "added = map frame_addr ts" "user_path K (ixs vaddr)" "\<And>es. user_path K es \<Longrightarrow>
       walks i vm' es = (if es = ixs vaddr then leaf_of 0 (paddr OR pflags) else walks i vm es)"
    "\<And>S. finite S \<Longrightarrow> tables_of vaddr \<subseteq> S \<Longrightarrow> card (S - dom tab) = length ts + card (S - dom tab')"
proof -
  let ?e = "get_entry (vmem vm) (proot (pts vm i)) (PML4E vaddr)"
  obtain pdpt a1 v1 pdt a2 v2 ptt v3 where st:
    "grow (proot (pts vm i)) (PML4E vaddr) ([], vm) = Some (pdpt, a1, v1)"
    "grow pdpt (PDPTE vaddr) (a1, v1) = Some (pdt, a2, v2)"
    "grow pdt (PDE vaddr) (a2, v2) = Some (ptt, added, v3)"
    "vm' = set_vmem (set_entry ptt (PTE vaddr) (paddr OR pflags)) v3" "\<not> (?e \<noteq> 0 \<and> ?e AND PF_SYSTEM \<noteq> 0)"
    using g by (auto simp: insert_pte_def bind_eq_Some_conv Let_def split: if_splits)
  have b: "PML4E vaddr < 512" "PDPTE vaddr < 512" "PDE vaddr < 512" "PTE vaddr < 512"
    by (rule ixs_bound [of _ vaddr], simp add: ixs_def)+
  have "PML4E vaddr \<notin> K" using st(5) spaceD(4) [OF s b(1)] by auto
  then have fo: "\<not> foreign K (PML4E vaddr # xs)" for xs by (simp add: foreign_def)
  then have fo': "\<not> foreign K ([] @ [PML4E vaddr])" and fo'': "\<not> foreign K ([PML4E vaddr] @ [PDPTE vaddr])"
    and fo''': "\<not> foreign K ([PML4E vaddr, PDPTE vaddr] @ [PDE vaddr])" by simp_all
  have len: "length ([] :: u64 list) < 3" "length [PML4E vaddr] < 3" "length [PML4E vaddr, PDPTE vaddr] < 3"
    by simp_all
  obtain t1 f1 tab1 where 1: "grown i K fs tab vm t1 f1 tab1 v1" "pts v1 = pts vm" "a1 = [] @ map frame_addr t1"
    "tab1 ([] @ [PML4E vaddr]) = Some pdpt" "\<And>es. user_path K es \<Longrightarrow> walks i v1 es = walks i vm es"
    "\<And>S. finite S \<Longrightarrow> [] @ [PML4E vaddr] \<in> S \<Longrightarrow> card (S - dom tab) = length t1 + card (S - dom tab1)"
    by (rule grow_space [OF s spaceD(3) [OF s] len(1) b(1) fo' st(1)]) (rule that)
  obtain t2 f2 tab2 where 2: "grown i K f1 tab1 v1 t2 f2 tab2 v2" "pts v2 = pts v1" "a2 = a1 @ map frame_addr t2"
    "tab2 ([PML4E vaddr] @ [PDPTE vaddr]) = Some pdt" "\<And>es. user_path K es \<Longrightarrow> walks i v2 es = walks i v1 es"
    "\<And>S. finite S \<Longrightarrow> [PML4E vaddr] @ [PDPTE vaddr] \<in> S \<Longrightarrow> card (S - dom tab1) = length t2 + card (S - dom tab2)"
    by (rule grow_space [OF grownD(2) [OF 1(1)] 1(4) [simplified] len(2) b(2) fo'' st(2)]) (rule that)
  obtain t3 f3 tab3 where 3: "grown i K f2 tab2 v2 t3 f3 tab3 v3" "pts v3 = pts v2" "added = a2 @ map frame_addr t3"
    "tab3 ([PML4E vaddr, PDPTE vaddr] @ [PDE vaddr]) = Some ptt" "\<And>es. user_path K es \<Longrightarrow> walks i v3 es = walks i v2 es"
    "\<And>S. finite S \<Longrightarrow> [PML4E vaddr, PDPTE vaddr] @ [PDE vaddr] \<in> S \<Longrightarrow>
       card (S - dom tab2) = length t3 + card (S - dom tab3)"
    by (rule grow_space [OF grownD(2) [OF 2(1)] 2(4) [simplified] len(3) b(3) fo''' st(3)]) (rule that)
  have p: "tab3 [PML4E vaddr, PDPTE vaddr, PDE vaddr] = Some ptt" using 3(4) by simp
  note l = grown_leaf [OF grownD(2) [OF 3(1)] p _ b(4)] space_leaf(2) [OF grownD(2) [OF 3(1)] p _ b(4)]
  have "grown i K fs tab vm (((t1 @ t2) @ t3) @ []) f3 tab3 vm'"
    unfolding st(4) by (rule grown_trans [OF grown_trans [OF grown_trans [OF 1(1) 2(1)] 3(1)] l(1)]) simp
  moreover have "pts vm' = pts vm" using 1(2) 2(2) 3(2) by (simp add: st(4) set_vmem_def)
  moreover have "user_path K (ixs vaddr)" using b by (simp add: user_path_def ixs_def fo)
  moreover have "walks i vm' es = (if es = ixs vaddr then leaf_of 0 (paddr OR pflags) else walks i vm es)"
    if "user_path K es" for es
    using l(2) [of es "paddr OR pflags"] that 1(5) 2(5) 3(5) by (simp add: st(4) ixs_def)
  moreover have "card (S - dom tab) = length (((t1 @ t2) @ t3) @ []) + card (S - dom tab3)"
    if "finite S" "tables_of vaddr \<subseteq> S" for S
    using that 1(6) [of S] 2(6) [of S] 3(6) [of S] by (simp add: tables_of_def)
  ultimately show thesis using that [of "((t1 @ t2) @ t3) @ []" f3 tab3] 1(3) 2(3) 3(3) by simp
qed

section \<open>Mapping a page\<close>

text \<open>The paths of the next \<open>j\<close> pages of the window the tables are mapped in.\<close>

definition window :: "pagetable \<Rightarrow> nat \<Rightarrow> u64 list set" where
  "window pt j = {ixs (vnext pt + PAGE_SIZE * of_nat l) | l.
     l < j \<and> vnext pt + PAGE_SIZE * of_nat l < vterm pt}"

lemma window_mono: "j \<le> k \<Longrightarrow> window pt j \<subseteq> window pt k"
  by (fastforce simp: window_def)

text \<open>\<open>paged i K fs tab vm ts fs' tab' vm' j X\<close>: \<open>grown\<close>, with \<open>j\<close> pages of the window used, and
  no translation changed but on the paths \<open>X\<close> and in these pages.\<close>

definition paged :: "nat \<Rightarrow> u64 set \<Rightarrow> nat list \<Rightarrow> tables \<Rightarrow> vm \<Rightarrow> nat list \<Rightarrow> nat list \<Rightarrow> tables \<Rightarrow> vm \<Rightarrow>
    nat \<Rightarrow> u64 list set \<Rightarrow> bool" where
  "paged i K fs tab vm ts fs' tab' vm' j X \<longleftrightarrow>
     grown i K fs tab vm ts fs' tab' vm' \<and> vroot (pts vm' i) = vroot (pts vm i) \<and>
     vnext (pts vm' i) = vnext (pts vm i) + PAGE_SIZE * of_nat j \<and>
     (\<forall>es. user_path K es \<and> es \<notin> X \<and> es \<notin> window (pts vm i) j \<longrightarrow> walks i vm' es = walks i vm es)"

lemma window_append:
  "window pt (j + k) = window pt j \<union> window (pt\<lparr>vnext := vnext pt + PAGE_SIZE * of_nat j\<rparr>) k"
proof -
  let ?v = "\<lambda>l. vnext pt + PAGE_SIZE * of_nat l"
  have s: "?v (j + l) = ?v j + PAGE_SIZE * of_nat l" for l by (simp add: algebra_simps)
  have l: "l < j + k \<longleftrightarrow> l < j \<or> (\<exists>d. l = j + d \<and> d < k)" for l by presburger
  have "window pt (j + k) = {ixs (?v l) | l. l < j \<and> ?v l < vterm pt} \<union>
      {ixs (?v (j + l)) | l. l < k \<and> ?v (j + l) < vterm pt}"
    unfolding window_def l by blast
  then show ?thesis unfolding s by (simp add: window_def)
qed

lemma paged_refl: "space i K fs tab vm \<Longrightarrow> paged i K fs tab vm [] fs tab vm 0 X"
  by (simp add: paged_def grown_refl)

lemma paged_window:
  assumes "paged i K fs tab vm ts fs1 tab1 vm1 j X"
  shows "window (pts vm i) (j + k) = window (pts vm i) j \<union> window (pts vm1 i) k"
proof -
  have "window (pts vm1 i) k = window ((pts vm i)\<lparr>vnext := vnext (pts vm i) + PAGE_SIZE * of_nat j\<rparr>) k"
    using assms by (simp add: window_def paged_def grown_def)
  then show ?thesis by (simp add: window_append)
qed

lemma paged_trans:
  assumes "paged i K fs tab vm ts fs1 tab1 vm1 j X" and "paged i K fs1 tab1 vm1 us fs2 tab2 vm2 k Y"
  shows "paged i K fs tab vm (ts @ us) fs2 tab2 vm2 (j + k) (X \<union> Y)"
proof -
  have "grown i K fs tab vm (ts @ us) fs2 tab2 vm2"
    using assms grown_trans unfolding paged_def by blast
  then show ?thesis using paged_window [OF assms(1), of k] assms by (simp add: paged_def algebra_simps)
qed

lemma paged_weaken: "paged i K fs tab vm ts fs' tab' vm' j X \<Longrightarrow> X \<subseteq> Y \<union> window (pts vm i) j \<Longrightarrow>
    paged i K fs tab vm ts fs' tab' vm' j Y"
  by (auto simp: paged_def)

lemma paged_bump:
  assumes "space i K fs tab vm"
  shows "paged i K fs tab vm [] fs tab (bump_vnext i vm) 1 X"
proof -
  have p: "vdb (bump_vnext i vm) = vdb vm" "vmem (bump_vnext i vm) = vmem vm"
    "pts (bump_vnext i vm) i = (pts vm i)\<lparr>vnext := vnext (pts vm i) + PAGE_SIZE\<rparr>"
    "\<And>j. j \<noteq> i \<Longrightarrow> pts (bump_vnext i vm) j = pts vm j"
    "active_pt (bump_vnext i vm) = active_pt vm" "vm_io (bump_vnext i vm) = vm_io vm"
    by (simp_all add: bump_vnext_def set_pt_def)
  have "space i K fs tab (bump_vnext i vm) \<longleftrightarrow> space i K fs tab vm" by (simp only: space_def p) simp
  then show ?thesis using assms by (simp add: paged_def grown_def p)
qed

lemma paged_insert:
  assumes s: "space i K fs tab vm" and g: "insert_pte i vaddr paddr pflags vm = Some (added, vm')"
  obtains ts fs' tab' where "paged i K fs tab vm ts fs' tab' vm' 0 {ixs vaddr}" "pts vm' = pts vm"
    "added = map frame_addr ts" "user_path K (ixs vaddr)"
    "walks i vm' (ixs vaddr) = leaf_of 0 (paddr OR pflags)"
    "\<And>S. finite S \<Longrightarrow> tables_of vaddr \<subseteq> S \<Longrightarrow> card (S - dom tab) = length ts + card (S - dom tab')"
  by (rule insert_pte_space [OF s g]) (rule that, auto simp: paged_def)

lemma add_pte_paged:
  "space i K fs tab vm \<Longrightarrow> add_pte_depth n i vaddr paddr pflags flags vm = Some vm' \<Longrightarrow>
     \<exists>ts fs' tab' j. paged i K fs tab vm ts fs' tab' vm' j {ixs vaddr} \<and> j \<le> length ts \<and>
       user_path K (ixs vaddr) \<and> (flags AND CONTAINS_TABLE \<noteq> 0 \<longrightarrow> vaddr < vterm (pts vm i)) \<and>
       (ixs vaddr \<notin> window (pts vm i) j \<longrightarrow> walks i vm' (ixs vaddr) = leaf_of 0 (paddr OR pflags))"
  "space i K fs tab vm \<Longrightarrow> add_tables n i added vm = Some vm' \<Longrightarrow>
     \<exists>ts fs' tab' j. paged i K fs tab vm ts fs' tab' vm' j {} \<and> j \<le> length added + length ts"
proof (induction n i vaddr paddr pflags flags vm and n i added vm arbitrary: fs tab vm' and fs tab vm'
    rule: add_pte_depth_add_tables.induct)
  case (2 n i vaddr paddr pflags flags vm)
  then obtain added vm1 where a: "insert_pte i vaddr paddr pflags vm = Some (added, vm1)"
    "add_tables n i added vm1 = Some vm'"
    and fl: "\<not> (flags AND CONTAINS_TABLE \<noteq> 0 \<and> vterm (pts vm i) \<le> vaddr)"
    by (auto simp: bind_eq_Some_conv split: if_splits)
  obtain ts fs1 tab1 where 1: "paged i K fs tab vm ts fs1 tab1 vm1 0 {ixs vaddr}" "pts vm1 = pts vm"
    "added = map frame_addr ts" "user_path K (ixs vaddr)"
    "walks i vm1 (ixs vaddr) = leaf_of 0 (paddr OR pflags)"
    by (rule paged_insert [OF "2.prems"(1) a(1)]) (rule that)
  have s1: "space i K fs1 tab1 vm1" using 1(1) by (simp add: paged_def grown_def)
  from "2.IH" [OF fl a(1) refl s1 a(2)] obtain us fs2 tab2 j where
    2: "paged i K fs1 tab1 vm1 us fs2 tab2 vm' j {}" "j \<le> length ts + length us" using 1(3) by auto
  have "walks i vm' (ixs vaddr) = leaf_of 0 (paddr OR pflags)" if "ixs vaddr \<notin> window (pts vm i) j"
    using 2(1) 1(4,5) that by (auto simp: paged_def 1(2))
  moreover have "paged i K fs tab vm (ts @ us) fs2 tab2 vm' j {ixs vaddr}"
    using paged_trans [OF 1(1) 2(1)] by simp
  ultimately show ?case using 1(4) 2(2) fl
    by (intro exI [of _ "ts @ us"] exI [of _ fs2] exI [of _ tab2] exI [of _ j]) (simp add: not_le, linarith?)
next
  case (4 n i a as vm)
  then obtain vm1 where a: "add_pte_depth n i (vnext (pts vm i)) a (PF_PRESENT OR PF_RW) CONTAINS_TABLE vm = Some vm1"
    "add_tables n i as (bump_vnext i vm1) = Some vm'"
    by (auto simp: bind_eq_Some_conv)
  from "4.IH"(1) [OF "4.prems"(1) a(1)] obtain ts fs1 tab1 j where
    1: "paged i K fs tab vm ts fs1 tab1 vm1 j {ixs (vnext (pts vm i))}" "j \<le> length ts"
      "vnext (pts vm i) < vterm (pts vm i)"
    by (auto simp: CONTAINS_TABLE_def)
  have s1: "space i K fs1 tab1 vm1" using 1(1) by (simp add: paged_def grown_def)
  note b = paged_bump [OF s1, of "{}"]
  have s2: "space i K fs1 tab1 (bump_vnext i vm1)" using b by (simp add: paged_def grown_def)
  from "4.IH"(2) [OF a(1) s2 a(2)] obtain us fs2 tab2 k where
    2: "paged i K fs1 tab1 (bump_vnext i vm1) us fs2 tab2 vm' k {}" "k \<le> length as + length us" by auto
  have w: "ixs (vnext (pts vm i)) \<in> window (pts vm i) (j + 1 + k)"
    using 1(3) unfolding window_def by (intro CollectI exI [of _ 0]) simp
  have "paged i K fs tab vm (((ts @ []) @ us)) fs2 tab2 vm' (j + 1 + k) {}"
    by (rule paged_weaken [OF paged_trans [OF paged_trans [OF 1(1) b] 2(1)]]) (use w in simp)
  then show ?case using 1(2) 2(2) by (intro exI [of _ "(ts @ []) @ us"] exI) (rule conjI, assumption, simp)
next
  case (3 n i vm)
  then show ?case using paged_refl [of i K fs tab vm "{}"]
    by (intro exI [of _ "[]"] exI [of _ fs] exI [of _ tab] exI [of _ 0]) simp
qed simp

text \<open>The depth of the recursion: a call that calls again has taken a frame.\<close>

lemma paged_length:
  assumes "paged i K fs tab vm ts fs' tab' vm' j X"
  shows "length fs = length ts + length fs'" "space i K fs' tab' vm'"
  using assms by (auto simp: paged_def grown_def)

lemma depth_enough:
  assumes "space i K fs tab vm" and "length fs < n" and "n \<le> k"
  shows "add_pte_depth n i vaddr paddr pflags flags vm = add_pte_depth k i vaddr paddr pflags flags vm"
  using assms
proof (induction n arbitrary: k fs tab vm vaddr paddr pflags flags)
  case (Suc n)
  obtain k' where k: "k = Suc k'" "n \<le> k'" using Suc.prems(3) by (cases k) auto
  have tables: "add_tables n i added vm = add_tables k' i added vm"
    if "space i K fs tab vm" "length fs < n" for added vm fs tab
    using that
  proof (induction added arbitrary: vm fs tab)
    case (Cons a as)
    let ?call = "\<lambda>d. add_pte_depth d i (vnext (pts vm i)) a (PF_PRESENT OR PF_RW) CONTAINS_TABLE vm"
    have d: "?call n = ?call k'" using Suc.IH [OF Cons.prems k(2)] .
    show ?case
    proof (cases "?call k'")
      case (Some vm1)
      with add_pte_paged(1) [OF Cons.prems(1) Some] obtain ts fs1 tab1 j X where
        1: "paged i K fs tab vm ts fs1 tab1 vm1 j X" by blast
      have "space i K fs1 tab1 (bump_vnext i vm1)"
        using paged_length(2) [OF paged_bump [OF paged_length(2) [OF 1]]] .
      with Cons.IH [OF this] paged_length(1) [OF 1] Cons.prems(2) d Some show ?thesis by simp
    qed (simp add: d)
  qed simp
  show ?case
  proof (cases "insert_pte i vaddr paddr pflags vm")
    case (Some r)
    obtain added vm1 where r: "insert_pte i vaddr paddr pflags vm = Some (added, vm1)" using Some by (cases r) simp
    obtain ts fs1 tab1 where 1: "paged i K fs tab vm ts fs1 tab1 vm1 0 {ixs vaddr}" "added = map frame_addr ts"
      by (rule paged_insert [OF Suc.prems(1) r]) (rule that)
    have "add_tables n i added vm1 = add_tables k' i added vm1"
    proof (cases "added = []")
      case False
      then have "length fs1 < n" using paged_length(1) [OF 1(1)] Suc.prems(2) 1(2) by (cases ts) auto
      then show ?thesis by (rule tables [OF paged_length(2) [OF 1(1)]])
    qed simp
    then show ?thesis by (simp add: k(1) r)
  qed (simp add: k(1))
qed simp

text \<open>With as much depth the model gives the result of the calls without a bound.\<close>

lemma depth_ends:
  assumes "space i K fs tab vm" and "length fs < n"
  shows "add_pte_ends i vaddr paddr pflags flags vm (add_pte_depth n i vaddr paddr pflags flags vm)"
  using assms
proof (induction n arbitrary: fs tab vm vaddr paddr pflags flags)
  case (Suc n)
  have tables: "add_tables_end i added vm (add_tables n i added vm)"
    if "space i K fs tab vm" "length fs < n" for added vm fs tab
    using that
  proof (induction added arbitrary: vm fs tab)
    case Nil
    show ?case by (simp add: no_table)
  next
    case (Cons a as)
    let ?call = "add_pte_depth n i (vnext (pts vm i)) a (PF_PRESENT OR PF_RW) CONTAINS_TABLE vm"
    have call: "add_pte_ends i (vnext (pts vm i)) a (PF_PRESENT OR PF_RW) CONTAINS_TABLE vm ?call"
      by (rule Suc.IH [OF Cons.prems])
    show ?case
    proof (cases ?call)
      case None
      with table_fatal [of i vm a as] call show ?thesis by simp
    next
      case (Some vm1)
      with add_pte_paged(1) [OF Cons.prems(1) Some] obtain ts fs1 tab1 j X where
        1: "paged i K fs tab vm ts fs1 tab1 vm1 j X" by blast
      have "space i K fs1 tab1 (bump_vnext i vm1)"
        using paged_length(2) [OF paged_bump [OF paged_length(2) [OF 1]]] .
      from Cons.IH [OF this] paged_length(1) [OF 1] Cons.prems(2)
      have "add_tables_end i as (bump_vnext i vm1) (add_tables n i as (bump_vnext i vm1))" by simp
      with table_added [of i vm a vm1 as] call Some show ?thesis by simp
    qed
  qed
  show ?case
  proof (cases "flags AND CONTAINS_TABLE \<noteq> 0 \<and> vaddr \<ge> vterm (pts vm i)")
    case True
    then show ?thesis by (simp add: window_full)
  next
    case fl: False
    show ?thesis
    proof (cases "insert_pte i vaddr paddr pflags vm")
      case None
      then have "add_pte_depth (Suc n) i vaddr paddr pflags flags vm = None" by simp
      with insert_fatal [OF fl None] show ?thesis by (simp only:)
    next
      case (Some r)
      obtain added vm1 where r: "insert_pte i vaddr paddr pflags vm = Some (added, vm1)" using Some by (cases r) simp
      obtain ts fs1 tab1 where 1: "paged i K fs tab vm ts fs1 tab1 vm1 0 {ixs vaddr}" "added = map frame_addr ts"
        by (rule paged_insert [OF Suc.prems(1) r]) (rule that)
      have "add_tables_end i added vm1 (add_tables n i added vm1)"
      proof (cases "added = []")
        case False
        then have "length fs1 < n" using paged_length(1) [OF 1(1)] Suc.prems(2) 1(2) by (cases ts) auto
        then show ?thesis by (rule tables [OF paged_length(2) [OF 1(1)]])
      qed (simp add: no_table)
      moreover have "add_pte_depth (Suc n) i vaddr paddr pflags flags vm = add_tables n i added vm1"
        unfolding add_pte_depth.simps if_not_P [OF fl] by (simp add: r)
      ultimately show ?thesis using inserted [OF fl r] by (simp only:)
    qed
  qed
qed simp

lemma frames_bound:
  assumes "space i K fs tab vm"
  shows "length fs \<le> length (pfs (vdb vm))"
proof -
  have "set fs \<subseteq> {..<length (pfs (vdb vm))}"
    using spaceD(1) [OF assms] links_bound by (auto simp: pfdb_inv_def)
  then have "card (set fs) \<le> length (pfs (vdb vm))" using card_mono [of "{..<length (pfs (vdb vm))}" "set fs"] by simp
  then show ?thesis using spaceD(8) [OF assms] by (simp add: distinct_card)
qed

section \<open>Addresses and their paths\<close>

lemma field_nat: "unat (drop_bit k a AND PGMASK_ENTRY) = unat (a :: u64) div 2 ^ k mod 512"
proof -
  have "drop_bit k a AND PGMASK_ENTRY = take_bit 9 (drop_bit k a)"
    by (simp add: PGMASK_ENTRY_def take_bit_eq_mask mask_eq_exp_minus_1)
  then have "unat (drop_bit k a AND PGMASK_ENTRY) = take_bit 9 (drop_bit k (unat a))"
    by (simp only: unsigned_take_bit_eq unat_drop_bit_eq)
  then show ?thesis by (simp add: take_bit_eq_mod drop_bit_eq_div)
qed

lemma mod_digit:
  "x mod (512 * n) = y mod (512 * n) \<longleftrightarrow> x mod 512 = y mod 512 \<and> x div 512 mod n = y div 512 mod (n :: nat)"
proof -
  have "q = q' \<and> r = r'" if "r < 512" "r' < 512" "512 * q + r = 512 * q' + r'" for q q' r r' :: nat
  proof -
    have "q = q'" using that arg_cong [OF that(3), of "\<lambda>x. x div 512"] by simp
    then show ?thesis using that(3) by simp
  qed
  from this [of "x mod 512" "y mod 512" "x div 512 mod n" "y div 512 mod n"] show ?thesis
    unfolding mod_mult2_eq [of x] mod_mult2_eq [of y] by auto
qed

lemma ixs_page: "ixs a = ixs b \<longleftrightarrow> unat a div 4096 mod 2 ^ 36 = unat b div 4096 mod 2 ^ 36"
proof -
  define x y where "x = unat a div 4096" and "y = unat b div 4096"
  have d: "u div 2 ^ 12 = u div 4096" "u div 2 ^ 21 = u div 4096 div 512" "u div 2 ^ 30 = u div 4096 div 512 div 512"
    "u div 2 ^ 39 = u div 4096 div 512 div 512 div 512" for u :: nat by (simp_all add: div_mult2_eq [symmetric])
  have p: "(2::nat) ^ 36 = 512 * (512 * (512 * 512))" by simp
  have "ixs a = ixs b \<longleftrightarrow> x div 512 div 512 div 512 mod 512 = y div 512 div 512 div 512 mod 512 \<and>
      x div 512 div 512 mod 512 = y div 512 div 512 mod 512 \<and> x div 512 mod 512 = y div 512 mod 512 \<and>
      x mod 512 = y mod 512"
    by (simp only: ixs_def PML4E_def PDPTE_def PDE_def PTE_def word_unat_eq_iff field_nat d x_def y_def list.inject)
      simp
  also have "\<dots> \<longleftrightarrow> x mod 2 ^ 36 = y mod 2 ^ 36" unfolding p mod_digit by blast
  finally show ?thesis by (simp add: x_def y_def)
qed

text \<open>The \<open>k\<close>-th page from an address.\<close>

definition page_at :: "u64 \<Rightarrow> nat \<Rightarrow> u64 list" where
  "page_at vaddr k = ixs (vaddr + PAGE_SIZE * of_nat k)"

lemma page_at_Suc: "page_at (vaddr + PAGE_SIZE) k = page_at vaddr (Suc k)"
  by (simp add: page_at_def algebra_simps)

lemma mod_page: "(4096 * a + r) mod (4096 * 2 ^ 52) div 4096 mod 2 ^ 36 = (a + r div 4096) mod (2 ^ 36 :: nat)"
proof -
  have "(4096 * a + r) mod (4096 * 2 ^ 52) div 4096 = (4096 * a + r) div 4096 mod 2 ^ 52"
    unfolding mod_mult2_eq [of "4096 * a + r" 4096] by simp
  also have "(4096 * a + r) div 4096 = a + r div 4096" by simp
  finally show ?thesis by (simp add: mod_mod_cancel)
qed

lemma page_at_nat: "unat (v + PAGE_SIZE * of_nat k) div 4096 mod 2 ^ 36 = (k + unat v div 4096) mod 2 ^ 36"
proof -
  have "v + PAGE_SIZE * of_nat k = word_of_nat (4096 * k + unat v)" by (simp add: PAGE_SIZE_def)
  then have "unat (v + PAGE_SIZE * of_nat k) = unat (word_of_nat (4096 * k + unat v) :: u64)" by (rule arg_cong)
  also have "\<dots> = (4096 * k + unat v) mod 2 ^ 64" by (rule trans [OF unat_of_nat]) simp
  also have "(2 ^ 64 :: nat) = 4096 * 2 ^ 52" by simp
  finally have "unat (v + PAGE_SIZE * of_nat k) = (4096 * k + unat v) mod (4096 * 2 ^ 52)" .
  then show ?thesis using mod_page [of k "unat v"] by (simp only:)
qed

lemma page_at_inj:
  assumes "k < 2 ^ 36" and "l < 2 ^ 36"
  shows "page_at v k = page_at v l \<longleftrightarrow> k = l"
proof -
  have le: "k = l" if "k \<le> l" "l < 2 ^ 36" "(k + x) mod 2 ^ 36 = (l + x) mod (2 ^ 36 :: nat)" for k l x
  proof -
    have "2 ^ 36 dvd (l + x) - (k + x)" using that mod_eq_dvd_iff_nat [of "k + x" "l + x" "2 ^ 36"] by simp
    then have "2 ^ 36 dvd l - k" by simp
    moreover have "l - k < 2 ^ 36" using that(2) by simp
    ultimately have "l - k = 0" by (meson dvd_imp_le not_less gr0I)
    then show ?thesis using that(1) by simp
  qed
  have "(k + x) mod 2 ^ 36 = (l + x) mod 2 ^ 36 \<longleftrightarrow> k = l" for x
    using le [of k l x] le [of l k x] assms by (cases "k \<le> l") auto
  then show ?thesis unfolding page_at_def ixs_page page_at_nat by blast
qed

section \<open>Allocating pages\<close>

lemma alloc_pages_paged:
  "space i K fs tab vm \<Longrightarrow> alloc_pages i n vaddr vm = Some vm' \<Longrightarrow>
     \<exists>ts fs' tab' j frames. paged i K fs tab vm ts fs' tab' vm' j (page_at vaddr ` {..<n}) \<and> j \<le> length ts \<and>
       length frames = n \<and> distinct frames \<and> set frames \<subseteq> set ts \<and>
       (\<forall>f \<in> set frames. frame_addr f \<notin> ran tab') \<and> (\<forall>k < n. user_path K (page_at vaddr k) \<and>
         (page_at vaddr k \<notin> window (pts vm i) j \<longrightarrow>
            walks i vm' (page_at vaddr k) = Some (0, frame_addr (frames ! k) OR PF_PRESENT OR PF_RW)))"
proof (induction n arbitrary: vaddr vm fs tab)
  case 0
  then show ?case using paged_refl [of i K fs tab vm "{}"]
    by (intro exI [of _ "[]"] exI [of _ fs] exI [of _ tab] exI [of _ 0]) simp
next
  case (Suc n)
  obtain a vm1 vm2 where al: "pgalloc vm = Some (a, vm1)"
    "add_pte i vaddr a (PF_PRESENT OR PF_RW) 0 vm1 = Some vm2"
    "alloc_pages i n (vaddr + PAGE_SIZE) vm2 = Some vm'"
    using Suc.prems(2) by (auto simp: bind_eq_Some_conv)
  obtain f fs1 where f: "a = frame_addr f" "grown i K fs tab vm [f] fs1 tab vm1" "pts vm1 = pts vm"
    "\<And>es. user_path K es \<Longrightarrow> walks i vm1 es = walks i vm es"
    by (rule pgalloc_space [OF Suc.prems(1) al(1)]) (rule that)
  have 1: "paged i K fs tab vm [f] fs1 tab vm1 0 {}" using f by (simp add: paged_def)
  from add_pte_paged(1) [OF paged_length(2) [OF 1] al(2) [unfolded add_pte_def]] obtain ts fs2 tab2 j where
    2: "paged i K fs1 tab vm1 ts fs2 tab2 vm2 j {ixs vaddr}" "j \<le> length ts" "user_path K (ixs vaddr)"
      "ixs vaddr \<notin> window (pts vm1 i) j \<Longrightarrow> walks i vm2 (ixs vaddr) = leaf_of 0 (a OR PF_PRESENT OR PF_RW)"
    by auto
  from Suc.IH [OF paged_length(2) [OF 2(1)] al(3)] obtain us fs3 tab3 k frames where
    3: "paged i K fs2 tab2 vm2 us fs3 tab3 vm' k (page_at (vaddr + PAGE_SIZE) ` {..<n})" "k \<le> length us"
      "length frames = n" "distinct frames" "set frames \<subseteq> set us" "\<forall>f \<in> set frames. frame_addr f \<notin> ran tab3"
      "\<forall>l < n. user_path K (page_at vaddr (Suc l)) \<and> (page_at vaddr (Suc l) \<notin> window (pts vm2 i) k \<longrightarrow>
        walks i vm' (page_at vaddr (Suc l)) = Some (0, frame_addr (frames ! l) OR PF_PRESENT OR PF_RW))"
    unfolding page_at_Suc by blast
  note all = paged_trans [OF paged_trans [OF 1 2(1)] 3(1)]
  have fs: "fs = ([f] @ ts) @ us @ fs3" using all by (simp add: paged_def grown_def)
  have dist: "distinct fs" and short: "length fs < 2 ^ 32"
    using spaceD(1,8) [OF Suc.prems(1)] frames_bound [OF Suc.prems(1)] by (auto simp: pfdb_inv_def)
  have n: "n < 2 ^ 32"
  proof -
    have "n \<le> length us"
      using card_mono [OF finite_set 3(5)] card_length [of us] 3(3,4) by (simp add: distinct_card)
    then show ?thesis using short fs by simp
  qed
  have zero: "page_at vaddr 0 = ixs vaddr" by (simp add: page_at_def)
  have new: "page_at vaddr 0 \<notin> page_at vaddr ` {Suc 0..<Suc n}" using n by (auto simp: page_at_inj)
  have im: "page_at (vaddr + PAGE_SIZE) ` {..<n} = page_at vaddr ` {Suc 0..<Suc n}"
    unfolding page_at_Suc image_image [symmetric] by (simp add: lessThan_atLeast0 flip: image_Suc_atLeastLessThan)
  have wins: "window (pts vm i) (0 + j + k) = window (pts vm i) j \<union> window (pts vm2 i) k"
    using paged_window [OF paged_trans [OF 1 2(1)], of k] by simp
  have first: "walks i vm' (page_at vaddr 0) = Some (0, frame_addr f OR PF_PRESENT OR PF_RW)"
    if "page_at vaddr 0 \<notin> window (pts vm i) (0 + j + k)"
  proof -
    have "page_at vaddr 0 \<notin> window (pts vm1 i) j" "page_at vaddr 0 \<notin> window (pts vm2 i) k"
      using that unfolding wins f(3) by simp_all
    then show ?thesis using 3(1) 2(3,4) new by (auto simp: paged_def zero im f(1) leaf_entry)
  qed
  have "paged i K fs tab vm (([f] @ ts) @ us) fs3 tab3 vm' (0 + j + k) (page_at vaddr ` {..<Suc n})"
    by (rule paged_weaken [OF all]) (auto simp: im zero [symmetric])
  moreover have "distinct (f # frames)" "set (f # frames) \<subseteq> set (([f] @ ts) @ us)"
    using dist 3(4,5) by (auto simp: fs)
  moreover have "user_path K (page_at vaddr l) \<and> (page_at vaddr l \<notin> window (pts vm i) (0 + j + k) \<longrightarrow>
      walks i vm' (page_at vaddr l) = Some (0, frame_addr ((f # frames) ! l) OR PF_PRESENT OR PF_RW))" if "l < Suc n" for l
    using that first 2(3) 3(7) wins zero by (cases l) auto
  moreover have "frame_addr f \<notin> ran tab3"
  proof
    assume "frame_addr f \<in> ran tab3"
    moreover have "ran tab3 \<subseteq> ran tab \<union> frame_addr ` set ts \<union> frame_addr ` set us"
      using 2(1) 3(1) by (auto simp: paged_def grown_def)
    moreover have "frame_addr f \<notin> ran tab" using spaceD(6) [OF Suc.prems(1), of f] fs by simp
    ultimately obtain g where g: "g \<in> set (ts @ us)" "frame_addr f = frame_addr g" by auto
    then have "f = g" using frame_inj [of f g] spaceD(7) [OF Suc.prems(1)] fs by auto
    then show False using g(1) dist fs by auto
  qed
  then have "\<forall>g \<in> set (f # frames). frame_addr g \<notin> ran tab3" using 3(6) by simp
  ultimately show ?case using 2(2) 3(2,3)
    by (intro exI [of _ "([f] @ ts) @ us"] exI [of _ fs3] exI [of _ tab3] exI [of _ "0 + j + k"] exI [of _ "f # frames"]) simp
qed

section \<open>Enough frames\<close>

lemma pgalloc_total:
  assumes "space i K fs tab vm" and "fs \<noteq> []" and "avail (vdb vm) \<noteq> 0"
  shows "\<exists>a vm'. pgalloc vm = Some (a, vm')"
proof -
  obtain f gs where "fs = f # gs" using assms(2) by (cases fs) auto
  then show ?thesis
    using pfalloc_inv [of "vdb vm" f gs] spaceD(1) [OF assms(1)] assms(3) by (auto simp: pgalloc_def Let_def)
qed

lemma grow_total:
  assumes "space i K fs tab vm" and "tab (xs @ [e]) = None \<longrightarrow> fs \<noteq> []" and "avail (vdb vm) \<noteq> 0"
    and "tab xs = Some page" "length xs < 3" "e < 512" "\<not> foreign K (xs @ [e])"
  shows "\<exists>r. grow page e (added, vm) = Some r"
proof (cases "get_entry (vmem vm) page e = 0")
  case True
  have "tab (xs @ [e]) = None"
  proof (rule ccontr)
    assume "tab (xs @ [e]) \<noteq> None"
    then obtain q where "tab (xs @ [e]) = Some q" by auto
    with spaceD(2) [OF assms(1)] obtain p where "tab xs = Some p" "links_to (get_entry (vmem vm) p e) q"
      by (rule tree_link)
    then show False using True assms(4) by (simp add: links_to_def present_def)
  qed
  then show ?thesis using pgalloc_total [OF assms(1) _ assms(3)] assms(2) True by (auto simp: grow_def Let_def)
qed (simp add: grow_def)

text \<open>\<open>S\<close> is a set of table paths that holds all tables a call may need; \<open>room\<close> says that the
  window has room for \<open>w\<close> more tables whose own tables are in \<open>S\<close>.\<close>

definition room :: "pagetable \<Rightarrow> u64 set \<Rightarrow> u64 list set \<Rightarrow> nat \<Rightarrow> bool" where
  "room pt K S w \<longleftrightarrow> (\<forall>l < w. tables_of (vnext pt + PAGE_SIZE * of_nat l) \<subseteq> S \<and>
     PML4E (vnext pt + PAGE_SIZE * of_nat l) \<notin> K \<and> vnext pt + PAGE_SIZE * of_nat l < vterm pt)"

lemma room_shift:
  assumes "room pt K S (j + w)" and "vnext pt' = vnext pt + PAGE_SIZE * of_nat j" and "vterm pt' = vterm pt"
  shows "room pt' K S w"
  unfolding room_def
proof (intro allI impI)
  fix l assume "l < w"
  then have "j + l < j + w" by simp
  with assms(1) have "tables_of (vnext pt + PAGE_SIZE * of_nat (j + l)) \<subseteq> S \<and>
     PML4E (vnext pt + PAGE_SIZE * of_nat (j + l)) \<notin> K \<and> vnext pt + PAGE_SIZE * of_nat (j + l) < vterm pt"
    unfolding room_def by blast
  then show "tables_of (vnext pt' + PAGE_SIZE * of_nat l) \<subseteq> S \<and>
     PML4E (vnext pt' + PAGE_SIZE * of_nat l) \<notin> K \<and> vnext pt' + PAGE_SIZE * of_nat l < vterm pt'"
    unfolding assms(2,3) by (simp add: algebra_simps)
qed

lemma insert_total:
  assumes s: "space i K fs tab vm" and S: "finite S" "tables_of vaddr \<subseteq> S" "card (S - dom tab) \<le> length fs"
    and K: "PML4E vaddr \<notin> K" and av: "avail (vdb vm) \<noteq> 0"
  shows "\<exists>added vm'. insert_pte i vaddr paddr pflags vm = Some (added, vm')"
proof -
  have b: "PML4E vaddr < 512" "PDPTE vaddr < 512" "PDE vaddr < 512" "PTE vaddr < 512"
    by (rule ixs_bound [of _ vaddr], simp add: ixs_def)+
  have fo: "\<not> foreign K (PML4E vaddr # xs)" for xs using K by (simp add: foreign_def)
  have len: "length ([] :: u64 list) < 3" "length [PML4E vaddr] < 3" "length [PML4E vaddr, PDPTE vaddr] < 3"
    by simp_all
  have need: "fs' \<noteq> []" if "p \<in> S" "tab' p = None" "card (S - dom tab') \<le> length fs'" for p tab' fs'
  proof -
    have "p \<in> S - dom tab'" using that by (simp add: domIff)
    then have "card (S - dom tab') \<noteq> 0" using S(1) by (metis card_0_eq empty_iff finite_Diff)
    then show ?thesis using that(3) by auto
  qed
  have e: "\<not> (get_entry (vmem vm) (proot (pts vm i)) (PML4E vaddr) \<noteq> 0 \<and>
      get_entry (vmem vm) (proot (pts vm i)) (PML4E vaddr) AND PF_SYSTEM \<noteq> 0)"
    using spaceD(4) [OF s b(1)] K by simp
  have in1: "[] @ [PML4E vaddr] \<in> S" and in2: "[PML4E vaddr] @ [PDPTE vaddr] \<in> S"
    and in3: "[PML4E vaddr, PDPTE vaddr] @ [PDE vaddr] \<in> S"
    using S(2) by (auto simp: tables_of_def)
  have fo1: "\<not> foreign K ([] @ [PML4E vaddr])" and fo2: "\<not> foreign K ([PML4E vaddr] @ [PDPTE vaddr])"
    and fo3: "\<not> foreign K ([PML4E vaddr, PDPTE vaddr] @ [PDE vaddr])" by (simp_all add: fo)
  from grow_total [OF s _ av spaceD(3) [OF s] len(1) b(1) fo1] need [OF in1 _ S(3)] obtain pdpt a1 v1 where
    g1: "grow (proot (pts vm i)) (PML4E vaddr) ([], vm) = Some (pdpt, a1, v1)" by (metis prod_cases3)
  obtain t1 f1 tab1 where 1: "grown i K fs tab vm t1 f1 tab1 v1"
    "tab1 ([] @ [PML4E vaddr]) = Some pdpt"
    "\<And>S. finite S \<Longrightarrow> [] @ [PML4E vaddr] \<in> S \<Longrightarrow> card (S - dom tab) = length t1 + card (S - dom tab1)"
    by (rule grow_space [OF s spaceD(3) [OF s] len(1) b(1) fo1 g1]) (rule that)
  have c1: "card (S - dom tab1) \<le> length f1" "avail (vdb v1) \<noteq> 0"
    using 1(3) [OF S(1) in1] S(3) 1(1) av by (auto simp: grown_def)
  from grow_total [OF grownD(2) [OF 1(1)] _ c1(2) 1(2) [simplified] len(2) b(2) fo2] need [OF in2 _ c1(1)]
  obtain pdt a2 v2 where g2: "grow pdpt (PDPTE vaddr) (a1, v1) = Some (pdt, a2, v2)" by (metis prod_cases3)
  obtain t2 f2 tab2 where 2: "grown i K f1 tab1 v1 t2 f2 tab2 v2"
    "tab2 ([PML4E vaddr] @ [PDPTE vaddr]) = Some pdt"
    "\<And>S. finite S \<Longrightarrow> [PML4E vaddr] @ [PDPTE vaddr] \<in> S \<Longrightarrow> card (S - dom tab1) = length t2 + card (S - dom tab2)"
    by (rule grow_space [OF grownD(2) [OF 1(1)] 1(2) [simplified] len(2) b(2) fo2 g2]) (rule that)
  have c2: "card (S - dom tab2) \<le> length f2" "avail (vdb v2) \<noteq> 0"
    using 2(3) [OF S(1) in2] c1 2(1) by (auto simp: grown_def)
  from grow_total [OF grownD(2) [OF 2(1)] _ c2(2) 2(2) [simplified] len(3) b(3) fo3] need [OF in3 _ c2(1)]
  obtain ptt a3 v3 where g3: "grow pdt (PDE vaddr) (a2, v2) = Some (ptt, a3, v3)" by (metis prod_cases3)
  show ?thesis unfolding insert_pte_def Let_def if_not_P [OF e] g1 by (simp add: g2 g3)
qed

lemma paged_avail: "paged i K fs tab vm ts fs' tab' vm' j X \<Longrightarrow> avail (vdb vm') = avail (vdb vm)"
  by (simp add: paged_def grown_def)

lemma paged_room:
  assumes "paged i K fs tab vm ts fs' tab' vm' j X" and "room (pts vm i) K S (j + w)"
  shows "room (pts vm' i) K S w"
  using room_shift [OF assms(2)] assms(1) by (simp add: paged_def grown_def)

lemma add_pte_total:
  "space i K fs tab vm \<Longrightarrow> avail (vdb vm) \<noteq> 0 \<Longrightarrow> tables_of vaddr \<subseteq> S \<Longrightarrow> PML4E vaddr \<notin> K \<Longrightarrow>
   (flags AND CONTAINS_TABLE \<noteq> 0 \<longrightarrow> vaddr < vterm (pts vm i)) \<Longrightarrow>
   room (pts vm i) K S (card (S - dom tab)) \<Longrightarrow> card (S - dom tab) \<le> length fs \<Longrightarrow>
   card (S - dom tab) < n \<Longrightarrow> finite S \<Longrightarrow>
   \<exists>vm' ts fs' tab' X. add_pte_depth n i vaddr paddr pflags flags vm = Some vm' \<and>
     paged i K fs tab vm ts fs' tab' vm' (length ts) X \<and> card (S - dom tab) = length ts + card (S - dom tab')"
  "space i K fs tab vm \<Longrightarrow> avail (vdb vm) \<noteq> 0 \<Longrightarrow>
   room (pts vm i) K S (length added + card (S - dom tab)) \<Longrightarrow> card (S - dom tab) \<le> length fs \<Longrightarrow>
   (added \<noteq> [] \<longrightarrow> card (S - dom tab) < n) \<Longrightarrow> finite S \<Longrightarrow>
   \<exists>vm' ts fs' tab' X. add_tables n i added vm = Some vm' \<and>
     paged i K fs tab vm ts fs' tab' vm' (length added + length ts) X \<and>
     card (S - dom tab) = length ts + card (S - dom tab')"
proof (induction n i vaddr paddr pflags flags vm and n i added vm arbitrary: fs tab and fs tab
    rule: add_pte_depth_add_tables.induct)
  case (2 n i vaddr paddr pflags flags vm)
  have fl: "\<not> (flags AND CONTAINS_TABLE \<noteq> 0 \<and> vterm (pts vm i) \<le> vaddr)" using "2.prems"(5) by auto
  obtain added vm1 where ins: "insert_pte i vaddr paddr pflags vm = Some (added, vm1)"
    using insert_total [OF "2.prems"(1,9,3,7,4,2)] by blast
  obtain ts fs1 tab1 where 1: "paged i K fs tab vm ts fs1 tab1 vm1 0 {ixs vaddr}" "added = map frame_addr ts"
    "\<And>S. finite S \<Longrightarrow> tables_of vaddr \<subseteq> S \<Longrightarrow> card (S - dom tab) = length ts + card (S - dom tab1)"
    by (rule paged_insert [OF "2.prems"(1) ins]) (rule that)
  note c = 1(3) [OF "2.prems"(9,3)]
  have "room (pts vm1 i) K S (length added + card (S - dom tab1))"
    using paged_room [OF 1(1)] "2.prems"(6) c 1(2) by simp
  moreover have "avail (vdb vm1) \<noteq> 0" using "2.prems"(2) paged_avail [OF 1(1)] by simp
  moreover have "card (S - dom tab1) \<le> length fs1" using c "2.prems"(7) paged_length(1) [OF 1(1)] by simp
  moreover have "added \<noteq> [] \<longrightarrow> card (S - dom tab1) < n" using c "2.prems"(8) 1(2) by (cases ts) auto
  ultimately obtain vm' us fs2 tab2 X where 2: "add_tables n i added vm1 = Some vm'"
    "paged i K fs1 tab1 vm1 us fs2 tab2 vm' (length added + length us) X"
    "card (S - dom tab1) = length us + card (S - dom tab2)"
    using "2.IH" [OF fl ins refl paged_length(2) [OF 1(1)] _ _ _ _ "2.prems"(9)] by blast
  have "add_pte_depth (Suc n) i vaddr paddr pflags flags vm = Some vm'"
    unfolding add_pte_depth.simps if_not_P [OF fl] by (simp add: ins 2(1))
  then show ?case using paged_trans [OF 1(1) 2(2)] c 2(3) 1(2)
    by (intro exI [of _ vm'] exI [of _ "ts @ us"] exI [of _ fs2] exI [of _ tab2] exI conjI) simp_all
next
  case (4 n i a as vm)
  let ?v = "vnext (pts vm i)"
  have v: "tables_of ?v \<subseteq> S \<and> PML4E ?v \<notin> K \<and> ?v < vterm (pts vm i)"
    using "4.prems"(3) [unfolded room_def, rule_format, of 0] by simp
  have r: "room (pts vm i) K S (card (S - dom tab))" using "4.prems"(3) by (simp add: room_def)
  from "4.IH"(1) [OF "4.prems"(1,2) _ _ _ r "4.prems"(4) _ "4.prems"(6)] v "4.prems"(5) obtain vm1 ts fs1 tab1 X where
    1: "add_pte_depth n i ?v a (PF_PRESENT OR PF_RW) CONTAINS_TABLE vm = Some vm1"
      "paged i K fs tab vm ts fs1 tab1 vm1 (length ts) X" "card (S - dom tab) = length ts + card (S - dom tab1)"
    by auto
  note b = paged_trans [OF 1(2) paged_bump [OF paged_length(2) [OF 1(2)], of "{}"]]
  have c: "length (a # as) + card (S - dom tab) = length ts + 1 + (length as + card (S - dom tab1))"
    using 1(3) by simp
  have "room (pts (bump_vnext i vm1) i) K S (length as + card (S - dom tab1))"
    using paged_room [OF b] "4.prems"(3) [unfolded c] by blast
  moreover have "avail (vdb (bump_vnext i vm1)) \<noteq> 0" using paged_avail [OF b] "4.prems"(2) by simp
  moreover have "card (S - dom tab1) \<le> length fs1" using 1(3) "4.prems"(4) paged_length(1) [OF 1(2)] by simp
  moreover have "as \<noteq> [] \<longrightarrow> card (S - dom tab1) < n" using 1(3) "4.prems"(5) by simp
  ultimately obtain vm' us fs2 tab2 Y where 2: "add_tables n i as (bump_vnext i vm1) = Some vm'"
    "paged i K fs1 tab1 (bump_vnext i vm1) us fs2 tab2 vm' (length as + length us) Y"
    "card (S - dom tab1) = length us + card (S - dom tab2)"
    using "4.IH"(2) [OF 1(1) paged_length(2) [OF b] _ _ _ _ "4.prems"(6)] by blast
  have "add_tables n i (a # as) vm = Some vm'" by (simp add: 1(1) 2(1))
  then show ?case using paged_trans [OF b 2(2)] 1(3) 2(3)
    by (intro exI [of _ vm'] exI [of _ "(ts @ []) @ us"] exI [of _ fs2] exI [of _ tab2] exI conjI) (simp_all add: algebra_simps)
next
  case (3 n i vm)
  then show ?case using paged_refl [of i K fs tab vm "{}"]
    by (intro exI [of _ vm] exI [of _ "[]"] exI [of _ fs] exI [of _ tab] exI [of _ "{}"]) simp
qed simp

lemma alloc_pages_total:
  "space i K fs tab vm \<Longrightarrow> avail (vdb vm) \<noteq> 0 \<Longrightarrow> finite S \<Longrightarrow>
   \<forall>k < n. tables_of (vaddr + PAGE_SIZE * of_nat k) \<subseteq> S \<and> PML4E (vaddr + PAGE_SIZE * of_nat k) \<notin> K \<Longrightarrow>
   room (pts vm i) K S (card (S - dom tab)) \<Longrightarrow> n + card (S - dom tab) \<le> length fs \<Longrightarrow>
   \<exists>vm' ts fs' tab' j X. alloc_pages i n vaddr vm = Some vm' \<and> paged i K fs tab vm ts fs' tab' vm' j X \<and>
     length ts \<le> n + card (S - dom tab)"
proof (induction n arbitrary: vaddr vm fs tab)
  case 0
  then show ?case using paged_refl [of i K fs tab vm "{}"]
    by (intro exI [of _ vm] exI [of _ "[]"] exI [of _ fs] exI [of _ tab] exI [of _ 0] exI [of _ "{}"]) simp
next
  case (Suc n)
  obtain a vm1 where p: "pgalloc vm = Some (a, vm1)"
    using pgalloc_total [OF Suc.prems(1) _ Suc.prems(2)] Suc.prems(6) by fastforce
  obtain f fs1 where f: "a = frame_addr f" "grown i K fs tab vm [f] fs1 tab vm1" "pts vm1 = pts vm"
    "\<And>es. user_path K es \<Longrightarrow> walks i vm1 es = walks i vm es"
    by (rule pgalloc_space [OF Suc.prems(1) p]) (rule that)
  have 1: "paged i K fs tab vm [f] fs1 tab vm1 0 {}" using f by (simp add: paged_def)
  have v: "tables_of vaddr \<subseteq> S" "PML4E vaddr \<notin> K" using Suc.prems(4) [rule_format, of 0] by simp_all
  have "card (S - dom tab) \<le> length fs1" using Suc.prems(6) paged_length(1) [OF 1] by simp
  moreover have "length fs1 \<le> length (pfs (vdb vm1))" by (rule frames_bound [OF paged_length(2) [OF 1]])
  moreover have "room (pts vm1 i) K S (card (S - dom tab))" using Suc.prems(5) f(3) by simp
  moreover have "avail (vdb vm1) \<noteq> 0" using Suc.prems(2) paged_avail [OF 1] by simp
  ultimately obtain vm2 ts fs2 tab2 X where
    2: "add_pte i vaddr a (PF_PRESENT OR PF_RW) 0 vm1 = Some vm2"
      "paged i K fs1 tab vm1 ts fs2 tab2 vm2 (length ts) X" "card (S - dom tab) = length ts + card (S - dom tab2)"
    using add_pte_total(1) [OF paged_length(2) [OF 1] _ v, of 0 "length (pfs (vdb vm1)) + 2" a "PF_PRESENT OR PF_RW"]
      Suc.prems(3) unfolding add_pte_def by auto
  have "\<exists>vm' us fs' tab' j Y. alloc_pages i n (vaddr + PAGE_SIZE) vm2 = Some vm' \<and>
      paged i K fs2 tab2 vm2 us fs' tab' vm' j Y \<and> length us \<le> n + card (S - dom tab2)"
  proof (rule Suc.IH [OF paged_length(2) [OF 2(2)] _ Suc.prems(3)])
    show "avail (vdb vm2) \<noteq> 0" using paged_avail [OF 1] paged_avail [OF 2(2)] Suc.prems(2) by simp
    show "\<forall>k < n. tables_of (vaddr + PAGE_SIZE + PAGE_SIZE * of_nat k) \<subseteq> S \<and>
        PML4E (vaddr + PAGE_SIZE + PAGE_SIZE * of_nat k) \<notin> K"
    proof (intro allI impI)
      fix k assume "k < n"
      then show "tables_of (vaddr + PAGE_SIZE + PAGE_SIZE * of_nat k) \<subseteq> S \<and>
          PML4E (vaddr + PAGE_SIZE + PAGE_SIZE * of_nat k) \<notin> K"
        using Suc.prems(4) [rule_format, of "Suc k"] by (simp add: algebra_simps)
    qed
    show "room (pts vm2 i) K S (card (S - dom tab2))"
      using paged_room [OF 2(2)] Suc.prems(5) f(3) 2(3) by simp
    show "n + card (S - dom tab2) \<le> length fs2"
      using Suc.prems(6) paged_length(1) [OF 1] paged_length(1) [OF 2(2)] 2(3) by simp
  qed
  then obtain vm' us fs' tab' j Y where 3: "alloc_pages i n (vaddr + PAGE_SIZE) vm2 = Some vm'"
      "paged i K fs2 tab2 vm2 us fs' tab' vm' j Y" "length us \<le> n + card (S - dom tab2)" by blast
  have "alloc_pages i (Suc n) vaddr vm = Some vm'" by (simp add: p 2(1) 3(1))
  moreover note paged_trans [OF paged_trans [OF 1 2(2)] 3(2)]
  moreover have "length (([f] @ ts) @ us) \<le> Suc n + card (S - dom tab)" using 2(3) 3(3) by simp
  ultimately show ?case by blast
qed

section \<open>Freeing pages\<close>

lemma space_path:
  assumes s: "space i K fs tab vm" and u: "user_path K (ixs a)" and w: "walks i vm (ixs a) = Some (0, v)"
  obtains pdpt pdt ptt where "tab [PML4E a] = Some pdpt" "tab [PML4E a, PDPTE a] = Some pdt"
    "tab [PML4E a, PDPTE a, PDE a] = Some ptt"
    "get_entry (vmem vm) ptt (PTE a) = v"
proof -
  note t = spaceD(2) [OF s]
  have b: "PML4E a < 512" "PDPTE a < 512" "PDE a < 512" "PTE a < 512"
    by (rule ixs_bound [of _ a], simp add: ixs_def)+
  have fo: "\<not> foreign K (PML4E a # xs)" for xs using u by (simp add: user_path_def ixs_def foreign_def)
  have table: "\<exists>q. tab (xs @ [e]) = Some q \<and> lwalk (vmem vm) q es = Some (0, v)"
    if "tab xs = Some p" "lwalk (vmem vm) p (e # es) = Some (0, v)" "e < 512" "\<not> foreign K (xs @ [e])"
      "length (xs @ e # es) = 4" "length xs < 3" for xs e p es
  proof (cases "tab (xs @ [e])")
    case None
    then have "get_entry (vmem vm) p e = 0" by (rule spaceD(5) [OF s that(1,6,3) _ that(4)])
    then show ?thesis using that(2) by (simp add: present_def)
  next
    case (Some q)
    then show ?thesis using lwalk_table [OF t that(1) Some that(5)] that(2) by simp
  qed
  obtain pdpt where 1: "tab [PML4E a] = Some pdpt" "lwalk (vmem vm) pdpt [PDPTE a, PDE a, PTE a] = Some (0, v)"
    using table [OF spaceD(3) [OF s], of "PML4E a" "[PDPTE a, PDE a, PTE a]"] w b fo by (auto simp: ixs_def)
  obtain pdt where 2: "tab [PML4E a, PDPTE a] = Some pdt" "lwalk (vmem vm) pdt [PDE a, PTE a] = Some (0, v)"
    using table [OF 1] b fo by auto
  obtain ptt where 3: "tab [PML4E a, PDPTE a, PDE a] = Some ptt" "lwalk (vmem vm) ptt [PTE a] = Some (0, v)"
    using table [OF 2] b fo by auto
  show thesis using that [OF 1(1) 2(1) 3(1)] 3(2) by (auto simp: Let_def is_leaf_def split: if_splits)
qed

lemma table_pointer:
  assumes s: "space i K fs tab vm" and "tab xs = Some p" and "tab (xs @ [e]) = Some q"
  shows "PGPTR (get_entry (vmem vm) p e) = q"
proof -
  from spaceD(2) [OF s] assms(3) obtain p' where "tab xs = Some p'" "links_to (get_entry (vmem vm) p' e) q"
    by (rule tree_link)
  then show ?thesis using assms(2) by (simp add: links_to_def)
qed

lemma frame_pointer: "f < 2 ^ 32 \<Longrightarrow> PGPTR (frame_addr f OR PF_PRESENT OR PF_RW) = frame_addr f"
  using frame_links [of f] by (simp add: links_to_def)

lemma frame_number: "f < 2 ^ 32 \<Longrightarrow> unat (drop_bit 12 (frame_addr f)) = f"
  unfolding unat_drop_bit_eq by (simp add: unat_frame drop_bit_eq_div)

lemma pgfree_inv:
  assumes inv: "pfdb_inv (vdb vm) fs" and f: "f \<in> allocated (vdb vm)" "refcount (pfs (vdb vm) ! f) = 1"
    and "fs \<noteq> []"
  shows "\<exists>db. pgfree (frame_addr f) vm = Some (vm\<lparr>vdb := db\<rparr>) \<and> pfdb_inv db (f # fs) \<and>
    length (pfs db) = length (pfs (vdb vm)) \<and> allocated db = allocated (vdb vm) - {f} \<and>
    (\<forall>g. g \<noteq> f \<longrightarrow> refcount (pfs db ! g) = refcount (pfs (vdb vm) ! g))"
proof -
  have fl: "f < length (pfs (vdb vm))" "pf_type (pfs (vdb vm) ! f) = PFTYPE_ALLOCATED"
    using f(1) by (auto simp: allocated_def)
  have f32: "f < 2 ^ 32" using fl(1) inv by (simp add: pfdb_inv_def)
  let ?db = "(vdb vm)\<lparr>pfs := (pfs (vdb vm))[f := (pfs (vdb vm) ! f)\<lparr>refcount := 0\<rparr>]\<rparr>"
  have u: "upd_pf f (\<lambda>p. p\<lparr>refcount := refcount p - 1\<rparr>) (vdb vm) = Some ?db"
    using fl(1) f(2) by (simp add: upd_pf_def)
  have nf: "f \<notin> set fs" using inv fl by (auto simp: pfdb_inv_def)
  have inv': "pfdb_inv ?db fs"
    using inv nf fl by (auto simp: pfdb_inv_def nth_list_update)
  have at: "f < length (pfs ?db)" "pf_type (pfs ?db ! f) = PFTYPE_ALLOCATED" using fl by simp_all
  from pffree_inv [OF inv' at assms(4)] obtain db where
    db: "pffree f ?db = Some db" "pfdb_inv db (f # fs)" "length (pfs db) = length (pfs ?db)"
      "\<forall>g. g \<noteq> f \<longrightarrow> pf_type (pfs db ! g) = pf_type (pfs ?db ! g) \<and> refcount (pfs db ! g) = refcount (pfs ?db ! g)"
    by blast
  have "pgfree (frame_addr f) vm = Some (vm\<lparr>vdb := db\<rparr>)"
    using u db(1) fl(1) by (simp add: pgfree_def frame_number [OF f32] Let_def)
  moreover have "pf_type (pfs db ! f) = PFTYPE_AVAILABLE" using db(2,3) fl(1) by (auto simp: pfdb_inv_def)
  then have "g \<in> allocated db \<longleftrightarrow> g \<in> allocated (vdb vm) - {f}" for g
    using db(3,4) by (cases "g = f") (auto simp: allocated_def)
  then have "allocated db = allocated (vdb vm) - {f}" by blast
  ultimately show ?thesis using db by auto
qed

lemma free_page_space:
  assumes s: "space i K fs tab vm" and u: "user_path K (ixs a)"
    and w: "walks i vm (ixs a) = Some (0, frame_addr f OR PF_PRESENT OR PF_RW)"
    and f: "f \<in> allocated (vdb vm)" "refcount (pfs (vdb vm) ! f) = 1"
    and "fs \<noteq> []" "0 \<notin> ran tab" "frame_addr f \<notin> ran tab"
  shows "\<exists>vm1 vm'. remove_pte i a vm = Some (frame_addr f, vm1) \<and> pgfree (frame_addr f) vm1 = Some vm' \<and>
    space i K (f # fs) tab vm' \<and> pts vm' = pts vm \<and> allocated (vdb vm') = allocated (vdb vm) - {f} \<and>
    (\<forall>g. g \<noteq> f \<longrightarrow> refcount (pfs (vdb vm') ! g) = refcount (pfs (vdb vm) ! g)) \<and>
    (\<forall>es. user_path K es \<longrightarrow> walks i vm' es = (if es = ixs a then None else walks i vm es))"
proof -
  obtain pdpt pdt ptt where p: "tab [PML4E a] = Some pdpt" "tab [PML4E a, PDPTE a] = Some pdt"
    "tab [PML4E a, PDPTE a, PDE a] = Some ptt"
    and v: "get_entry (vmem vm) ptt (PTE a) = frame_addr f OR PF_PRESENT OR PF_RW"
    by (rule space_path [OF s u w]) (rule that)
  have inv: "pfdb_inv (vdb vm) fs" using spaceD(1) [OF s] .
  have f32: "f < 2 ^ 32" using f(1) inv by (auto simp: allocated_def pfdb_inv_def)
  have e: "PTE a < 512" by (rule ixs_bound [of _ a]) (simp add: ixs_def)
  have ptr: "PGPTR (get_entry (vmem vm) (proot (pts vm i)) (PML4E a)) = pdpt"
    "PGPTR (get_entry (vmem vm) pdpt (PDPTE a)) = pdt" "PGPTR (get_entry (vmem vm) pdt (PDE a)) = ptt"
    using table_pointer [OF s spaceD(3) [OF s], of "PML4E a"] table_pointer [OF s p(1), of "PDPTE a"]
      table_pointer [OF s p(2), of "PDE a"] p by simp_all
  have nz: "pdpt \<noteq> 0" "pdt \<noteq> 0" "ptt \<noteq> 0" using p assms(7) by (auto simp: ran_def)
  have len: "length [PML4E a, PDPTE a, PDE a] = 3" by simp
  let ?vm = "set_vmem (set_entry ptt (PTE a) 0) vm"
  let ?vm1 = "if i = active_pt ?vm then emit (InvalidatePage a) ?vm else ?vm"
  have r: "remove_pte i a vm = Some (frame_addr f, ?vm1)"
    using nz frame_pointer [OF f32] by (simp add: remove_pte_def Let_def ptr v)
  have vm1: "vdb ?vm1 = vdb vm" "vmem ?vm1 = vmem ?vm" "pts ?vm1 = pts vm"
    by (simp_all add: set_vmem_def emit_def)
  from pgfree_inv [of ?vm1 fs f] inv f assms(6) obtain db where
    db: "pgfree (frame_addr f) ?vm1 = Some (?vm1\<lparr>vdb := db\<rparr>)" "pfdb_inv db (f # fs)"
      "allocated db = allocated (vdb vm) - {f}" "\<forall>g. g \<noteq> f \<longrightarrow> refcount (pfs db ! g) = refcount (pfs (vdb vm) ! g)"
    unfolding vm1 by blast
  let ?vm' = "?vm1\<lparr>vdb := db\<rparr>"
  have vm': "vdb ?vm' = db" "vmem ?vm' = vmem ?vm" "pts ?vm' = pts vm" "pts ?vm = pts vm"
    using vm1 by (simp_all add: set_vmem_def)
  have sp: "space i K fs tab ?vm" by (rule space_leaf(1) [OF s p(3) len e])
  have "space i K (f # fs) tab ?vm'"
    unfolding space_def vm' using spaceD [OF sp] db(2) assms(8) by (auto simp: vm'(4))
  moreover have "walks i ?vm' es = (if es = ixs a then None else walks i vm es)" if "user_path K es" for es
    using space_leaf(2) [OF s p(3) len e that, of 0]
    unfolding vm' by (simp add: vm'(4) ixs_def leaf_of_def present_def)
  ultimately show ?thesis
    using r db vm' by (intro exI [of _ ?vm1] exI [of _ ?vm']) simp
qed

lemma free_pages_space:
  "space i K fs tab vm \<Longrightarrow> fs \<noteq> [] \<Longrightarrow> 0 \<notin> ran tab \<Longrightarrow> length frames < 2 ^ 36 \<Longrightarrow> distinct frames \<Longrightarrow>
   \<forall>f \<in> set frames. f \<in> allocated (vdb vm) \<and> refcount (pfs (vdb vm) ! f) = 1 \<and> frame_addr f \<notin> ran tab \<Longrightarrow>
   \<forall>k < length frames. user_path K (page_at vaddr k) \<and>
     walks i vm (page_at vaddr k) = Some (0, frame_addr (frames ! k) OR PF_PRESENT OR PF_RW) \<Longrightarrow>
   \<exists>vm'. free_pages i (length frames) vaddr vm = Some vm' \<and> space i K (rev frames @ fs) tab vm' \<and>
     pts vm' = pts vm \<and> allocated (vdb vm') = allocated (vdb vm) - set frames \<and>
     (\<forall>es. user_path K es \<longrightarrow> walks i vm' es =
        (if es \<in> page_at vaddr ` {..<length frames} then None else walks i vm es))"
proof (induction frames arbitrary: vm fs vaddr)
  case (Cons f frames)
  have p0: "ixs vaddr = page_at vaddr 0" by (simp add: page_at_def)
  have u: "user_path K (ixs vaddr)" "walks i vm (ixs vaddr) = Some (0, frame_addr f OR PF_PRESENT OR PF_RW)"
    using Cons.prems(7) [rule_format, of 0] unfolding p0 by simp_all
  have f: "f \<in> allocated (vdb vm)" "refcount (pfs (vdb vm) ! f) = 1" "frame_addr f \<notin> ran tab"
    using Cons.prems(6) by simp_all
  from free_page_space [OF Cons.prems(1) u f(1,2) Cons.prems(2,3) f(3)] obtain vm1 vm2 where
    1: "remove_pte i vaddr vm = Some (frame_addr f, vm1)" "pgfree (frame_addr f) vm1 = Some vm2"
      "space i K (f # fs) tab vm2" "pts vm2 = pts vm" "allocated (vdb vm2) = allocated (vdb vm) - {f}"
      "\<forall>g. g \<noteq> f \<longrightarrow> refcount (pfs (vdb vm2) ! g) = refcount (pfs (vdb vm) ! g)"
      "\<forall>es. user_path K es \<longrightarrow> walks i vm2 es = (if es = ixs vaddr then None else walks i vm es)"
    by blast
  have ne: "page_at vaddr (Suc k) \<noteq> ixs vaddr" if "k < length frames" for k
    unfolding p0 using page_at_inj [of "Suc k" 0 vaddr] that Cons.prems(4) by simp
  have "\<exists>vm'. free_pages i (length frames) (vaddr + PAGE_SIZE) vm2 = Some vm' \<and> space i K (rev frames @ f # fs) tab vm' \<and>
     pts vm' = pts vm2 \<and> allocated (vdb vm') = allocated (vdb vm2) - set frames \<and>
     (\<forall>es. user_path K es \<longrightarrow> walks i vm' es =
        (if es \<in> page_at (vaddr + PAGE_SIZE) ` {..<length frames} then None else walks i vm2 es))"
  proof (rule Cons.IH [OF 1(3) _ Cons.prems(3)])
    show "\<forall>g \<in> set frames. g \<in> allocated (vdb vm2) \<and> refcount (pfs (vdb vm2) ! g) = 1 \<and> frame_addr g \<notin> ran tab"
      using Cons.prems(5,6) 1(5,6) by auto
    show "\<forall>k < length frames. user_path K (page_at (vaddr + PAGE_SIZE) k) \<and>
        walks i vm2 (page_at (vaddr + PAGE_SIZE) k) = Some (0, frame_addr (frames ! k) OR PF_PRESENT OR PF_RW)"
    proof (intro allI impI)
      fix k assume k: "k < length frames"
      then show "user_path K (page_at (vaddr + PAGE_SIZE) k) \<and>
          walks i vm2 (page_at (vaddr + PAGE_SIZE) k) = Some (0, frame_addr (frames ! k) OR PF_PRESENT OR PF_RW)"
        using Cons.prems(7) [rule_format, of "Suc k"] 1(4,7) ne [OF k] by (simp add: page_at_Suc)
    qed
  qed (use Cons.prems(4,5) in auto)
  then obtain vm' where 2: "free_pages i (length frames) (vaddr + PAGE_SIZE) vm2 = Some vm'"
    "space i K (rev frames @ f # fs) tab vm'" "pts vm' = pts vm2" "allocated (vdb vm') = allocated (vdb vm2) - set frames"
    "\<forall>es. user_path K es \<longrightarrow> walks i vm' es =
        (if es \<in> page_at (vaddr + PAGE_SIZE) ` {..<length frames} then None else walks i vm2 es)"
    by blast
  have im: "page_at vaddr ` {..<length (f # frames)} = insert (ixs vaddr) (page_at (vaddr + PAGE_SIZE) ` {..<length frames})"
    unfolding p0 page_at_Suc by (simp add: lessThan_Suc_eq_insert_0 image_image)
  have "free_pages i (length (f # frames)) vaddr vm = Some vm'" by (simp add: 1(1,2) 2(1))
  moreover have "walks i vm' es = (if es \<in> page_at vaddr ` {..<length (f # frames)} then None else walks i vm es)"
    if "user_path K es" for es
    using 2(5) 1(7) that unfolding im by auto
  ultimately show ?case using 1(4,5) 2(2-4) by auto
qed simp

section \<open>A new address space\<close>

text \<open>\<open>pagetable_create\<close> establishes the invariant: the root is a frame of the free list that holds
  the kernel's entries, and only those.  The kernel's root lies elsewhere and its used entries
  carry \<open>PF_SYSTEM\<close>, as those \<open>kmem_init\<close> makes do.\<close>

lemma copy_entries:
  assumes "aligned p" "aligned q" "p \<noteq> q"
  shows "set es \<subseteq> {e. e < 512} \<Longrightarrow> (\<forall>r e. aligned r \<and> e < 512 \<longrightarrow>
     get_entry (vmem (fold (\<lambda>e. set_vmem (\<lambda>m. set_entry p e (get_entry m q e) m)) es vm)) r e =
       (if r = p \<and> e \<in> set es then get_entry (vmem vm) q e else get_entry (vmem vm) r e)) \<and>
     pts (fold (\<lambda>e. set_vmem (\<lambda>m. set_entry p e (get_entry m q e) m)) es vm) = pts vm \<and>
     vdb (fold (\<lambda>e. set_vmem (\<lambda>m. set_entry p e (get_entry m q e) m)) es vm) = vdb vm"
proof (induction es arbitrary: vm)
  case (Cons d ds)
  have d: "d < 512" "set ds \<subseteq> {e. e < 512}" using Cons.prems by auto
  have "get_entry (vmem (set_vmem (\<lambda>m. set_entry p d (get_entry m q d) m) vm)) r e =
      (if r = p \<and> e = d then get_entry (vmem vm) q d else get_entry (vmem vm) r e)" if "aligned r" "e < 512" for r e
    using that assms(1) d(1) by (simp add: set_vmem_def get_set_entry)
  then show ?case using Cons.IH [OF d(2), of "set_vmem (\<lambda>m. set_entry p d (get_entry m q d) m) vm"] assms(2,3)
    by (auto simp: set_vmem_def)
qed simp

lemma entries_bound: "set entries \<subseteq> {e. e < 512}" "e < 512 \<Longrightarrow> e \<in> set entries"
proof -
  show "set entries \<subseteq> {e. e < 512}" by (auto simp: entries_def word_less_nat_alt unat_of_nat)
  show "e \<in> set entries" if "e < 512"
    using that by (auto simp: entries_def word_less_nat_alt intro: image_eqI [of _ _ "unat e"])
qed

lemma pagetable_create_space:
  assumes db: "pfdb_inv (vdb vm) (f # fs)" "avail (vdb vm) \<noteq> 0" and sz: "sz mod PAGE_SIZE = 0" and i: "i \<noteq> kpt"
    and k: "aligned kr" "kr = proot (pts vm kpt)" "kr \<noteq> frame_addr f"
      "\<forall>e < 512. get_entry (vmem vm) kr e = 0 \<or> get_entry (vmem vm) kr e AND PF_SYSTEM \<noteq> 0"
  obtains vm' where "pagetable_create i vaddr sz vm = Some vm'"
    "space i {e. e < 512 \<and> get_entry (vmem vm) kr e AND PF_SYSTEM \<noteq> 0} fs [[] \<mapsto> frame_addr f] vm'"
    "pts vm' i = \<lparr>proot = frame_addr f, vroot = vaddr, vnext = vaddr + PAGE_SIZE, vterm = vaddr + sz\<rparr>"
    "\<And>e. e < 512 \<Longrightarrow> get_entry (vmem vm') (frame_addr f) e = get_entry (vmem vm) kr e"
proof -
  obtain db' where a: "pfalloc (vdb vm) = Some (f, db')" "pfdb_inv db' fs" using pfalloc_inv [OF db] by blast
  have f: "f < 2 ^ 32" "f \<notin> set fs" "\<forall>g \<in> set fs. g < 2 ^ 32"
    using db(1) links_bound [of "pfs (vdb vm)" "pf_head (vdb vm)" "f # fs"] by (fastforce simp: pfdb_inv_def)+
  note al = frame_aligned [OF f(1)]
  define v1 where "v1 = set_pt i (\<lambda>_. \<lparr>proot = frame_addr f, vroot = vaddr, vnext = vaddr + PAGE_SIZE, vterm = vaddr + sz\<rparr>)
    (set_vmem (zero_mem (frame_addr f) PAGE_SIZE) (vm\<lparr>vdb := db'\<rparr>))"
  define v2 where "v2 = fold (\<lambda>e. set_vmem (\<lambda>m. set_entry (frame_addr f) e (get_entry m kr e) m)) entries v1"
  have v1: "proot (pts v1 i) = frame_addr f" "proot (pts v1 kpt) = kr" "vdb v1 = db'"
    "aligned r \<Longrightarrow> e < 512 \<Longrightarrow> get_entry (vmem v1) r e = (if r = frame_addr f then 0 else get_entry (vmem vm) r e)" for r e
    using i k(2) get_zero_page [OF _ al] by (simp_all add: v1_def set_pt_def set_vmem_def)
  have v2: "pts v2 = pts v1" "vdb v2 = db'"
    "\<forall>r e. aligned r \<and> e < 512 \<longrightarrow> get_entry (vmem v2) r e =
       (if r = frame_addr f \<and> e \<in> set entries then get_entry (vmem v1) kr e else get_entry (vmem v1) r e)"
    using copy_entries [OF al k(1) not_sym [OF k(3)] entries_bound(1), of v1] v1(3) unfolding v2_def by simp_all
  have root: "get_entry (vmem v2) (frame_addr f) e = get_entry (vmem vm) kr e" if "e < 512" for e
    using v2(3) v1(4) [OF k(1) that] entries_bound(2) [OF that] al that k(3) by simp
  have c: "pagetable_create i vaddr sz vm = Some v2"
    using sz a(1) v1(1,2) by (simp add: pagetable_create_def pgalloc_def v2_def v1_def frame_addr_def Let_def)
  let ?K = "{e. e < 512 \<and> get_entry (vmem vm) kr e AND PF_SYSTEM \<noteq> 0}"
  have z: "get_entry (vmem v2) (frame_addr f) e = 0" if "e < 512" "\<not> foreign ?K [e]" for e
    using that k(4) root by (auto simp: foreign_def)
  have "tree (vmem v2) [[] \<mapsto> frame_addr f] ?K"
    using al z by (auto simp: tree_def stops_def present_def foreign_def split: if_splits)
  moreover have "\<forall>g \<in> set fs. frame_addr g \<noteq> frame_addr f" using f frame_inj by metis
  ultimately have "space i ?K fs [[] \<mapsto> frame_addr f] v2"
    using a(2) z root v1(1) by (auto simp: space_def v2 split: if_splits)
  then show thesis using root v2(1) c by (intro that [of v2]) (simp_all add: v1_def set_pt_def)
qed

section \<open>An example\<close>

text \<open>Two empty address spaces and seven free frames.\<close>

definition demo_pt :: "u64 \<Rightarrow> pagetable" where
  "demo_pt root = \<lparr>proot = root, vroot = 0x400000000000, vnext = 0x400000001000, vterm = 0x400000010000\<rparr>"

definition demo :: "pfdb \<Rightarrow> vm" where
  "demo db = \<lparr>vdb = db, vmem = (\<lambda>_. 0),
     pts = (\<lambda>_. zero_pagetable)(1 := demo_pt 0x100000, 2 := demo_pt 0x101000), active_pt = kpt, vm_io = []\<rparr>"

lemma demo_db:
  obtains db where "pfdb_inv db [1, 2, 3, 4, 5, 6, 7]" "avail db = 7" "length (pfs db) = 8"
proof -
  have p: "unat (drop_bit 12 (0x1000 :: u64)) = 1" "unat (drop_bit 12 (0x1000 + 0x7000 :: u64)) = 8"
    by simp_all
  have u: "[1..<8] = [1, 2, 3, 4, 5, 6, 7::nat]" by (simp add: upt_conv_Cons)
  have b: "pfdb_inv (blank_pfdb 8) []" "tail_ok (blank_pfdb 8) []" using blank_pfdb_inv [of 8] by simp_all
  have "{1..<8} \<inter> set ([]::nat list) = {}" "(8::nat) \<le> length (pfs (blank_pfdb 8))" "(1::nat) < 8"
    by (simp_all add: blank_pfdb_def)
  from add_frames_inv [where addr = "0x1000" and sz = "0x7000", unfolded p, OF b this(3,2,1)] that show thesis
    unfolding u by (auto simp: blank_pfdb_def)
qed

lemma empty_space:
  assumes "pfdb_inv (vdb vm) fs" and "vmem vm = (\<lambda>_. 0)" and "aligned (proot (pts vm i))"
    and "proot (pts vm i) \<notin> frame_addr ` set fs"
  shows "space i {} fs [[] \<mapsto> proot (pts vm i)] vm"
  using assms by (auto simp: space_def tree_def stops_def present_def get_entry_def foreign_def split: if_splits)
    (metis imageI)

lemma demo_space:
  assumes "pfdb_inv db [1, 2, 3, 4, 5, 6, 7]"
  shows "space 1 {} [1, 2, 3, 4, 5, 6, 7] [[] \<mapsto> 0x100000] (demo db)"
    and "space 2 {} [1, 2, 3, 4, 5, 6, 7] [[] \<mapsto> 0x101000] (demo db)"
proof -
  have "unat (frame_addr f) < 0x8000" if "f \<in> set [1, 2, 3, 4, 5, 6, 7]" for f
    using unat_frame [of f] that by auto
  moreover have "unat (0x100000 :: u64) = 0x100000" "unat (0x101000 :: u64) = 0x101000" by simp_all
  ultimately have "0x100000 \<notin> frame_addr ` set [1, 2, 3, 4, 5, 6, 7]" "0x101000 \<notin> frame_addr ` set [1, 2, 3, 4, 5, 6, 7]"
    by fastforce+
  then show "space 1 {} [1, 2, 3, 4, 5, 6, 7] [[] \<mapsto> 0x100000] (demo db)"
    "space 2 {} [1, 2, 3, 4, 5, 6, 7] [[] \<mapsto> 0x101000] (demo db)"
    using empty_space [of "demo db" "[1, 2, 3, 4, 5, 6, 7]" 1] empty_space [of "demo db" "[1, 2, 3, 4, 5, 6, 7]" 2] assms
    by (simp_all add: demo_def demo_pt_def aligned_def)
qed

text \<open>The page at \<open>0x400000010000\<close> and the window need the same tables.\<close>

definition demo_tables :: "u64 list set" where "demo_tables = {[128], [128, 0], [128, 0, 0]}"

lemma demo_room: "room (demo_pt root) {} demo_tables 7"
  unfolding room_def
proof (intro allI impI)
  fix l :: nat assume "l < 7"
  then have "l \<in> {0, 1, 2, 3, 4, 5, 6}" by auto
  then show "tables_of (vnext (demo_pt root) + PAGE_SIZE * of_nat l) \<subseteq> demo_tables \<and>
      PML4E (vnext (demo_pt root) + PAGE_SIZE * of_nat l) \<notin> {} \<and>
      vnext (demo_pt root) + PAGE_SIZE * of_nat l < vterm (demo_pt root)"
    by (elim insertE emptyE) (simp_all add: tables_of_def demo_tables_def demo_pt_def page_size_defs
      PML4E_def PDPTE_def PDE_def PGMASK_ENTRY_def)
qed

lemma demo_window: "page_at 0x400000010000 0 \<notin> window (demo_pt root) 7"
proof
  assume "page_at 0x400000010000 0 \<in> window (demo_pt root) 7"
  then obtain l where l: "l < 7" "ixs 0x400000010000 = ixs (0x400000001000 + PAGE_SIZE * of_nat l)"
    by (auto simp: window_def page_at_def demo_pt_def)
  then have "l \<in> {0, 1, 2, 3, 4, 5, 6}" by auto
  then show False using l(2)
    by (elim insertE emptyE) (simp_all add: ixs_def page_size_defs PML4E_def PDPTE_def PDE_def PTE_def PGMASK_ENTRY_def)
qed

lemma seven: "length [1, 2, 3, 4, 5, 6, 7 :: nat] = 7"
  by simp

lemma demo_alloc:
  assumes "pfdb_inv db [1, 2, 3, 4, 5, 6, 7]" and "avail db = 7"
  obtains vm' fs' where "page_alloc 1 0x400000010000 1 (demo db) = Some (0x400000010000, vm')"
    "pfdb_inv (vdb vm') fs'" "fs' \<noteq> []"
proof -
  have c: "card (demo_tables - dom [[] \<mapsto> 0x100000 :: u64]) = 3" by (simp add: demo_tables_def)
  have "\<exists>vm' ts fs' tab' j X. alloc_pages 1 1 0x400000010000 (demo db) = Some vm' \<and>
      paged 1 {} [1, 2, 3, 4, 5, 6, 7] [[] \<mapsto> 0x100000] (demo db) ts fs' tab' vm' j X \<and>
      length ts \<le> 1 + card (demo_tables - dom [[] \<mapsto> 0x100000 :: u64])"
  proof (rule alloc_pages_total [OF demo_space(1) [OF assms(1)]])
    show "\<forall>k < 1. tables_of (0x400000010000 + PAGE_SIZE * of_nat k) \<subseteq> demo_tables \<and>
        PML4E (0x400000010000 + PAGE_SIZE * of_nat k) \<notin> {}"
      by (simp add: tables_of_def demo_tables_def PML4E_def PDPTE_def PDE_def PGMASK_ENTRY_def)
    show "room (pts (demo db) 1) {} demo_tables (card (demo_tables - dom [[] \<mapsto> 0x100000 :: u64]))"
      using demo_room [of "0x100000"] unfolding c by (simp add: demo_def room_def)
  qed (unfold c, simp_all add: demo_def demo_tables_def assms(2))
  then obtain vm' ts fs' tab' j X where v: "alloc_pages 1 1 0x400000010000 (demo db) = Some vm'"
    "paged 1 {} [1, 2, 3, 4, 5, 6, 7] [[] \<mapsto> 0x100000] (demo db) ts fs' tab' vm' j X" "length ts \<le> 4"
    unfolding c by auto
  from paged_length(1) [OF v(2)] v(3) have "fs' \<noteq> []" by auto
  moreover have "page_alloc 1 0x400000010000 1 (demo db) = Some (0x400000010000, vm')"
    unfolding page_alloc_def nat_one_as_int [symmetric] by (simp add: v(1) del: alloc_pages.simps One_nat_def)
  ultimately show thesis using that spaceD(1) [OF paged_length(2) [OF v(2)]] by blast
qed

section \<open>Properties\<close>

lemma translate_frame:
  assumes "f < 2 ^ 32" and "walk m root a = Some (0, frame_addr f OR PF_PRESENT OR PF_RW)"
  shows "translate m root a = Some (frame_addr f OR (a AND 0xfff), PF_PRESENT OR PF_RW)"
proof -
  let ?v = "frame_addr f OR PF_PRESENT OR PF_RW"
  have v: "bit ?v n \<longleftrightarrow> bit (frame_addr f) n \<or> n < 2" for n
    unfolding flags_mask by (auto simp: bit_simps)
  note b = v bit_frame [OF assms(1)]
  have fl: "(0x1ff :: u64) = mask 9" by (simp add: mask_eq_exp_minus_1)
  have "table_addr ?v AND NOT (mask 12) = frame_addr f"
    unfolding table_addr_def flags_mask(3) by (rule bit_word_eqI) (auto simp: bit_and_iff bit_not_iff bit_mask_iff b)
  moreover have "?v AND 0x1ff = PF_PRESENT OR PF_RW"
    unfolding fl by (rule bit_word_eqI) (auto simp: flags_mask(1) bit_and_iff bit_or_iff bit_mask_iff bit_frame [OF assms(1)])
  ultimately show ?thesis
    using assms(2) by (simp add: translate_def page_bits_def flags_mask(4))
qed

text \<open>C29: \<open>page_alloc\<close> maps each of the pages asked for to a frame of its own, which was free and
  is now allocated with one reference: every address of the page translates to the same
  offset in the frame, readable and writable.  Every other address translates as before, but for
  the window the tables are mapped in and the part of the space under the root entries \<open>K\<close> of the
  kernel, about which nothing is said.  The tables stay a tree, and no frame is lost: those taken
  are the first ones of the free list.  The pages lie outside the window.\<close>

theorem page_alloc_maps:
  assumes "space i K fs tab vm" and "page_alloc i vaddr n vm = Some (v, vm')"
    and "\<forall>k < nat n. page_at vaddr k \<notin> window (pts vm i) (length fs)"
  shows "v = vaddr \<and> (\<exists>ts fs' tab' frames. space i K fs' tab' vm' \<and> fs = ts @ fs' \<and>
     allocated (vdb vm') = set ts \<union> allocated (vdb vm) \<and>
     length frames = nat n \<and> distinct frames \<and> set frames \<subseteq> set ts \<and>
     (\<forall>f \<in> set frames. refcount (pfs (vdb vm') ! f) = 1) \<and>
     (\<forall>k < nat n. \<forall>a. ixs a = page_at vaddr k \<longrightarrow>
        translate (vmem vm') (proot (pts vm' i)) a =
          Some (frame_addr (frames ! k) OR (a AND 0xfff), PF_PRESENT OR PF_RW)) \<and>
     (\<forall>a. PML4E a \<notin> K \<and> ixs a \<notin> page_at vaddr ` {..<nat n} \<union> window (pts vm i) (length fs) \<longrightarrow>
        translate (vmem vm') (proot (pts vm' i)) a = translate (vmem vm) (proot (pts vm i)) a))"
proof -
  have n: "0 \<le> n" and v: "v = vaddr" and al: "alloc_pages i (nat n) vaddr vm = Some vm'"
    using assms(2) by (auto simp: page_alloc_def bind_eq_Some_conv split: if_splits)
  from alloc_pages_paged [OF assms(1) al] obtain ts fs' tab' j frames where
    p: "paged i K fs tab vm ts fs' tab' vm' j (page_at vaddr ` {..<nat n})" "j \<le> length ts"
      "length frames = nat n" "distinct frames" "set frames \<subseteq> set ts"
      "\<forall>f \<in> set frames. frame_addr f \<notin> ran tab'"
      "\<forall>k < nat n. user_path K (page_at vaddr k) \<and> (page_at vaddr k \<notin> window (pts vm i) j \<longrightarrow>
         walks i vm' (page_at vaddr k) = Some (0, frame_addr (frames ! k) OR PF_PRESENT OR PF_RW))"
    by blast
  have g: "fs = ts @ fs'" "space i K fs' tab' vm'" "proot (pts vm' i) = proot (pts vm i)"
    "allocated (vdb vm') = set ts \<union> allocated (vdb vm)"
    "\<forall>f. refcount (pfs (vdb vm') ! f) = (if f \<in> set ts then 1 else refcount (pfs (vdb vm) ! f))"
    using p(1) by (auto simp: paged_def grown_def)
  have w: "window (pts vm i) j \<subseteq> window (pts vm i) (length fs)" using p(2) g(1) by (intro window_mono) simp
  have mapped: "translate (vmem vm') (proot (pts vm' i)) a =
      Some (frame_addr (frames ! k) OR (a AND 0xfff), PF_PRESENT OR PF_RW)"
    if "k < nat n" "ixs a = page_at vaddr k" for k a
  proof (rule translate_frame)
    have "frames ! k \<in> set fs" using p(3,5) that(1) g(1) nth_mem [of k frames] by auto
    then show "frames ! k < 2 ^ 32" by (rule spaceD(7) [OF assms(1)])
    have "page_at vaddr k \<notin> window (pts vm i) j" using assms(3) that(1) w by blast
    then show "walk (vmem vm') (proot (pts vm' i)) a = Some (0, frame_addr (frames ! k) OR PF_PRESENT OR PF_RW)"
      using p(7) that by (simp add: walk_def)
  qed
  have other: "translate (vmem vm') (proot (pts vm' i)) a = translate (vmem vm) (proot (pts vm i)) a"
    if "PML4E a \<notin> K" "ixs a \<notin> page_at vaddr ` {..<nat n} \<union> window (pts vm i) (length fs)" for a
  proof -
    have "user_path K (ixs a)"
      using that(1) ixs_bound by (simp add: user_path_def) (simp add: ixs_def foreign_def)
    then have "walks i vm' (ixs a) = walks i vm (ixs a)" using p(1) that(2) w by (auto simp: paged_def)
    then show ?thesis by (simp add: translate_def walk_def)
  qed
  show ?thesis
    using v g(1,2,4,5) p(3-5) mapped other
    by (intro conjI exI [of _ ts] exI [of _ fs'] exI [of _ tab'] exI [of _ frames]) auto
qed

theorem page_alloc_maps_witness:
  "\<exists>db vm' f. page_alloc 1 0x400000010000 1 (demo db) = Some (0x400000010000, vm') \<and> f \<in> allocated (vdb vm') \<and>
     translate (vmem vm') 0x100000 0x400000010123 = Some (frame_addr f OR 0x123, PF_PRESENT OR PF_RW)"
proof -
  obtain db where db: "pfdb_inv db [1, 2, 3, 4, 5, 6, 7]" "avail db = 7" by (rule demo_db)
  then obtain vm' where v: "page_alloc 1 0x400000010000 1 (demo db) = Some (0x400000010000, vm')"
    by (rule demo_alloc) (rule that)
  have p: "ixs 0x400000010123 = page_at 0x400000010000 0"
    by (simp add: page_at_def ixs_def PML4E_def PDPTE_def PDE_def PTE_def PGMASK_ENTRY_def)
  have w: "\<forall>k < nat 1. page_at 0x400000010000 k \<notin> window (pts (demo db) 1) (length [1, 2, 3, 4, 5, 6, 7 :: nat])"
    using demo_window [of "0x100000"] unfolding seven by (simp add: demo_def)
  from page_alloc_maps [OF demo_space(1) [OF db(1)] v w] obtain ts fs' tab' frames where
    m: "space 1 {} fs' tab' vm'" "allocated (vdb vm') = set ts \<union> allocated (vdb (demo db))" "length frames = nat 1"
      "set frames \<subseteq> set ts" "\<forall>k < nat 1. \<forall>a. ixs a = page_at 0x400000010000 k \<longrightarrow>
        translate (vmem vm') (proot (pts vm' 1)) a = Some (frame_addr (frames ! k) OR (a AND 0xfff), PF_PRESENT OR PF_RW)"
    by blast
  have "frames ! 0 \<in> allocated (vdb vm')" using m(2-4) nth_mem [of 0 frames] by auto
  moreover have "proot (pts vm' 1) = 0x100000"
    using alloc_pages_paged [OF demo_space(1) [OF db(1)], of "nat 1" "0x400000010000" vm'] v
    by (auto simp: page_alloc_def bind_eq_Some_conv paged_def grown_def demo_def demo_pt_def)
  ultimately show ?thesis using v m(5) p by (intro exI [of _ db] exI [of _ vm'] exI [of _ "frames ! 0"]) auto
qed

text \<open>C32: \<open>page_alloc\<close> returns when the frames suffice: with \<open>S\<close> the tables the pages need, and
  the tables the next pages of the window need, one free frame for each page and one for each
  table of \<open>S\<close> that does not exist yet is enough, if the window has room for these tables and
  no page is in the kernel's part of the address space.\<close>

theorem page_alloc_returns:
  assumes "space i K fs tab vm" and "avail (vdb vm) \<noteq> 0" and "0 \<le> n" and "finite S"
    and "\<forall>k < nat n. tables_of (vaddr + PAGE_SIZE * of_nat k) \<subseteq> S \<and> PML4E (vaddr + PAGE_SIZE * of_nat k) \<notin> K"
    and "room (pts vm i) K S (card (S - dom tab))"
    and "nat n + card (S - dom tab) \<le> length fs"
  shows "\<exists>vm'. page_alloc i vaddr n vm = Some (vaddr, vm')"
  using alloc_pages_total [OF assms(1,2,4-7)] assms(3) by (fastforce simp: page_alloc_def)

theorem page_alloc_returns_witness:
  "\<exists>db vm'. avail db = 7 \<and> page_alloc 1 0x400000010000 1 (demo db) = Some (0x400000010000, vm')"
proof -
  obtain db where db: "pfdb_inv db [1, 2, 3, 4, 5, 6, 7]" "avail db = 7" by (rule demo_db)
  have c: "card (demo_tables - dom [[] \<mapsto> 0x100000 :: u64]) = 3" by (simp add: demo_tables_def)
  have "\<exists>vm'. page_alloc 1 0x400000010000 1 (demo db) = Some (0x400000010000, vm')"
  proof (rule page_alloc_returns [OF demo_space(1) [OF db(1)], where S = demo_tables])
    show "\<forall>k < nat 1. tables_of (0x400000010000 + PAGE_SIZE * of_nat k) \<subseteq> demo_tables \<and>
        PML4E (0x400000010000 + PAGE_SIZE * of_nat k) \<notin> {}"
      by (simp add: tables_of_def demo_tables_def PML4E_def PDPTE_def PDE_def PGMASK_ENTRY_def)
    show "room (pts (demo db) 1) {} demo_tables (card (demo_tables - dom [[] \<mapsto> 0x100000 :: u64]))"
      using demo_room [of "0x100000"] unfolding c by (simp add: demo_def room_def)
  qed (unfold c, simp_all add: demo_def demo_tables_def db(2))
  then show ?thesis using db(2) by blast
qed

text \<open>C33: the recursion of \<open>add_pte\<close> through its loop over new tables ends.  In every address
  space the recursion as the code has it, without a bound on its depth, has exactly one result,
  a state or \<open>fatal\<close>, since every call that calls again has taken a frame; and that result is the
  one of \<open>add_pte\<close>, whose bound on the depth is therefore never reached.\<close>

theorem add_pte_terminates:
  assumes "space i K fs tab vm"
  shows "add_pte_ends i vaddr paddr pflags addflags vm r \<longleftrightarrow>
     r = add_pte i vaddr paddr pflags addflags vm"
proof -
  have "add_pte_ends i vaddr paddr pflags addflags vm (add_pte i vaddr paddr pflags addflags vm)"
    unfolding add_pte_def using frames_bound [OF assms] by (intro depth_ends [OF assms]) simp
  then show ?thesis using add_pte_ends_unique(1) by blast
qed

theorem add_pte_terminates_witness:
  "\<exists>db. avail db = 7 \<and> add_pte_ends 1 0x400000010000 0x7000 PF_PRESENT 0 (demo db)
     (add_pte 1 0x400000010000 0x7000 PF_PRESENT 0 (demo db))"
proof -
  obtain db where db: "pfdb_inv db [1, 2, 3, 4, 5, 6, 7]" "avail db = 7" "length (pfs db) = 8" by (rule demo_db)
  then show ?thesis using add_pte_terminates [OF demo_space(1) [OF db(1)]] by blast
qed

text \<open>C30: what \<open>page_alloc\<close> maps, \<open>page_free\<close> unmaps: it returns, the pages are not mapped any
  more, their frames are free again, and every other address outside the kernel's part translates
  as before.  The tables built stay.  The free list must hold a frame, since \<open>pffree\<close> fails on an
  empty one, frame 0 must not be in use, and the pages lie outside the window of the tables.\<close>

theorem page_free_alloc:
  assumes "space i K fs tab vm" and "page_alloc i vaddr n vm = Some (v, vm1)"
    and "\<forall>k < nat n. page_at vaddr k \<notin> window (pts vm i) (length fs)"
    and "0 \<notin> set fs" and "0 \<notin> ran tab"
    and "\<exists>f < length (pfs (vdb vm1)). pf_type (pfs (vdb vm1) ! f) = PFTYPE_AVAILABLE"
  shows "\<exists>vm2 frames fs' tab'. page_free i vaddr n vm1 = Some vm2 \<and> space i K (rev frames @ fs') tab' vm2 \<and>
     length frames = nat n \<and> set frames \<subseteq> allocated (vdb vm1) \<and>
     allocated (vdb vm2) = allocated (vdb vm1) - set frames \<and>
     (\<forall>k < nat n. \<forall>a. ixs a = page_at vaddr k \<longrightarrow> translate (vmem vm2) (proot (pts vm2 i)) a = None) \<and>
     (\<forall>a. PML4E a \<notin> K \<and> ixs a \<notin> page_at vaddr ` {..<nat n} \<longrightarrow>
        translate (vmem vm2) (proot (pts vm2 i)) a = translate (vmem vm1) (proot (pts vm1 i)) a)"
proof -
  have n: "0 \<le> n" and al: "alloc_pages i (nat n) vaddr vm = Some vm1"
    using assms(2) by (auto simp: page_alloc_def bind_eq_Some_conv split: if_splits)
  from alloc_pages_paged [OF assms(1) al] obtain ts fs' tab' j frames where
    p: "paged i K fs tab vm ts fs' tab' vm1 j (page_at vaddr ` {..<nat n})" "j \<le> length ts"
      "length frames = nat n" "distinct frames" "set frames \<subseteq> set ts" "\<forall>f \<in> set frames. frame_addr f \<notin> ran tab'"
      "\<forall>k < nat n. user_path K (page_at vaddr k) \<and> (page_at vaddr k \<notin> window (pts vm i) j \<longrightarrow>
         walks i vm1 (page_at vaddr k) = Some (0, frame_addr (frames ! k) OR PF_PRESENT OR PF_RW))"
    by blast
  have g: "fs = ts @ fs'" "space i K fs' tab' vm1" "ran tab' \<subseteq> ran tab \<union> frame_addr ` set ts"
    "allocated (vdb vm1) = set ts \<union> allocated (vdb vm)"
    "\<forall>f. refcount (pfs (vdb vm1) ! f) = (if f \<in> set ts then 1 else refcount (pfs (vdb vm) ! f))"
    using p(1) by (auto simp: paged_def grown_def)
  have w: "window (pts vm i) j \<subseteq> window (pts vm i) (length fs)" using p(2) g(1) by (intro window_mono) simp
  have "fs' \<noteq> []" using assms(6) spaceD(1) [OF g(2)] by (auto simp: pfdb_inv_def)
  moreover have "0 \<notin> ran tab'"
  proof
    assume "0 \<in> ran tab'"
    then obtain f where f: "f \<in> set ts" "frame_addr f = 0" using g(3) assms(5) by auto
    then have "f = 0" using unat_frame [of f] spaceD(7) [OF assms(1), of f] g(1) by simp
    then show False using f(1) assms(4) g(1) by simp
  qed
  moreover have "length frames < 2 ^ 36"
  proof -
    have "length frames \<le> length fs"
      using card_mono [OF finite_set p(5)] card_length [of ts] p(4) g(1) by (simp add: distinct_card)
    then show ?thesis using frames_bound [OF assms(1)] spaceD(1) [OF assms(1)] by (simp add: pfdb_inv_def)
  qed
  moreover have "\<forall>f \<in> set frames. f \<in> allocated (vdb vm1) \<and> refcount (pfs (vdb vm1) ! f) = 1 \<and> frame_addr f \<notin> ran tab'"
    using p(5,6) g(4,5) by auto
  moreover have "\<forall>k < length frames. user_path K (page_at vaddr k) \<and>
     walks i vm1 (page_at vaddr k) = Some (0, frame_addr (frames ! k) OR PF_PRESENT OR PF_RW)"
    using p(3,7) assms(3) w by auto
  ultimately obtain vm2 where f: "free_pages i (length frames) vaddr vm1 = Some vm2"
    "space i K (rev frames @ fs') tab' vm2" "pts vm2 = pts vm1" "allocated (vdb vm2) = allocated (vdb vm1) - set frames"
    "\<forall>es. user_path K es \<longrightarrow> walks i vm2 es =
        (if es \<in> page_at vaddr ` {..<length frames} then None else walks i vm1 es)"
    using free_pages_space [OF g(2) _ _ _ p(4)] by blast
  have user: "user_path K (ixs a)" if "PML4E a \<notin> K" for a
    using that ixs_bound by (simp add: user_path_def) (simp add: ixs_def foreign_def)
  have "translate (vmem vm2) (proot (pts vm2 i)) a = None" if "k < nat n" "ixs a = page_at vaddr k" for k a
    using f(5) p(3,7) that by (auto simp: translate_def walk_def)
  moreover have "translate (vmem vm2) (proot (pts vm2 i)) a = translate (vmem vm1) (proot (pts vm1 i)) a"
    if "PML4E a \<notin> K" "ixs a \<notin> page_at vaddr ` {..<nat n}" for a
    using f(3,5) user [OF that(1)] that(2) p(3) by (simp add: translate_def walk_def)
  moreover have "page_free i vaddr n vm1 = Some vm2" using n f(1) p(3) by (simp add: page_free_def)
  moreover have "set frames \<subseteq> allocated (vdb vm1)" using p(5) g(4) by auto
  ultimately show ?thesis using f(2,4) p(3)
    by (intro exI [of _ vm2] exI [of _ frames] exI [of _ fs'] exI [of _ tab']) simp
qed

theorem page_free_alloc_witness:
  "\<exists>db vm1 vm2. page_alloc 1 0x400000010000 1 (demo db) = Some (0x400000010000, vm1) \<and>
     page_free 1 0x400000010000 1 vm1 = Some vm2 \<and>
     translate (vmem vm2) (proot (pts vm2 1)) 0x400000010123 = None"
proof -
  obtain db where db: "pfdb_inv db [1, 2, 3, 4, 5, 6, 7]" "avail db = 7" by (rule demo_db)
  then obtain vm1 fs' where v: "page_alloc 1 0x400000010000 1 (demo db) = Some (0x400000010000, vm1)"
    and fs: "pfdb_inv (vdb vm1) fs'" "fs' \<noteq> []"
    by (rule demo_alloc) (rule that)
  have p: "ixs 0x400000010123 = page_at 0x400000010000 0"
    by (simp add: page_at_def ixs_def PML4E_def PDPTE_def PDE_def PTE_def PGMASK_ENTRY_def)
  have w: "\<forall>k < nat 1. page_at 0x400000010000 k \<notin> window (pts (demo db) 1) (length [1, 2, 3, 4, 5, 6, 7 :: nat])"
    using demo_window [of "0x100000"] unfolding seven by (simp add: demo_def)
  obtain f where "f \<in> set fs'" using fs(2) by (cases fs') auto
  then have "\<exists>f < length (pfs (vdb vm1)). pf_type (pfs (vdb vm1) ! f) = PFTYPE_AVAILABLE"
    using fs(1) links_bound [of "pfs (vdb vm1)" "pf_head (vdb vm1)" fs' f] by (auto simp: pfdb_inv_def)
  from page_free_alloc [OF demo_space(1) [OF db(1)] v w _ _ this] obtain vm2 where
    "page_free 1 0x400000010000 1 vm1 = Some vm2"
    "\<forall>k < nat 1. \<forall>a. ixs a = page_at 0x400000010000 k \<longrightarrow> translate (vmem vm2) (proot (pts vm2 1)) a = None"
    by auto
  then show ?thesis using v p by auto
qed

text \<open>C31: allocating pages in one address space does not touch another one: the other's
  tables, disjoint from those of the first, keep their contents, so every address outside the
  kernel's part translates as before, and its invariant is kept with the frames that remain.\<close>

theorem page_alloc_isolates:
  assumes "space i K fs tab vm" and "space j L fs tab2 vm" and "i \<noteq> j" and "ran tab \<inter> ran tab2 = {}"
    and "page_alloc i vaddr n vm = Some (v, vm')"
  shows "(\<exists>ts fs'. fs = ts @ fs' \<and> space j L fs' tab2 vm') \<and>
    (\<forall>a. PML4E a \<notin> L \<longrightarrow>
       translate (vmem vm') (proot (pts vm' j)) a = translate (vmem vm) (proot (pts vm j)) a)"
proof -
  have al: "alloc_pages i (nat n) vaddr vm = Some vm'"
    using assms(5) by (auto simp: page_alloc_def bind_eq_Some_conv split: if_splits)
  from alloc_pages_paged [OF assms(1) al] obtain ts fs' tab' where
    g: "grown i K fs tab vm ts fs' tab' vm'" by (auto simp: paged_def)
  have fs: "fs = ts @ fs'" using g by (simp add: grown_def)
  have pts: "pts vm' j = pts vm j" using g assms(3) by (simp add: grown_def)
  have same: "get_entry (vmem vm') p e = get_entry (vmem vm) p e" if p: "tab2 xs = Some p" "e < 512" for xs p e
  proof -
    have r: "p \<in> ran tab2" using p(1) by (auto simp: ran_def)
    have nt: "p \<notin> frame_addr ` set ts" using spaceD(6) [OF assms(2)] r fs by auto
    then have "p \<notin> ran tab'" using g r assms(4) by (auto simp: grown_def)
    then show ?thesis using g nt treeD(1) [OF spaceD(2) [OF assms(2)] p(1)] p(2) by (auto simp: grown_def)
  qed
  note root = spaceD(3) [OF assms(2)]
  have t: "tree (vmem vm') tab2 L" by (rule tree_cong [OF spaceD(2) [OF assms(2)] same])
  have "space j L fs' tab2 vm'"
    unfolding space_def pts
    using t spaceD(1) [OF grownD(2) [OF g]] spaceD [OF assms(2)] same [OF root] same fs by auto
  moreover have "translate (vmem vm') (proot (pts vm' j)) a = translate (vmem vm) (proot (pts vm j)) a"
    if "PML4E a \<notin> L" for a
  proof -
    have "user_path L (ixs a)"
      using that ixs_bound by (simp add: user_path_def) (simp add: ixs_def foreign_def)
    then have "walks j vm' (ixs a) = walks j vm (ixs a)"
      using lwalk_cong [OF spaceD(2) [OF assms(2)] same root, where es = "ixs a"] by (simp add: user_path_def pts)
    then show ?thesis by (simp add: translate_def walk_def)
  qed
  ultimately show ?thesis using fs by blast
qed

theorem page_alloc_isolates_witness:
  "\<exists>db vm'. page_alloc 1 0x400000010000 1 (demo db) = Some (0x400000010000, vm') \<and>
     (\<forall>a. translate (vmem vm') (proot (pts vm' 2)) a = translate (\<lambda>_. 0) 0x101000 a)"
proof -
  obtain db where db: "pfdb_inv db [1, 2, 3, 4, 5, 6, 7]" "avail db = 7" by (rule demo_db)
  then obtain vm' where v: "page_alloc 1 0x400000010000 1 (demo db) = Some (0x400000010000, vm')"
    by (rule demo_alloc) (rule that)
  then show ?thesis
    using page_alloc_isolates [OF demo_space [OF db(1)] _ _ v] by (auto simp: demo_def demo_pt_def)
qed

end
