(* ===== verification/Heap.thy ===== *)
theory Heap
  imports Vspace
begin

text \<open>
  \<^verbatim>\<open>kernel/mem/heap.c\<close>: the first-fit heap.  Its structures lie in the virtual memory of an
  address space: \<open>hm\<close> is the content of that memory, by the address of an 8-byte word, and
  \<open>hvm\<close> the paging state that \<open>page_alloc\<close> and \<open>page_free\<close> change; pages are mapped zeroed.
  A pointer is its address and the null pointer is 0.  A loop that never ends is \<open>None\<close>, as is
  \<open>fatal\<close>.
\<close>

section \<open>The code\<close>

record hstate =
  hm :: "u64 \<Rightarrow> u64"
  hvm :: vm

definition ALLOC_PAGES :: u64 where "ALLOC_PAGES = 16"
definition FLAG_ALLOCATED :: u64 where "FLAG_ALLOCATED = 1"

definition round16 :: "u64 \<Rightarrow> u64 \<Rightarrow> u64" where
  "round16 n r = push_bit 4 (drop_bit 4 (n - r + 31)) + r - 16"

text \<open>The fields of \<open>struct heap\<close>, \<open>block_header\<close>, \<open>block_footer\<close> and \<open>fblock_header\<close>: the
  addresses of the fields of the structure at an address.\<close>

definition heap_pt :: "u64 \<Rightarrow> u64" where "heap_pt h = h"
definition heap_vaddr :: "u64 \<Rightarrow> u64" where "heap_vaddr h = h + 8"
definition heap_pages :: "u64 \<Rightarrow> u64" where "heap_pages h = h + 16"
definition heap_maxpages :: "u64 \<Rightarrow> u64" where "heap_maxpages h = h + 24"
definition heap_first :: "u64 \<Rightarrow> u64" where "heap_first h = h + 32"
definition heap_reserved :: "u64 \<Rightarrow> u64" where "heap_reserved h = h + 40"

definition b_size :: "u64 \<Rightarrow> u64" where "b_size b = b"
definition b_flags :: "u64 \<Rightarrow> u64" where "b_flags b = b + 8"
definition f_next :: "u64 \<Rightarrow> u64" where "f_next b = b + 16"
definition f_prev :: "u64 \<Rightarrow> u64" where "f_prev b = b + 24"

definition sizeof_heap :: u64 where "sizeof_heap = 48"
definition sizeof_header :: u64 where "sizeof_header = 16"
definition sizeof_footer :: u64 where "sizeof_footer = 8"

definition total_bytes :: "(u64 \<Rightarrow> u64) \<Rightarrow> u64 \<Rightarrow> u64" where
  "total_bytes m b = m (b_size b) + sizeof_header + sizeof_footer"

definition heap_term :: "(u64 \<Rightarrow> u64) \<Rightarrow> u64 \<Rightarrow> u64" where
  "heap_term m heap = m (heap_vaddr heap) + m (heap_pages heap) * PAGE_SIZE"

definition heap_create :: "nat \<Rightarrow> u64 \<Rightarrow> u64 \<Rightarrow> hstate \<Rightarrow> (u64 \<times> hstate) option" where
  "heap_create pt vaddr maxpages s = do {
     (heap, v) \<leftarrow> page_alloc pt vaddr (uint ALLOC_PAGES) (hvm s);
     let m = zero_mem vaddr (ALLOC_PAGES * PAGE_SIZE) (hm s);
     let m = m(heap_pt heap := of_nat pt);
     let m = m(heap_vaddr heap := vaddr);
     let m = m(heap_pages heap := ALLOC_PAGES);
     let m = m(heap_maxpages heap := max ALLOC_PAGES maxpages);
     let m = m(heap_first heap := heap + sizeof_heap);
     let m = m(heap_reserved heap := 0);
     let block_size = m (heap_pages heap) * PAGE_SIZE - sizeof_heap - sizeof_header - sizeof_footer;
     let fh = m (heap_first heap);
     let m = m(b_size fh := block_size);
     let m = m(b_flags fh := 0);
     let m = m(f_next fh := 0);
     let m = m(f_prev fh := 0);
     let footer = fh + (block_size + sizeof_header);
     let m = m(b_size footer := block_size);
     Some (heap, \<lparr>hm = m, hvm = v\<rparr>)
   }"

definition heap_destroy :: "u64 \<Rightarrow> hstate \<Rightarrow> hstate option" where
  "heap_destroy heap s = do {
     let m = hm s;
     v \<leftarrow> page_free (unat (m (heap_pt heap))) (m (heap_vaddr heap)) (sint (ucast (m (heap_pages heap)) :: u32)) (hvm s);
     Some (s\<lparr>hvm := v\<rparr>)
   }"

definition next_fblock_adj :: "(u64 \<Rightarrow> u64) \<Rightarrow> u64 \<Rightarrow> u64 \<Rightarrow> u64" where
  "next_fblock_adj m heap bh =
     (let nxt = bh + total_bytes m bh in
      if nxt \<ge> heap_term m heap then 0
      else if m (b_flags nxt) AND FLAG_ALLOCATED = 0 then nxt
      else 0)"

definition prev_fblock_adj :: "(u64 \<Rightarrow> u64) \<Rightarrow> u64 \<Rightarrow> u64 \<Rightarrow> u64" where
  "prev_fblock_adj m heap bh =
     (if bh = m (heap_vaddr heap) + sizeof_heap then 0
      else
        let bf = bh - sizeof_footer; prev = bf - total_bytes m bf in
        if m (b_flags prev) AND FLAG_ALLOCATED = 0 then prev else 0)"

partial_function (option) next_fblock :: "(u64 \<Rightarrow> u64) \<Rightarrow> u64 \<Rightarrow> u64 \<Rightarrow> u64 option" where
  "next_fblock m heap bh =
     (let bh = bh + total_bytes m bh in
      if bh \<ge> heap_term m heap then Some 0
      else if m (b_flags bh) AND FLAG_ALLOCATED = 0 then Some bh
      else next_fblock m heap bh)"

partial_function (option) prev_fblock :: "(u64 \<Rightarrow> u64) \<Rightarrow> u64 \<Rightarrow> u64 \<Rightarrow> u64 option" where
  "prev_fblock m heap bh =
     (if bh = m (heap_vaddr heap) + sizeof_heap then Some 0
      else
        let bf = bh - sizeof_footer; bh = bh - total_bytes m bf in
        if m (b_flags bh) AND FLAG_ALLOCATED = 0 then Some bh
        else prev_fblock m heap bh)"

declare next_fblock.simps [code] prev_fblock.simps [code]

definition grow_heap :: "u64 \<Rightarrow> u64 \<Rightarrow> hstate \<Rightarrow> (u64 \<times> hstate) option" where
  "grow_heap heap minsize s =
     (let m = hm s;
          minsize = minsize + (sizeof_header + sizeof_footer);
          pages = max ALLOC_PAGES ((minsize + PAGE_SIZE - 1) div PAGE_SIZE);
          over = m (heap_pages heap) + pages > m (heap_maxpages heap);
          pages = (if over then m (heap_maxpages heap) - m (heap_pages heap) else pages)
      in if over \<and> pages * PAGE_SIZE < minsize then Some (0, s)
      else do {
        let vnxt = m (heap_vaddr heap) + m (heap_pages heap) * PAGE_SIZE;
        (p, v) \<leftarrow> page_alloc (unat (m (heap_pt heap))) vnxt (sint (ucast pages :: u32)) (hvm s);
        let m = zero_mem vnxt (pages * PAGE_SIZE) m;
        let m = m(heap_pages heap := m (heap_pages heap) + pages);
        let lf = vnxt - sizeof_footer;
        let lh = lf - (m (b_size lf) + sizeof_header);
        (fh, m) \<leftarrow>
          (if m (b_flags lh) AND FLAG_ALLOCATED \<noteq> 0
           then do {
             let fh = vnxt;
             let m = m(b_size fh := pages * PAGE_SIZE - sizeof_header - sizeof_footer);
             let m = m(b_flags fh := 0);
             let m = m(f_next fh := 0);
             prev \<leftarrow> prev_fblock m heap vnxt;
             let m = m(f_prev fh := prev);
             let m = (if m (f_prev fh) = 0 then m(heap_first heap := fh) else m);
             Some (fh, m)
           }
           else Some (lh, m(b_size lh := m (b_size lh) + pages * PAGE_SIZE)));
        let ff = fh + (m (b_size fh) + sizeof_header);
        let m = m(b_size ff := m (b_size fh));
        Some (fh, \<lparr>hm = m, hvm = v\<rparr>)
      })"

text \<open>The loop of \<open>find_fblock\<close>.\<close>

partial_function (option) scan_free :: "(u64 \<Rightarrow> u64) \<Rightarrow> u64 \<Rightarrow> u64 \<Rightarrow> u64 option" where
  "scan_free m sz fh =
     (if fh \<noteq> 0 then
        if m (b_size fh) \<ge> sz then Some fh else scan_free m sz (m (f_next fh))
      else Some 0)"

declare scan_free.simps [code]

definition find_fblock :: "u64 \<Rightarrow> u64 \<Rightarrow> hstate \<Rightarrow> (u64 \<times> hstate) option" where
  "find_fblock heap sz s = do {
     fh \<leftarrow> scan_free (hm s) sz (hm s (heap_first heap));
     if fh \<noteq> 0 then Some (fh, s) else grow_heap heap sz s
   }"

text \<open>The replacement of \<open>prev\<close>'s and \<open>next\<close>'s links.\<close>

definition relink :: "u64 \<Rightarrow> u64 \<Rightarrow> u64 \<Rightarrow> u64 \<Rightarrow> u64 \<Rightarrow> (u64 \<Rightarrow> u64) \<Rightarrow> u64 \<Rightarrow> u64" where
  "relink heap prev nxt new_next new_prev m =
     (let m = (if prev \<noteq> 0 then m(f_next prev := new_next) else m(heap_first heap := new_next))
      in if nxt \<noteq> 0 then m(f_prev nxt := new_prev) else m)"

definition use_block :: "u64 \<Rightarrow> u64 \<Rightarrow> u64 \<Rightarrow> (u64 \<Rightarrow> u64) \<Rightarrow> u64 \<Rightarrow> u64" where
  "use_block heap fh sz m =
     (let fsize = m (b_size fh); nxt = m (f_next fh); prev = m (f_prev fh) in
      if fsize - sz < 8 + sizeof_header + sizeof_footer
      then relink heap prev nxt nxt prev (m(b_flags fh := FLAG_ALLOCATED))
      else
        let m = m(b_size fh := sz);
            m = m(b_flags fh := FLAG_ALLOCATED);
            af = fh + (sz + sizeof_header);
            m = m(b_size af := sz);
            nf = af + sizeof_footer;
            m = m(b_size nf := fsize - sz - sizeof_header - sizeof_footer);
            m = m(b_flags nf := 0);
            ff = nf + (m (b_size nf) + sizeof_header);
            m = m(b_size ff := m (b_size nf));
            m = m(f_prev nf := prev);
            m = m(f_next nf := nxt)
        in relink heap prev nxt nf nf m)"

definition heap_alloc :: "u64 \<Rightarrow> u64 \<Rightarrow> hstate \<Rightarrow> (u64 \<times> hstate) option" where
  "heap_alloc heap sz s = do {
     let sz = round16 sz (16 - sizeof_footer);
     (fh, s) \<leftarrow> find_fblock heap sz s;
     if fh = 0 then Some (0, s)
     else Some (fh + sizeof_header, s\<lparr>hm := use_block heap fh sz (hm s)\<rparr>)
   }"

definition heap_free :: "u64 \<Rightarrow> u64 \<Rightarrow> (u64 \<Rightarrow> u64) \<Rightarrow> (u64 \<Rightarrow> u64) option" where
  "heap_free heap ptr m =
     (let h = ptr - sizeof_header;
          fhp = prev_fblock_adj m heap h;
          fhn = next_fblock_adj m heap h
      in
      if fhp \<noteq> 0 \<and> fhn \<noteq> 0 then
        let m = m(b_size fhp := m (b_size fhp) + (m (b_size h) + 2 * sizeof_header + 2 * sizeof_footer + m (b_size fhn)));
            m = m(f_next fhp := m (f_next fhn));
            m = (if m (f_next fhn) \<noteq> 0 then m(f_prev (m (f_next fhn)) := fhp) else m);
            ffp = fhp + (m (b_size fhp) + sizeof_header)
        in Some (m(b_size ffp := m (b_size fhp)))
      else if fhp \<noteq> 0 then
        let m = m(b_size fhp := m (b_size fhp) + total_bytes m h);
            ffp = fhp + (m (b_size fhp) + sizeof_header)
        in Some (m(b_size ffp := m (b_size fhp)))
      else if fhn \<noteq> 0 then
        let m = m(b_size h := m (b_size h) + total_bytes m fhn);
            m = m(b_flags h := 0);
            m = m(f_prev h := m (f_prev fhn));
            m = (if m (f_prev h) = 0 then m(heap_first heap := h) else m(f_next (m (f_prev h)) := h));
            m = m(f_next h := m (f_next fhn));
            m = (if m (f_next h) \<noteq> 0 then m(f_prev (m (f_next h)) := h) else m);
            ff = h + (m (b_size h) + sizeof_header)
        in Some (m(b_size ff := m (b_size h)))
      else do {
        let m = m(b_flags h := 0);
        nxt \<leftarrow> next_fblock m heap h;
        let m = m(f_next h := nxt);
        m \<leftarrow> (if m (f_next h) = 0
              then do { prev \<leftarrow> prev_fblock m heap h; Some (m(f_prev h := prev)) }
              else
                let m = m(f_prev h := m (f_prev (m (f_next h))))
                in Some (m(f_prev (m (f_next h)) := h)));
        Some (if m (f_prev h) = 0 then m(heap_first heap := h) else m(f_next (m (f_prev h)) := h))
      })"

end
