(* ===== verification/First_Fit.thy ===== *)
theory First_Fit
  imports Heap
begin

text \<open>
  The heap of \<^verbatim>\<open>kernel/mem/heap.c\<close> as a list of blocks.  \<open>heap_ok\<close> says that the words in
  memory are such a list: headers and footers tile the heap, and the free blocks are doubly
  linked in address order.  \<open>heap_alloc\<close> is first fit on the list.  \<open>heap_free\<close> keeps the
  invariant for the first block only: \<open>prev_fblock_adj\<close> looks 8 bytes too low.
\<close>

section \<open>Addresses\<close>

text \<open>Addresses and sizes as natural numbers; \<open>W\<close> keeps the simplifier from taking them apart.\<close>

definition W :: "nat \<Rightarrow> u64" where "W k = of_nat k"

lemma W_0: "W 0 = 0"
  by (simp add: W_def)

lemma W_add [simp]: "W a + W b = W (a + b)"
  by (simp add: W_def)

lemma W_add_numeral [simp]: "W a + numeral n = W (a + numeral n)"
  by (simp add: W_def)

lemma W_mult [simp]: "W a * W b = W (a * b)"
  by (simp add: W_def)

lemma W_sub: "b \<le> a \<Longrightarrow> W a - W b = W (a - b)"
  by (simp add: W_def of_nat_diff)

lemma W_sub_numeral: "numeral n \<le> a \<Longrightarrow> W a - numeral n = W (a - numeral n)"
  by (simp add: W_def of_nat_diff)

lemma W_eq: "a < 2 ^ 64 \<Longrightarrow> b < 2 ^ 64 \<Longrightarrow> W a = W b \<longleftrightarrow> a = b"
  unfolding W_def by (rule of_nat_inj64)

lemma unat_W: "a < 2 ^ 64 \<Longrightarrow> unat (W a) = a"
  unfolding W_def by (rule unat_of_nat64)

lemma W_less: "a < 2 ^ 64 \<Longrightarrow> b < 2 ^ 64 \<Longrightarrow> W a < W b \<longleftrightarrow> a < b"
  unfolding W_def by (rule of_nat_less64)

lemma W_le: "a < 2 ^ 64 \<Longrightarrow> b < 2 ^ 64 \<Longrightarrow> W a \<le> W b \<longleftrightarrow> a \<le> b"
  using W_less [of b a] by (auto simp: not_less [symmetric])

lemma W_zero: "a < 2 ^ 64 \<Longrightarrow> W a = 0 \<longleftrightarrow> a = 0"
  using W_eq [of a 0] by (simp add: W_0)

lemma W_upd: "a < 2 ^ 64 \<Longrightarrow> b < 2 ^ 64 \<Longrightarrow> (m(W a := v)) (W b) = (if a = b then v else m (W b))"
  by (auto simp: W_eq)

lemma W_fields [simp]:
  "heap_pt (W h) = W h" "heap_vaddr (W h) = W (h + 8)" "heap_pages (W h) = W (h + 16)"
  "heap_maxpages (W h) = W (h + 24)" "heap_first (W h) = W (h + 32)" "heap_reserved (W h) = W (h + 40)"
  "b_size (W h) = W h" "b_flags (W h) = W (h + 8)" "f_next (W h) = W (h + 16)" "f_prev (W h) = W (h + 24)"
  "W h + sizeof_heap = W (h + 48)" "W h + sizeof_header = W (h + 16)" "W h + sizeof_footer = W (h + 8)"
  by (simp_all add: W_def heap_pt_def heap_vaddr_def heap_pages_def heap_maxpages_def heap_first_def
    heap_reserved_def b_size_def b_flags_def f_next_def f_prev_def sizeof_heap_def sizeof_header_def sizeof_footer_def)

section \<open>Blocks\<close>

type_synonym blocks = "(nat \<times> bool) list"

text \<open>A block of payload size \<open>s\<close> takes \<open>s + 24\<close> bytes.  The footer of a block with a payload
  of 8 bytes shares its word with the \<open>prev_fblock\<close> field and is not relied on.\<close>

fun extent :: "blocks \<Rightarrow> nat" where
  "extent [] = 0"
| "extent ((s, u) # bs) = s + 24 + extent bs"

fun tiles :: "(u64 \<Rightarrow> u64) \<Rightarrow> nat \<Rightarrow> blocks \<Rightarrow> bool" where
  "tiles m a [] \<longleftrightarrow> True"
| "tiles m a ((s, u) # bs) \<longleftrightarrow> s mod 16 = 8 \<and> m (W a) = W s \<and> m (W (a + 8)) = (if u then 1 else 0) \<and>
     (24 \<le> s \<longrightarrow> m (W (a + 16 + s)) = W s) \<and> tiles m (a + (s + 24)) bs"

fun frees :: "nat \<Rightarrow> blocks \<Rightarrow> nat list" where
  "frees a [] = []"
| "frees a ((s, u) # bs) = (if u then frees (a + (s + 24)) bs else a # frees (a + (s + 24)) bs)"

lemma extent_append [simp]: "extent (xs @ ys) = extent xs + extent ys"
  by (induction xs rule: extent.induct) simp_all

lemma tiles_append [simp]: "tiles m a (xs @ ys) \<longleftrightarrow> tiles m a xs \<and> tiles m (a + extent xs) ys"
  by (induction m a xs rule: tiles.induct) (simp_all add: add.assoc)

lemma frees_append [simp]: "frees a (xs @ ys) = frees a xs @ frees (a + extent xs) ys"
  by (induction a xs rule: frees.induct) (simp_all add: add.assoc)

lemma block_size:
  assumes "s mod 16 = (8::nat)"
  obtains k where "s = 16 * k + 8" "8 \<le> s" "(a + (s + 24)) mod 16 = a mod 16"
proof -
  have k: "s = 16 * (s div 16) + 8" using assms mult_div_mod_eq [of 16 s] by simp
  then have "a + (s + 24) = a + 16 * (s div 16 + 2)" by simp
  then have "(a + (s + 24)) mod 16 = a mod 16" by (simp only: mod_mult_self2)
  then show thesis using that [OF k] k by linarith
qed

lemma split_size:
  assumes "s = r + 24 + t" and "s mod 16 = (8 :: nat)" and "r mod 16 = 8"
  shows "t mod 16 = 8"
proof -
  obtain k where "s = 16 * k + 8" using assms(2) by (rule block_size)
  moreover obtain j where "r = 16 * j + 8" using assms(3) by (rule block_size)
  ultimately have "t = 16 * (k - j - 2) + 8" using assms(1) by simp
  then show ?thesis by simp
qed

lemma tiles_extent: "tiles m a bs \<Longrightarrow> extent bs mod 16 = 0"
proof (induction m a bs rule: tiles.induct)
  case (2 m a s u bs)
  then obtain "(extent bs + (s + 24)) mod 16 = extent bs mod 16" by (auto elim: block_size)
  then show ?case using 2 by (simp add: add.commute)
qed simp

lemma frees_range:
  "f \<in> set (frees a bs) \<Longrightarrow> tiles m a bs \<Longrightarrow> a \<le> f \<and> f + 32 \<le> a + extent bs \<and> f mod 16 = a mod 16"
proof (induction a bs rule: frees.induct)
  case (2 a s u bs)
  obtain k where s: "8 \<le> s" "(a + (s + 24)) mod 16 = a mod 16"
    using "2.prems"(2) by (auto elim: block_size)
  then show ?case using 2 by (auto split: if_splits)
qed simp

text \<open>The words of the links of the free blocks.\<close>

definition link_words :: "nat list \<Rightarrow> nat set" where
  "link_words fs = (\<Union>f \<in> set fs. {f + 16, f + 24})"

lemma tiles_cong:
  assumes "\<And>x. a \<le> x \<Longrightarrow> x < a + extent bs \<Longrightarrow> x \<notin> link_words (frees a bs) \<Longrightarrow> m' (W x) = m (W x)"
    and "tiles m a bs"
  shows "tiles m' a bs"
  using assms
proof (induction m a bs rule: tiles.induct)
  case (2 m a s u bs)
  let ?fs = "frees (a + (s + 24)) bs"
  have up: "a + (s + 24) + 16 \<le> x" if "x \<in> link_words ?fs" for x
    using that frees_range [of _ "a + (s + 24)" bs m] "2.prems"(2) by (fastforce simp: link_words_def)
  have own: "x \<in> link_words (frees a ((s, u) # bs)) \<Longrightarrow> x = a + 16 \<or> x = a + 24 \<or> x \<in> link_words ?fs" for x
    by (auto simp: link_words_def split: if_splits)
  have s: "8 \<le> s" using "2.prems"(2) by (auto elim: block_size)
  have "m' (W a) = m (W a)" "m' (W (a + 8)) = m (W (a + 8))"
    by (rule "2.prems"(1); use s own up in \<open>fastforce\<close>)+
  moreover have "m' (W (a + 16 + s)) = m (W (a + 16 + s))" if "24 \<le> s"
    by (rule "2.prems"(1)) (use that own [of "a + 16 + s"] up [of "a + 16 + s"] in auto)
  moreover have "tiles m' (a + (s + 24)) bs"
  proof (rule "2.IH")
    fix x assume x: "a + (s + 24) \<le> x" "x < a + (s + 24) + extent bs" "x \<notin> link_words ?fs"
    then show "m' (W x) = m (W x)"
      using own [of x] s by (intro "2.prems"(1)) auto
  qed (use "2.prems"(2) in simp)
  ultimately show ?case using "2.prems"(2) by simp
qed simp

section \<open>The list of free blocks\<close>

definition hd0 :: "nat list \<Rightarrow> nat \<Rightarrow> nat" where "hd0 fs n = (case fs of [] \<Rightarrow> n | g # _ \<Rightarrow> g)"
definition last0 :: "nat \<Rightarrow> nat list \<Rightarrow> nat" where "last0 p fs = (if fs = [] then p else last fs)"

lemma hd0_simps [simp]: "hd0 [] n = n" "hd0 (g # gs) n = g" "hd0 (xs @ ys) n = hd0 xs (hd0 ys n)"
  by (simp_all add: hd0_def split: list.split)

lemma last0_simps [simp]: "last0 p [] = p" "last0 p (g # gs) = last0 g gs"
  by (simp_all add: last0_def)

lemma last0_append [simp]: "last0 p (xs @ ys) = last0 (last0 p xs) ys"
  by (simp add: last0_def)

text \<open>The blocks \<open>fs\<close> linked from the block \<open>p\<close> before them to the block \<open>n\<close> behind them.\<close>

fun dll :: "(u64 \<Rightarrow> u64) \<Rightarrow> nat \<Rightarrow> nat list \<Rightarrow> nat \<Rightarrow> bool" where
  "dll m p [] n \<longleftrightarrow> True"
| "dll m p (f # fs) n \<longleftrightarrow> m (W (f + 24)) = W p \<and> m (W (f + 16)) = W (hd0 fs n) \<and> dll m f fs n"

lemma dll_append [simp]: "dll m p (xs @ ys) n \<longleftrightarrow> dll m p xs (hd0 ys n) \<and> dll m (last0 p xs) ys n"
  by (induction xs arbitrary: p) auto

lemma dll_cong:
  assumes "\<And>x. x \<in> link_words fs \<Longrightarrow> m' (W x) = m (W x)" and "dll m p fs n"
  shows "dll m' p fs n"
  using assms by (induction fs arbitrary: p) (auto simp: link_words_def)

lemma link_parity:
  assumes "f mod 16 = 0" and "g mod 16 = (0::nat)"
  shows "f + 16 \<noteq> g + 24"
proof
  assume eq: "f + 16 = g + 24"
  have "16 dvd f" "16 dvd g" using assms by auto
  then obtain i j where "f = 16 * i" "g = 16 * j" by (auto elim!: dvdE)
  then show False using eq by presburger
qed

lemma dll_next:
  assumes "dll m p fs n" and "fs \<noteq> []" and "m' (W (last fs + 16)) = W n'"
    and "\<And>x. x \<in> link_words fs \<Longrightarrow> x \<noteq> last fs + 16 \<Longrightarrow> m' (W x) = m (W x)"
    and "distinct fs" and "\<forall>f \<in> set fs. f mod 16 = 0"
  shows "dll m' p fs n'"
  using assms
proof (induction fs arbitrary: p)
  case (Cons f fs)
  have odd: "f + 24 \<noteq> g + 16" if "g mod 16 = 0" for g
    using link_parity [of g f] that Cons.prems(6) by auto
  show ?case
  proof (cases "fs = []")
    case True
    then show ?thesis using Cons.prems odd [of f] by (simp add: link_words_def)
  next
    case False
    have l: "last fs \<in> set fs" "last fs \<noteq> f" using False Cons.prems(5) by auto
    have "dll m' f fs n'"
      by (rule Cons.IH) (use Cons.prems False in \<open>auto simp: link_words_def\<close>)
    then show ?thesis
      using Cons.prems l False odd [of "last fs"] by (cases fs) (auto simp: link_words_def)
  qed
qed simp

lemma dll_prev:
  assumes "dll m p fs n" and "fs \<noteq> []" and "m' (W (hd fs + 24)) = W p'"
    and "\<And>x. x \<in> link_words fs \<Longrightarrow> x \<noteq> hd fs + 24 \<Longrightarrow> m' (W x) = m (W x)"
    and "distinct fs" and "\<forall>f \<in> set fs. f mod 16 = 0"
  shows "dll m' p' fs n"
proof (cases fs)
  case (Cons f gs)
  have ne: "x \<noteq> f + 24" if x: "x \<in> link_words gs" for x
  proof -
    obtain g where g: "g \<in> set gs" "x = g + 16 \<or> x = g + 24" using x by (auto simp: link_words_def)
    then have gf: "g \<noteq> f" "g mod 16 = 0" "f mod 16 = 0" using assms(5,6) Cons by auto
    then show ?thesis using g(2) link_parity [OF gf(2,3)] by auto
  qed
  have "dll m' f gs n"
    by (rule dll_cong [of gs m' m]) (use assms(1,4) ne Cons in \<open>auto simp: link_words_def\<close>)
  then show ?thesis using assms(1,3,4) Cons by (simp add: link_words_def)
qed (use assms(2) in simp)

section \<open>The invariant\<close>

definition heap_ok :: "nat \<Rightarrow> nat \<Rightarrow> nat \<Rightarrow> nat \<Rightarrow> blocks \<Rightarrow> (u64 \<Rightarrow> u64) \<Rightarrow> bool" where
  "heap_ok h pt pgs mx bs m \<longleftrightarrow>
     0 < h \<and> h mod 16 = 0 \<and> h + mx * 4096 < 2 ^ 64 \<and> pgs \<le> mx \<and> 48 + extent bs = pgs * 4096 \<and>
     m (W h) = W pt \<and> m (W (h + 8)) = W h \<and> m (W (h + 16)) = W pgs \<and> m (W (h + 24)) = W mx \<and>
     m (W (h + 32)) = W (hd0 (frees (h + 48) bs) 0) \<and> m (W (h + 40)) = 0 \<and>
     tiles m (h + 48) bs \<and> dll m 0 (frees (h + 48) bs) 0"

lemma heap_okD:
  assumes "heap_ok h pt pgs mx bs m"
  shows "0 < h" "h mod 16 = 0" "h + mx * 4096 < 2 ^ 64" "pgs \<le> mx" "48 + extent bs = pgs * 4096"
    "m (W h) = W pt" "m (W (h + 8)) = W h" "m (W (h + 16)) = W pgs" "m (W (h + 24)) = W mx"
    "m (W (h + 32)) = W (hd0 (frees (h + 48) bs) 0)" "tiles m (h + 48) bs" "dll m 0 (frees (h + 48) bs) 0"
    "h + 48 + extent bs < 2 ^ 64" "m (W (h + 40)) = 0"
proof -
  have "pgs * 4096 \<le> mx * 4096" using assms by (simp add: heap_ok_def)
  then show "h + 48 + extent bs < 2 ^ 64" using assms unfolding heap_ok_def by linarith
qed (use assms in \<open>simp_all add: heap_ok_def\<close>)

lemma free_size:
  "tiles m a bs \<Longrightarrow> f \<in> set (frees a bs) \<Longrightarrow> \<exists>s. (s, False) \<in> set bs \<and> m (W f) = W s \<and> s \<le> extent bs"
proof (induction m a bs rule: tiles.induct)
  case (2 m a s u bs)
  show ?case
  proof (cases "f \<in> set (frees (a + (s + 24)) bs)")
    case True
    then obtain s' where "(s', False) \<in> set bs" "m (W f) = W s'" "s' \<le> extent bs" using 2 by auto
    then show ?thesis by (intro exI [of _ s']) simp
  qed (use 2 in \<open>auto split: if_splits\<close>)
qed simp

lemma frees_distinct: "tiles m a bs \<Longrightarrow> distinct (frees a bs)"
proof (induction m a bs rule: tiles.induct)
  case (2 m a s u bs)
  then show ?case using frees_range [of a "a + (s + 24)" bs m] by auto
qed simp

text \<open>The search of \<open>find_fblock\<close>.\<close>

lemma scan_fits:
  "dll m p (ps @ a # qs) 0 \<Longrightarrow> \<forall>f \<in> set (ps @ [a]). 0 < f \<and> f < 2 ^ 64 \<Longrightarrow>
   \<forall>f \<in> set ps. m (W f) < sz \<Longrightarrow> sz \<le> m (W a) \<Longrightarrow>
   scan_free m sz (W (hd0 (ps @ a # qs) 0)) = Some (W a)"
proof (induction ps arbitrary: p)
  case Nil
  then show ?case by (simp add: scan_free.simps [of m sz "W a"] W_zero)
next
  case (Cons f ps)
  have "\<not> sz \<le> m (W f)" "W f \<noteq> 0" using Cons.prems(2,3) by (auto simp: W_zero not_le)
  then have "scan_free m sz (W f) = scan_free m sz (m (W (f + 16)))"
    by (simp add: scan_free.simps [of m sz "W f"])
  also have "\<dots> = Some (W a)" using Cons.IH [of f] Cons.prems by simp
  finally show ?case by simp
qed

lemma scan_none:
  "dll m p fs 0 \<Longrightarrow> \<forall>f \<in> set fs. 0 < f \<and> f < 2 ^ 64 \<Longrightarrow> \<forall>f \<in> set fs. m (W f) < sz \<Longrightarrow>
   scan_free m sz (W (hd0 fs 0)) = Some 0"
proof (induction fs arbitrary: p)
  case Nil
  then show ?case by (simp add: scan_free.simps [of m sz 0] W_0)
next
  case (Cons f fs)
  have "\<not> sz \<le> m (W f)" "W f \<noteq> 0" using Cons.prems(2,3) by (auto simp: W_zero not_le)
  then have "scan_free m sz (W f) = scan_free m sz (m (W (f + 16)))"
    by (simp add: scan_free.simps [of m sz "W f"])
  also have "\<dots> = Some 0" using Cons.IH [of f] Cons.prems by simp
  finally show ?case by simp
qed

text \<open>What \<open>relink\<close> writes.\<close>

lemma relink_at:
  assumes "p + 16 < 2 ^ 64" and "n + 24 < 2 ^ 64" and "h + 32 < 2 ^ 64" and "x < 2 ^ 64"
    and "p + 16 \<noteq> n + 24" "n + 24 \<noteq> h + 32"
  shows "relink (W h) (W p) (W n) u v m (W x) =
    (if p \<noteq> 0 \<and> x = p + 16 then u else if p = 0 \<and> x = h + 32 then u
     else if n \<noteq> 0 \<and> x = n + 24 then v else m (W x))"
proof -
  have z: "W p = 0 \<longleftrightarrow> p = 0" "W n = 0 \<longleftrightarrow> n = 0" using assms by (simp_all add: W_zero)
  have u: "(m(W (p + 16) := u)) (W x) = (if p + 16 = x then u else m (W x))"
    "(m(W (h + 32) := u)) (W x) = (if h + 32 = x then u else m (W x))"
    "(g(W (n + 24) := v)) (W x) = (if n + 24 = x then v else g (W x))" for g
    using assms by (simp_all only: W_upd)
  show ?thesis using assms(5,6)
    by (cases "p = 0"; cases "n = 0") (auto simp: relink_def Let_def z u W_0 fun_upd_same simp del: fun_upd_apply)
qed

section \<open>Replacing a free block\<close>

lemma last0_mem: "last0 p fs = p \<and> fs = [] \<or> last0 p fs \<in> set fs"
  by (simp add: last0_def)

lemma hd0_mem: "hd0 fs n = n \<and> fs = [] \<or> hd0 fs n \<in> set fs"
  by (cases fs) simp_all

lemma replace_block:
  assumes ok: "heap_ok h pt pgs mx (pre @ old @ post) m"
    and a: "a = h + 48 + extent pre" and ps: "ps = frees (h + 48) pre" and qs: "qs = frees (a + extent old) post"
    and p: "p = last0 0 ps" and n: "n = hd0 qs 0"
    and new: "tiles m' a new" "extent new = extent old" "dll m' p (frees a new) n"
    and frame: "\<And>x. x < 2 ^ 64 \<Longrightarrow> x < a \<or> a + extent old \<le> x \<Longrightarrow> m' (W x) =
      (if p \<noteq> 0 \<and> x = p + 16 \<or> p = 0 \<and> x = h + 32 then W (hd0 (frees a new) n)
       else if n \<noteq> 0 \<and> x = n + 24 then W (last0 p (frees a new)) else m (W x))"
  shows "heap_ok h pt pgs mx (pre @ new @ post) m'"
proof -
  note D = heap_okD [OF ok]
  have tpre: "tiles m (h + 48) pre" and tpost: "tiles m (a + extent old) post" and told: "tiles m a old"
    using D(11) by (simp_all add: a)
  have top: "a + extent old + extent post < 2 ^ 64" using D(13) by (simp add: a)
  have fs: "dll m 0 ps (hd0 (frees a old) n)" "dll m (last0 p (frees a old)) qs 0"
    using D(12) by (simp_all add: a ps qs p n algebra_simps)
  have ha: "h + 48 \<le> a" by (simp add: a)
  have h16: "(h + 48) mod 16 = 0" using D(2) by presburger
  have rps: "h + 48 \<le> f \<and> f + 32 \<le> a \<and> f mod 16 = 0" if "f \<in> set ps" for f
    using frees_range [of f "h + 48" pre m] that tpre h16 by (simp add: ps a)
  have am: "(a + extent old) mod 16 = 0"
  proof -
    have "a mod 16 = 0" unfolding a using h16 tiles_extent [OF tpre] by (metis add.right_neutral mod_add_eq mod_0)
    then show ?thesis using tiles_extent [OF told] by presburger
  qed
  have rqs: "a + extent old \<le> f \<and> f + 32 \<le> a + extent old + extent post \<and> f mod 16 = 0" if "f \<in> set qs" for f
    using frees_range [of f "a + extent old" post m] that tpost am by (simp add: qs)
  have pp: "p = 0 \<and> ps = [] \<or> p \<in> set ps" unfolding p by (rule last0_mem)
  have nn: "n = 0 \<and> qs = [] \<or> n \<in> set qs" unfolding n by (rule hd0_mem)
  have same: "m' (W x) = m (W x)"
    if "x < 2 ^ 64" "x < a \<or> a + extent old \<le> x" "p \<noteq> 0 \<longrightarrow> x \<noteq> p + 16" "p = 0 \<longrightarrow> x \<noteq> h + 32" "n \<noteq> 0 \<longrightarrow> x \<noteq> n + 24" for x
    using frame [OF that(1,2)] that(3-5) by auto
  have p0: "p = 0 \<or> h + 48 \<le> p \<and> p + 32 \<le> a" using pp rps by auto
  have n0: "n = 0 \<or> a + extent old \<le> n \<and> n + 32 \<le> a + extent old + extent post" using nn rqs by auto
  have tp: "tiles m' (h + 48) pre"
  proof (rule tiles_cong [OF _ tpre])
    fix x assume x: "h + 48 \<le> x" "x < h + 48 + extent pre" "x \<notin> link_words (frees (h + 48) pre)"
    have "p \<noteq> 0 \<longrightarrow> x \<noteq> p + 16" using x(3) pp by (auto simp: link_words_def ps)
    then show "m' (W x) = m (W x)" using x top n0 by (intro same) (auto simp: a)
  qed
  have tq: "tiles m' (a + extent old) post"
  proof (rule tiles_cong [OF _ tpost])
    fix x assume x: "a + extent old \<le> x" "x < a + extent old + extent post" "x \<notin> link_words (frees (a + extent old) post)"
    have "n \<noteq> 0 \<longrightarrow> x \<noteq> n + 24" using x(3) nn by (auto simp: link_words_def qs)
    then show "m' (W x) = m (W x)" using x top p0 by (intro same) (auto simp: a)
  qed
  have dist: "distinct ps" "distinct qs" using frees_distinct tpre tpost by (simp_all add: ps qs)
  have dp: "dll m' 0 ps (hd0 (frees a new) n)"
  proof (cases "ps = []")
    case False
    then have l: "p \<in> set ps" "last ps = p" using pp by (auto simp: p last0_def)
    then have pz: "p \<noteq> 0" using rps [of p] by simp
    show ?thesis
    proof (rule dll_next [OF fs(1) False _ _ dist(1)])
      show "m' (W (last ps + 16)) = W (hd0 (frees a new) n)"
        using frame [of "p + 16"] l pz p0 top by simp
      fix x assume x: "x \<in> link_words ps" "x \<noteq> last ps + 16"
      then have "h + 48 < x \<and> x < a" using rps by (fastforce simp: link_words_def)
      then show "m' (W x) = m (W x)" using x l pz top n0 ha by (intro same) auto
    qed (use rps in blast)
  qed simp
  have dq: "dll m' (last0 p (frees a new)) qs 0"
  proof (cases "qs = []")
    case False
    then have l: "n \<in> set qs" "hd qs = n" using nn by (auto simp: n hd0_def split: list.splits)
    then have nz: "n \<noteq> 0" using rqs [of n] ha by simp
    show ?thesis
    proof (rule dll_prev [OF fs(2) False _ _ dist(2)])
      show "m' (W (hd qs + 24)) = W (last0 p (frees a new))"
        using frame [of "n + 24"] l nz n0 p0 top ha by auto
      fix x assume x: "x \<in> link_words qs" "x \<noteq> hd qs + 24"
      then have "a + extent old < x \<and> x < a + extent old + extent post" using rqs by (fastforce simp: link_words_def)
      then show "m' (W x) = m (W x)" using x l nz top p0 ha by (intro same) auto
    qed (use rqs in blast)
  qed simp
  have hdr: "m' (W (h + k)) = m (W (h + k))" if "k < 32 \<or> k = 40" for k
    using that top p0 n0 by (intro same) (auto simp: a)
  have first: "m' (W (h + 32)) = W (hd0 ps (hd0 (frees a new) n))"
  proof (cases "ps = []")
    case True
    then show ?thesis using frame [of "h + 32"] top pp by (auto simp: a p)
  next
    case False
    then have "h + 48 \<le> p" using pp rps [of p] by auto
    then have "m' (W (h + 32)) = m (W (h + 32))"
      using top n0 ha by (intro same) auto
    also have "\<dots> = W (hd0 ps (hd0 (frees a new) n))"
      using D(10) False by (cases ps) (simp_all add: ps)
    finally show ?thesis .
  qed
  show ?thesis
    unfolding heap_ok_def
    using D tp tq new dp dq first hdr [of 0] hdr [of 8] hdr [of 16] hdr [of 24] hdr [of 40]
    by (simp add: a ps qs p n)
qed

lemma replace_free:
  assumes "heap_ok h pt pgs mx (pre @ (s, False) # post) m"
    and "a = h + 48 + extent pre" "ps = frees (h + 48) pre" "qs = frees (a + (s + 24)) post" "p = last0 0 ps" "n = hd0 qs 0"
    and "tiles m' a new" "extent new = s + 24" "dll m' p (frees a new) n"
    and "\<And>x. x < 2 ^ 64 \<Longrightarrow> x < a \<or> a + (s + 24) \<le> x \<Longrightarrow> m' (W x) =
      (if p \<noteq> 0 \<and> x = p + 16 \<or> p = 0 \<and> x = h + 32 then W (hd0 (frees a new) n)
       else if n \<noteq> 0 \<and> x = n + 24 then W (last0 p (frees a new)) else m (W x))"
  shows "heap_ok h pt pgs mx (pre @ new @ post) m'"
  using replace_block [of h pt pgs mx pre "[(s, False)]" post m a ps qs p n m' new] assms by simp

lemma use_block_split:
  assumes "\<not> m (b_size fh) - sz < 8 + sizeof_header + sizeof_footer"
  shows "use_block heap fh sz m =
    (let t = m (b_size fh) - sz - sizeof_header - sizeof_footer;
         nf = fh + (sz + sizeof_header) + sizeof_footer
     in relink heap (m (f_prev fh)) (m (f_next fh)) nf nf
       (m(b_size fh := sz, b_flags fh := FLAG_ALLOCATED, b_size (fh + (sz + sizeof_header)) := sz, b_size nf := t,
          b_flags nf := 0, b_size (nf + (t + sizeof_header)) := t, f_prev nf := m (f_prev fh), f_next nf := m (f_next fh))))"
proof -
  have "b_size x \<noteq> b_flags x" for x by (simp add: b_flags_def b_size_def)
  then show ?thesis using assms by (simp add: use_block_def Let_def ac_simps)
qed

lemma use_block_ok:
  assumes ok: "heap_ok h pt pgs mx (pre @ (s, False) # post) m"
    and a: "a = h + 48 + extent pre" and r: "r \<le> s" "r mod 16 = 8"
  shows "heap_ok h pt pgs mx (pre @ (if s - r < 32 then [(s, True)] else [(r, True), (s - r - 24, False)]) @ post)
    (use_block (W h) (W a) (W r) m)"
    and "x < 2 ^ 64 \<Longrightarrow> x < a \<or> a + (s + 24) \<le> x \<Longrightarrow> x \<noteq> h + 32 \<Longrightarrow>
      x \<notin> link_words (frees (h + 48) (pre @ (s, False) # post)) \<Longrightarrow> use_block (W h) (W a) (W r) m (W x) = m (W x)"
proof -
  note D = heap_okD [OF ok]
  let ?m = "use_block (W h) (W a) (W r) m"
  define ps where "ps = frees (h + 48) pre"
  define qs where "qs = frees (a + (s + 24)) post"
  define p where "p = last0 0 ps"
  define n where "n = hd0 qs 0"
  have blk: "m (W a) = W s" "m (W (a + 8)) = 0" "24 \<le> s \<Longrightarrow> m (W (a + 16 + s)) = W s" "s mod 16 = 8"
    "m (W (a + 24)) = W p" "m (W (a + 16)) = W n" and tpre: "tiles m (h + 48) pre" and tpost: "tiles m (a + (s + 24)) post"
    using D(11,12) by (simp_all add: a ps_def qs_def p_def n_def)
  have top: "a + (s + 24) + extent post < 2 ^ 64" using D(13) by (simp add: a)
  have s8: "8 \<le> s" "8 \<le> r" using blk(4) r(2) by (auto elim: block_size)
  have p0: "p = 0 \<or> h + 48 \<le> p \<and> p + 32 \<le> a"
    using last0_mem [of 0 ps] frees_range [of p "h + 48" pre m] tpre by (auto simp: p_def ps_def a)
  have n0: "n = 0 \<or> a + (s + 24) \<le> n \<and> n + 32 \<le> a + (s + 24) + extent post"
    using hd0_mem [of qs 0] frees_range [of n "a + (s + 24)" post m] tpost by (auto simp: n_def qs_def)
  have ha: "h + 48 \<le> a" by (simp add: a)
  have rb: "p + 16 < 2 ^ 64" "n + 24 < 2 ^ 64" "h + 32 < 2 ^ 64" "p + 16 \<noteq> n + 24" "n + 24 \<noteq> h + 32"
    using p0 n0 ha top by auto
  note rl = relink_at [OF rb(1-3) _ rb(4,5)]
  have small: "W s - W r < 8 + sizeof_header + sizeof_footer \<longleftrightarrow> s - r < 32"
  proof -
    have "8 + sizeof_header + sizeof_footer = W 32" by (simp add: sizeof_header_def sizeof_footer_def W_def)
    then show ?thesis using r(1) top by (simp add: W_sub W_less)
  qed
  have links: "p \<noteq> 0 \<longrightarrow> y \<noteq> p + 16" "n \<noteq> 0 \<longrightarrow> y \<noteq> n + 24"
    if "y \<notin> link_words (frees (h + 48) (pre @ (s, False) # post))" for y
    using that last0_mem [of 0 ps] hd0_mem [of qs 0]
    by (auto simp: link_words_def p_def n_def ps_def qs_def a)
  have "heap_ok h pt pgs mx (pre @ (if s - r < 32 then [(s, True)] else [(r, True), (s - r - 24, False)]) @ post) ?m \<and>
      (\<forall>x. x < 2 ^ 64 \<longrightarrow> x < a \<or> a + (s + 24) \<le> x \<longrightarrow> x \<noteq> h + 32 \<longrightarrow>
        x \<notin> link_words (frees (h + 48) (pre @ (s, False) # post)) \<longrightarrow> ?m (W x) = m (W x))"
  proof (cases "s - r < 32")
    case True
    have m': "?m = relink (W h) (W p) (W n) (W n) (W p) (m(W (a + 8) := 1))"
      using True blk small by (simp add: use_block_def Let_def FLAG_ALLOCATED_def)
    have at: "?m (W x) = (if p \<noteq> 0 \<and> x = p + 16 then W n else if p = 0 \<and> x = h + 32 then W n
       else if n \<noteq> 0 \<and> x = n + 24 then W p else if x = a + 8 then 1 else m (W x))" if "x < 2 ^ 64" for x
      using that top unfolding m' rl [OF that] by (subst W_upd) auto
    have "heap_ok h pt pgs mx (pre @ [(s, True)] @ post) ?m"
    proof (rule replace_free [OF ok a ps_def qs_def p_def n_def])
      have "?m (W a) = W s" "?m (W (a + 8)) = 1" using p0 n0 ha top blk(1) by (auto simp: at)
      moreover have "?m (W (a + 16 + s)) = W s" if "24 \<le> s"
        using p0 n0 ha top blk(3) that by (auto simp: at)
      ultimately show "tiles ?m a [(s, True)]" using blk(4) by simp
      fix x assume x: "x < 2 ^ 64" "x < a \<or> a + (s + 24) \<le> x"
      then show "?m (W x) = (if p \<noteq> 0 \<and> x = p + 16 \<or> p = 0 \<and> x = h + 32 then W (hd0 (frees a [(s, True)]) n)
         else if n \<noteq> 0 \<and> x = n + 24 then W (last0 p (frees a [(s, True)])) else m (W x))"
        using at [OF x(1)] s8 by auto
    qed simp_all
    moreover have "?m (W x) = m (W x)" if "x < 2 ^ 64" "x < a \<or> a + (s + 24) \<le> x" "x \<noteq> h + 32"
      "x \<notin> link_words (frees (h + 48) (pre @ (s, False) # post))" for x
      using at [OF that(1)] that(2,3) links [OF that(4)] s8 by auto
    ultimately show ?thesis using True by simp
  next
    case False
    define t where "t = s - r - 24"
    define b where "b = a + r + 24"
    have bs: "s = r + 24 + t" "8 \<le> t" "t mod 16 = 8"
    proof -
      show 1: "s = r + 24 + t" "8 \<le> t" using False by (simp_all add: t_def)
      show "t mod 16 = 8" by (rule split_size [OF 1(1) blk(4) r(2)])
    qed
    have tb: "b + t + 24 + extent post < 2 ^ 64" "a + (s + 24) = b + t + 24" using top bs(1) by (simp_all add: b_def)
    let ?m1 = "m(W a := W r, W (a + 8) := 1, W (a + 16 + r) := W r, W b := W t, W (b + 8) := 0, W (b + 16 + t) := W t,
      W (b + 24) := W p, W (b + 16) := W n)"
    have e: "W a + W (r + 16) = W (a + 16 + r)" "a + 16 + r + 8 = b"
      "W s - W r - sizeof_header - sizeof_footer = W t" "W b + W (t + 16) = W (b + 16 + t)"
      using bs(1) by (simp_all add: b_def W_def sizeof_header_def sizeof_footer_def)
    have big: "\<not> m (b_size (W a)) - W r < 8 + sizeof_header + sizeof_footer" using False small blk(1) by simp
    have m': "?m = relink (W h) (W p) (W n) (W b) (W b) ?m1"
      using use_block_split [where m = m and fh = "W a" and sz = "W r" and heap = "W h", OF big]
      unfolding W_fields blk Let_def e FLAG_ALLOCATED_def W_fields .
    define mm where "mm = ?m1"
    have m1: "mm (W x) = (if x = b + 16 then W n else if x = b + 24 then W p else if x = b + 16 + t then W t
       else if x = b + 8 then 0 else if x = b then W t else if x = a + 16 + r then W r
       else if x = a + 8 then 1 else if x = a then W r else m (W x))" if "x < 2 ^ 64" for x
      unfolding mm_def using that tb b_def by (simp add: W_eq)
    have at: "?m (W x) = (if p \<noteq> 0 \<and> x = p + 16 then W b else if p = 0 \<and> x = h + 32 then W b
       else if n \<noteq> 0 \<and> x = n + 24 then W b else mm (W x))" if "x < 2 ^ 64" for x
      unfolding m' rl [OF that] mm_def ..
    have in_block: "?m (W x) = mm (W x)" if "a \<le> x" "x < a + (s + 24)" for x
    proof -
      have "\<not> (p \<noteq> 0 \<and> x = p + 16)" "\<not> (p = 0 \<and> x = h + 32)" "\<not> (n \<noteq> 0 \<and> x = n + 24)" "x < 2 ^ 64"
        using that top p0 n0 ha by auto
      then show ?thesis using at [of x] by (simp only: if_False simp_thms)
    qed
    have out: "mm (W x) = m (W x)" if x: "x < 2 ^ 64" "x < a \<or> a + (s + 24) \<le> x" for x
    proof -
      have "x \<noteq> b + 16" "x \<noteq> b + 24" "x \<noteq> b + 16 + t" "x \<noteq> b + 8" "x \<noteq> b" "x \<noteq> a + 16 + r" "x \<noteq> a + 8" "x \<noteq> a"
        using x(2) bs(1,2) by (auto simp: b_def)
      then show ?thesis by (simp only: m1 [OF x(1)] if_False)
    qed
    have "heap_ok h pt pgs mx (pre @ [(r, True), (t, False)] @ post) ?m"
    proof (rule replace_free [OF ok a ps_def qs_def p_def n_def])
      have w: "?m (W a) = W r" "?m (W (a + 8)) = 1" "?m (W (a + 16 + r)) = W r" "?m (W b) = W t" "?m (W (b + 8)) = 0"
        "?m (W (b + 24)) = W p" "?m (W (b + 16)) = W n"
        using tb(1) s8 bs by (subst in_block; simp add: m1 b_def)+
      have "?m (W (b + 16 + t)) = W t" if "24 \<le> t"
        using tb(1) s8 bs that by (subst in_block; simp add: m1 b_def)
      then show "tiles ?m a [(r, True), (t, False)]" using w r(2) bs(3) by (simp add: b_def algebra_simps)
      show "dll ?m p (frees a [(r, True), (t, False)]) n" using w by (simp add: b_def algebra_simps)
      show "extent [(r, True), (t, False)] = s + 24" using bs(1) by simp
      have f: "frees a [(r, True), (t, False)] = [b]" by (simp add: b_def)
      fix x assume x: "x < 2 ^ 64" "x < a \<or> a + (s + 24) \<le> x"
      have "mm (W x) = m (W x)" using x by (rule out)
      then show "?m (W x) = (if p \<noteq> 0 \<and> x = p + 16 \<or> p = 0 \<and> x = h + 32 then W (hd0 (frees a [(r, True), (t, False)]) n)
         else if n \<noteq> 0 \<and> x = n + 24 then W (last0 p (frees a [(r, True), (t, False)])) else m (W x))"
        unfolding at [OF x(1)] f by simp
    qed
    moreover have "?m (W x) = m (W x)" if "x < 2 ^ 64" "x < a \<or> a + (s + 24) \<le> x" "x \<noteq> h + 32"
      "x \<notin> link_words (frees (h + 48) (pre @ (s, False) # post))" for x
    proof -
      have "\<not> (p \<noteq> 0 \<and> x = p + 16)" "\<not> (p = 0 \<and> x = h + 32)" "\<not> (n \<noteq> 0 \<and> x = n + 24)"
        using links [OF that(4)] that(3) by auto
      then show ?thesis using at [OF that(1)] out [OF that(1,2)] by (simp only: if_False simp_thms)
    qed
    ultimately show ?thesis using False by (simp add: t_def)
  qed
  then show "heap_ok h pt pgs mx (pre @ (if s - r < 32 then [(s, True)] else [(r, True), (s - r - 24, False)]) @ post) ?m"
    and "x < 2 ^ 64 \<Longrightarrow> x < a \<or> a + (s + 24) \<le> x \<Longrightarrow> x \<noteq> h + 32 \<Longrightarrow>
      x \<notin> link_words (frees (h + 48) (pre @ (s, False) # post)) \<Longrightarrow> ?m (W x) = m (W x)"
    by blast+
qed

section \<open>Allocation\<close>

text \<open>The payload size of a request, and first fit on the list of blocks: the offset of the
  block taken and the new list.\<close>

definition rounded :: "nat \<Rightarrow> nat" where "rounded n = (n + 23) div 16 * 16 - 8"

fun first_fit :: "nat \<Rightarrow> blocks \<Rightarrow> (nat \<times> blocks) option" where
  "first_fit r [] = None"
| "first_fit r ((s, u) # bs) =
     (if \<not> u \<and> r \<le> s then Some (0, (if s - r < 32 then [(s, True)] else [(r, True), (s - r - 24, False)]) @ bs)
      else map_option (\<lambda>(k, bs'). (s + 24 + k, (s, u) # bs')) (first_fit r bs))"

lemma rounded_le: "n \<le> rounded n" "rounded n mod 16 = 8"
proof -
  define q where "q = (n + 23) div 16"
  have "(n + 23) mod 16 < 16" "n + 23 = 16 * q + (n + 23) mod 16" by (simp_all add: q_def)
  then have b: "n + 23 < 16 * q + 16" "1 \<le> q" by linarith+
  then show "n \<le> rounded n" by (simp add: rounded_def q_def [symmetric] mult.commute)
  have "rounded n = 16 * (q - 1) + 8" using b by (simp add: rounded_def q_def [symmetric] mult.commute algebra_simps)
  then show "rounded n mod 16 = 8" by simp
qed

lemma round16_W:
  assumes "n + 23 < 2 ^ 64"
  shows "round16 (W n) (16 - sizeof_footer) = W (rounded n)"
proof -
  have "W n - (16 - sizeof_footer) + 31 = W (n + 23)" by (simp add: W_def sizeof_footer_def)
  moreover have "push_bit 4 (drop_bit 4 (W (n + 23))) = W ((n + 23) div 16 * 16)"
  proof -
    have "drop_bit 4 (W (n + 23)) = W ((n + 23) div 16)"
    proof (rule word_unat_eq_iff [THEN iffD2])
      have "(n + 23) div 16 < 2 ^ 64" using assms div_le_dividend [of "n + 23" 16] by linarith
      then show "unat (drop_bit 4 (W (n + 23))) = unat (W ((n + 23) div 16))"
        using assms unfolding unat_drop_bit_eq W_def by (simp only: unat_of_nat64) (simp add: drop_bit_eq_div)
    qed
    then show ?thesis by (simp add: push_bit_eq_mult W_def)
  qed
  moreover have "16 \<le> (n + 23) div 16 * 16" by simp
  then have "W ((n + 23) div 16 * 16) + (16 - sizeof_footer) - 16 = W ((n + 23) div 16 * 16 - 8)"
    by (simp add: W_def sizeof_footer_def of_nat_diff)
  ultimately show ?thesis by (simp add: round16_def rounded_def)
qed

lemma first_fit_split:
  "first_fit r bs = Some (k, bs') \<Longrightarrow> \<exists>pre s post. bs = pre @ (s, False) # post \<and> r \<le> s \<and> k = extent pre \<and>
     (\<forall>(t, u) \<in> set pre. u \<or> t < r) \<and>
     bs' = pre @ (if s - r < 32 then [(s, True)] else [(r, True), (s - r - 24, False)]) @ post"
proof (induction r bs arbitrary: k bs' rule: first_fit.induct)
  case (2 r s u bs)
  show ?case
  proof (cases "\<not> u \<and> r \<le> s")
    case True
    then show ?thesis using "2.prems" by (intro exI [of _ "[]"] exI [of _ s] exI [of _ bs]) auto
  next
    case False
    then obtain k1 bs1 where f: "first_fit r bs = Some (k1, bs1)" "k = s + 24 + k1" "bs' = (s, u) # bs1"
      using "2.prems" by auto
    from "2.IH" [OF False f(1)] obtain pre t post where
      g: "bs = pre @ (t, False) # post" "r \<le> t" "k1 = extent pre" "\<forall>(t, u) \<in> set pre. u \<or> t < r"
        "bs1 = pre @ (if t - r < 32 then [(t, True)] else [(r, True), (t - r - 24, False)]) @ post" by blast
    have "\<forall>(t', u') \<in> set ((s, u) # pre). u' \<or> t' < r" using g(4) False by auto
    moreover have "(s, u) # bs = ((s, u) # pre) @ (t, False) # post" "k = extent ((s, u) # pre)"
      "bs' = ((s, u) # pre) @ (if t - r < 32 then [(t, True)] else [(r, True), (t - r - 24, False)]) @ post"
      using f(2,3) g(1,3,5) by simp_all
    ultimately show ?thesis using g(2) by blast
  qed
qed simp

lemma first_fit_none: "first_fit r bs = None \<longleftrightarrow> (\<forall>(s, u) \<in> set bs. u \<or> s < r)"
  by (induction r bs rule: first_fit.induct) auto

lemma frees_word:
  assumes ok: "heap_ok h pt pgs mx bs m" and f: "f \<in> set (frees (h + 48) bs)"
  shows "0 < f" "f < 2 ^ 64" "h + 48 \<le> f"
  using frees_range [OF f heap_okD(11) [OF ok]] heap_okD(13) [OF ok] by auto

lemma find_fits:
  assumes ok: "heap_ok h pt pgs mx (pre @ (s, False) # post) (hm st)" and fit: "r \<le> s" "\<forall>(t, u) \<in> set pre. u \<or> t < r"
  shows "find_fblock (W h) (W r) st = Some (W (h + 48 + extent pre), st)"
proof -
  note D = heap_okD [OF ok]
  let ?a = "h + 48 + extent pre"
  have fr: "frees (h + 48) (pre @ (s, False) # post) = frees (h + 48) pre @ ?a # frees (?a + (s + 24)) post" by simp
  have tp: "tiles (hm st) (h + 48) pre" and sz: "hm st (W ?a) = W s" using D(11) by simp_all
  have top: "extent pre < 2 ^ 64" "s < 2 ^ 64" "?a < 2 ^ 64" using D(13) by simp_all
  have "scan_free (hm st) (W r) (W (hd0 (frees (h + 48) pre @ ?a # frees (?a + (s + 24)) post) 0)) = Some (W ?a)"
  proof (rule scan_fits [OF D(12) [unfolded fr]])
    show "\<forall>f \<in> set (frees (h + 48) pre @ [?a]). 0 < f \<and> f < 2 ^ 64"
      using frees_word [OF ok] unfolding fr by simp
    show "\<forall>f \<in> set (frees (h + 48) pre). hm st (W f) < W r"
    proof
      fix f assume "f \<in> set (frees (h + 48) pre)"
      then obtain t where "(t, False) \<in> set pre" "hm st (W f) = W t" using free_size [OF tp] by blast
      then show "hm st (W f) < W r" using fit top(2) by (auto simp: W_less)
    qed
    show "W r \<le> hm st (W ?a)" using fit(1) top(2) by (simp add: sz W_le)
  qed
  then show ?thesis using D(10) fr top(3) W_zero [of ?a] D(1) by (simp add: find_fblock_def)
qed

text \<open>The payloads in use.\<close>

fun payloads :: "nat \<Rightarrow> blocks \<Rightarrow> (nat \<times> nat) list" where
  "payloads a [] = []"
| "payloads a ((s, u) # bs) = (if u then [(a + 16, s)] else []) @ payloads (a + (s + 24)) bs"

lemma payloads_append [simp]: "payloads a (xs @ ys) = payloads a xs @ payloads (a + extent xs) ys"
  by (induction a xs rule: payloads.induct) (simp_all add: add.assoc)

lemma payloads_range: "(p, l) \<in> set (payloads a bs) \<Longrightarrow> a + 16 \<le> p \<and> p + l + 8 \<le> a + extent bs"
  by (induction a bs rule: payloads.induct) (auto split: if_splits)

lemma payloads_aligned:
  "tiles m a bs \<Longrightarrow> a mod 16 = 0 \<Longrightarrow> (p, l) \<in> set (payloads a bs) \<Longrightarrow> p mod 16 = 0"
proof (induction m a bs rule: tiles.induct)
  case (2 m a s u bs)
  have sz: "s mod 16 = 8" "tiles m (a + (s + 24)) bs" using "2.prems"(1) by simp_all
  have n: "(a + (s + 24)) mod 16 = 0" using block_size [OF sz(1), of a] "2.prems"(2) by metis
  have "(a + 16) mod 16 = 0" using "2.prems"(2) by simp
  then show ?case using "2.IH" [OF sz(2) n] "2.prems"(3) by (cases u) auto
qed simp

definition apart :: "nat \<times> nat \<Rightarrow> nat \<times> nat \<Rightarrow> bool" where
  "apart x y \<longleftrightarrow> fst x + snd x \<le> fst y \<or> fst y + snd y \<le> fst x"

lemma payloads_apart: "sorted_wrt (\<lambda>x y. fst x + snd x \<le> fst y) (payloads a bs)"
  by (induction a bs rule: payloads.induct) (auto dest: payloads_range)

lemma payload_not_free:
  assumes "tiles m a bs" and "(p, l) \<in> set (payloads a bs)" and "p \<le> x" "x < p + l"
  shows "x \<notin> link_words (frees a bs)"
  using assms
proof (induction m a bs rule: tiles.induct)
  case (2 m a s u bs)
  have r: "a + (s + 24) \<le> f \<and> f + 32 \<le> a + (s + 24) + extent bs" if "f \<in> set (frees (a + (s + 24)) bs)" for f
    using frees_range [OF that, of m] "2.prems"(1) by simp
  show ?case
  proof (cases "(p, l) \<in> set (payloads (a + (s + 24)) bs)")
    case True
    have "a + (s + 24) + 16 \<le> x" using payloads_range [OF True] "2.prems"(3) by simp
    moreover have "8 \<le> s" using "2.prems"(1) by (auto elim: block_size)
    moreover have "x \<notin> link_words (frees (a + (s + 24)) bs)" using 2 True by auto
    ultimately show ?thesis by (auto simp: link_words_def)
  next
    case False
    then have "u" "p = a + 16" "l = s" using "2.prems"(2) by (auto split: if_splits)
    then show ?thesis using "2.prems"(3,4) r by (fastforce simp: link_words_def)
  qed
qed simp

lemma heap_alloc_fit:
  assumes ok: "heap_ok h pt pgs mx bs (hm st)" and n: "n + 23 < 2 ^ 64"
    and fit: "first_fit (rounded n) bs = Some (k, bs')"
  obtains st' l where "heap_alloc (W h) (W n) st = Some (W (h + 48 + k + 16), st')" "hvm st' = hvm st"
    "heap_ok h pt pgs mx bs' (hm st')" "n \<le> l"
    "set (payloads (h + 48) bs') = insert (h + 48 + k + 16, l) (set (payloads (h + 48) bs))"
    "\<And>x. x \<in> set (payloads (h + 48) bs) \<Longrightarrow> apart (h + 48 + k + 16, l) x"
    "\<And>q l x. (q, l) \<in> set (payloads (h + 48) bs) \<Longrightarrow> q \<le> x \<Longrightarrow> x < q + l \<Longrightarrow> hm st' (W x) = hm st (W x)"
    "h + 48 + k + 16 + l < h + mx * 4096" "(h + 48 + k + 16) mod 16 = 0"
proof -
  let ?r = "rounded n"
  from first_fit_split [OF fit] obtain pre s post where
    s: "bs = pre @ (s, False) # post" "?r \<le> s" "k = extent pre" "\<forall>(t, u) \<in> set pre. u \<or> t < ?r"
      "bs' = pre @ (if s - ?r < 32 then [(s, True)] else [(?r, True), (s - ?r - 24, False)]) @ post" by blast
  let ?a = "h + 48 + extent pre" and ?l = "if s - ?r < 32 then s else ?r"
  define m' where "m' = use_block (W h) (W ?a) (W ?r) (hm st)"
  note D = heap_okD [OF ok]
  note use = use_block_ok [OF ok [unfolded s(1)] refl s(2) rounded_le(2) [of n], folded m'_def]
  have ok': "heap_ok h pt pgs mx bs' m'" using use(1) s(5) by simp
  have "?a < 2 ^ 64" using D(13) s(1) by simp
  then have nz: "W ?a \<noteq> 0" using D(1) by (simp add: W_zero)
  have al: "heap_alloc (W h) (W n) st = Some (W (h + 48 + k + 16), st\<lparr>hm := m'\<rparr>)"
    using find_fits [OF ok [unfolded s(1)] s(2,4)] nz by (simp add: heap_alloc_def round16_W [OF n] m'_def s(3))
  have pay: "set (payloads (h + 48) bs') = insert (h + 48 + k + 16, ?l) (set (payloads (h + 48) bs))"
    using s(2) by (auto simp: s(1,3,5) algebra_simps)
  have top: "h + 48 + extent bs \<le> h + mx * 4096" using D(4,5) by simp
  have outside: "q + l \<le> ?a \<or> ?a + (s + 24) \<le> q" "h + 48 < q" "q + l < h + 48 + extent bs"
    if x: "(q, l) \<in> set (payloads (h + 48) bs)" for q l
    using x payloads_range [of q l "h + 48" pre] payloads_range [of q l "?a + (s + 24)" post] by (auto simp: s(1))
  have ap: "apart (h + 48 + k + 16, ?l) x" if x: "x \<in> set (payloads (h + 48) bs)" for x
  proof -
    obtain q l where ql: "x = (q, l)" by (cases x)
    have "?l \<le> s" using s(2) by simp
    then show ?thesis using outside(1) [OF x [unfolded ql]] ql by (auto simp: apart_def s(3))
  qed
  have keep: "m' (W x) = hm st (W x)" if x: "(q, l) \<in> set (payloads (h + 48) bs)" "q \<le> x" "x < q + l" for q l x
  proof -
    have "x < 2 ^ 64" "x < ?a \<or> ?a + (s + 24) \<le> x" "x \<noteq> h + 32"
      using outside [OF x(1)] x(2,3) top D(3) by auto
    moreover have "x \<notin> link_words (frees (h + 48) bs)" using payload_not_free [OF D(11) x] .
    ultimately show ?thesis using use(2) [of x] by (simp add: s(1))
  qed
  have "(h + 48 + k + 16) mod 16 = 0"
  proof (rule payloads_aligned)
    show "tiles m' (h + 48) bs'" using heap_okD(11) [OF ok'] .
    show "(h + 48) mod 16 = 0" using D(2) by presburger
    show "(h + 48 + k + 16, ?l) \<in> set (payloads (h + 48) bs')" using pay by simp
  qed
  moreover have "h + 48 + k + 16 + ?l < h + mx * 4096" using top s(2) by (auto simp: s(1,3))
  moreover have "n \<le> ?l" using rounded_le(1) [of n] s(2) by auto
  ultimately show thesis
    using al ok' pay ap keep by (intro that [of "st\<lparr>hm := m'\<rparr>" ?l]) simp_all
qed

section \<open>Creation\<close>

lemma heap_create_blocks:
  assumes pa: "page_alloc pt (W h) (uint ALLOC_PAGES) (hvm st) = Some (v, vm')"
    and h: "0 < h" "h mod 16 = 0" "h + max 16 mx * 4096 < 2 ^ 64"
  shows "\<exists>m. heap_create pt (W h) (W mx) st = Some (W h, \<lparr>hm = m, hvm = vm'\<rparr>) \<and>
    heap_ok h pt 16 (max 16 mx) [(65464, False)] m"
proof -
  have v: "v = W h" using pa by (auto simp: page_alloc_def bind_eq_Some_conv split: if_splits)
  have mx: "mx * 4096 < 2 ^ 64" "h + 65536 < 2 ^ 64" using h(3) by (auto simp: max_def split: if_splits)
  have ap: "ALLOC_PAGES = W 16" by (simp add: ALLOC_PAGES_def W_def)
  have maxw: "max (W 16) (W mx) = W (max 16 mx)"
    unfolding max_def using W_le [of 16 mx] mx(1) by simp
  let ?m0 = "zero_mem (W h) (W 16 * PAGE_SIZE) (hm st)"
  define m1 where "m1 = ?m0(W h := of_nat pt, W (h + 8) := W h, W (h + 16) := W 16, W (h + 24) := W (max 16 mx),
    W (h + 32) := W (h + 48), W (h + 40) := 0)"
  let ?m = "m1(W (h + 48) := W 65464, W (h + 56) := 0, W (h + 64) := 0, W (h + 72) := 0, W (h + 65528) := W 65464)"
  have at: "m1 (W h) = W pt" "m1 (W (h + 8)) = W h" "m1 (W (h + 16)) = W 16" "m1 (W (h + 24)) = W (max 16 mx)"
    "m1 (W (h + 32)) = W (h + 48)" "m1 (W (h + 40)) = 0"
    using mx(2) by (simp_all add: m1_def W_eq W_def [of pt])
  have sz: "W 16 * PAGE_SIZE - sizeof_heap - sizeof_header - sizeof_footer = W 65464"
    by (simp add: W_def page_size_defs sizeof_heap_def sizeof_header_def sizeof_footer_def)
  have ft: "W (h + 48) + (W 65464 + sizeof_header) = W (h + 65528)" by (simp add: W_def sizeof_header_def)
  have "heap_create pt (W h) (W mx) st = Some (W h, \<lparr>hm = ?m, hvm = vm'\<rparr>)"
    unfolding heap_create_def pa v bind.bind_lunit prod.case Let_def
    by (simp only: W_fields maxw ap m1_def [symmetric] at(3,5) sz ft) (simp only: W_fields add.assoc, simp add: add.commute [of h])
  moreover have "heap_ok h pt 16 (max 16 mx) [(65464, False)] ?m"
    unfolding heap_ok_def using h mx at by (simp add: W_eq W_0)
  ultimately show ?thesis by blast
qed

section \<open>Freeing\<close>

lemma even_word: "s mod 16 = 8 \<or> s mod 16 = 0 \<Longrightarrow> W s AND 1 = 0"
proof -
  assume "s mod 16 = 8 \<or> s mod 16 = 0"
  then have "even s" by presburger
  then have "\<not> bit (W s) 0" by (simp add: W_def bit_of_nat_iff bit_0)
  then show ?thesis using and_exp_eq_0_iff_not_bit [of "W s" 0] by simp
qed

lemma heap_term_W: "heap_ok h pt pgs mx bs m \<Longrightarrow> heap_term m (W h) = W (h + 48 + extent bs)"
proof -
  assume ok: "heap_ok h pt pgs mx bs m"
  have "heap_term m (W h) = W (h + pgs * 4096)"
    using heap_okD(7,8) [OF ok] W_mult [of pgs 4096] by (simp add: heap_term_def PAGE_SIZE_def W_def [of 4096])
  then show ?thesis using heap_okD(5) [OF ok] by (simp add: add.assoc)
qed

lemma total_W: "m (W a) = W s \<Longrightarrow> W a + total_bytes m (W a) = W (a + (s + 24))"
  by (simp add: total_bytes_def add.commute [of s])

text \<open>The scan of \<open>next_fblock\<close>.\<close>

lemma next_fblock_scan:
  assumes "heap_term m (W h) = W lim" "lim < 2 ^ 64"
  shows "tiles m (a + (s + 24)) bs \<Longrightarrow> m (W a) = W s \<Longrightarrow> a + (s + 24) + extent bs = lim \<Longrightarrow>
    next_fblock m (W h) (W a) = Some (W (hd0 (frees (a + (s + 24)) bs) 0))"
proof (induction bs arbitrary: a s)
  case Nil
  then show ?case using assms by (simp add: next_fblock.simps [of m "W h" "W a"] total_W Let_def W_0)
next
  case (Cons b bs)
  obtain t u where b: "b = (t, u)" by (cases b)
  let ?a = "a + (s + 24)"
  have c: "m (W ?a) = W t" "m (W (?a + 8)) = (if u then 1 else 0)" "tiles m (?a + (t + 24)) bs"
    using Cons.prems(1) by (simp_all add: b)
  have lt: "?a + (t + 24) + extent bs = lim" using Cons.prems(3) by (simp add: b)
  then have le: "\<not> W lim \<le> W ?a" using assms(2) by (simp add: W_le)
  show ?case
  proof (cases u)
    case True
    then have "next_fblock m (W h) (W a) = next_fblock m (W h) (W ?a)"
      using le c(2) by (simp add: next_fblock.simps [of m "W h" "W a"] total_W [where m = m, OF Cons.prems(2)] Let_def assms(1)
        FLAG_ALLOCATED_def)
    also have "\<dots> = Some (W (hd0 (frees (?a + (t + 24)) bs) 0))" by (rule Cons.IH [OF c(3,1) lt])
    finally show ?thesis using True by (simp add: b)
  next
    case False
    then show ?thesis using le c(2)
      by (simp add: next_fblock.simps [of m "W h" "W a"] total_W [where m = m, OF Cons.prems(2)] Let_def assms(1)
        FLAG_ALLOCATED_def b)
  qed
qed

fun merge_next :: "blocks \<Rightarrow> blocks" where
  "merge_next ((s, u) # (t, False) # bs) = (s + t + 24, False) # bs"
| "merge_next ((s, u) # bs) = (s, False) # bs"
| "merge_next [] = []"

text \<open>The first block is freed; the block behind it is free too.\<close>

lemma heap_free_first_merge:
  assumes ok: "heap_ok h pt pgs mx ((s, True) # (t, False) # bs) m"
  shows "\<exists>m'. heap_free (W h) (W (h + 64)) m = Some m' \<and> heap_ok h pt pgs mx ((s + t + 24, False) # bs) m'"
proof -
  note D = heap_okD [OF ok]
  let ?a = "h + 48" and ?z = "s + t + 24"
  let ?b = "?a + (s + 24)"
  define qs where "qs = frees (?b + (t + 24)) bs"
  define n where "n = hd0 qs 0"
  have blk: "m (W ?a) = W s" "m (W (?a + 8)) = 1" "s mod 16 = 8" using D(11) by simp_all
  have c: "m (W ?b) = W t" "m (W (?b + 8)) = 0" "t mod 16 = 8" "m (W (?b + 24)) = 0" "m (W (?b + 16)) = W n"
    and tb: "tiles m (?b + (t + 24)) bs"
    using D(11,12) by (simp_all add: qs_def n_def W_0)
  have top: "?b + (t + 24) + extent bs < 2 ^ 64" using D(13) by simp
  have s8: "8 \<le> s" using blk(3) by (auto elim: block_size)
  have n0: "n = 0 \<or> ?b + (t + 24) \<le> n \<and> n + 32 \<le> ?b + (t + 24) + extent bs"
    using hd0_mem [of qs 0] frees_range [of n "?b + (t + 24)" bs m] tb by (auto simp: n_def qs_def)
  have te: "heap_term m (W h) = W (?b + (t + 24) + extent bs)" using heap_term_W [OF ok] by (simp add: add.assoc)
  have h: "W (h + 64) - sizeof_header = W ?a" using W_sub_numeral by (simp add: W_def sizeof_header_def)
  have pf: "prev_fblock_adj m (W h) (W ?a) = 0" using D(7) by (simp add: prev_fblock_adj_def)
  have nb: "W ?a + total_bytes m (W ?a) = W ?b" by (rule total_W [where m = m, OF blk(1)])
  have zz: "?z mod 16 = 8" using block_size [OF c(3), of s] blk(3) by (metis add.assoc)
  have "\<not> W (?b + (t + 24) + extent bs) \<le> W ?b" using top by (simp add: W_le)
  then have fn: "next_fblock_adj m (W h) (W ?a) = W ?b"
    unfolding next_fblock_adj_def nb Let_def te W_fields c(2) by (simp only: if_False and_zero_eq zero_and_eq) simp
  have bz: "W ?b \<noteq> 0" "W ?a \<noteq> 0" using top D(1) by (simp_all add: W_zero)
  have dis: "W ?a \<noteq> W (?b + 24)" "W (?a + 8) \<noteq> W (?b + 24)" "W (h + 32) \<noteq> W (?b + 16)" "W ?a \<noteq> W (?b + 16)"
    "W (?a + 8) \<noteq> W (?b + 16)" "W (?a + 24) \<noteq> W (?b + 16)" "W (h + 32) \<noteq> W ?a" "W (?a + 8) \<noteq> W ?a"
    "W (?a + 24) \<noteq> W ?a" "W (?a + 16) \<noteq> W ?a"
    using top s8 by (simp_all add: W_eq)
  define m1 where "m1 = m(W ?a := W ?z, W (?a + 8) := 0)"
  define m2 where "m2 = m1(W (?a + 24) := 0, W (h + 32) := W ?a)"
  define m3 where "m3 = m2(W (?a + 16) := W n)"
  define m4 where "m4 = (if n \<noteq> 0 then m3(W (n + 24) := W ?a) else m3)"
  define m5 where "m5 = m4(W (?a + 16 + ?z) := W ?z)"
  have r: "m1 (W (?b + 24)) = 0" "m2 (W (?b + 16)) = W n" "m3 (W ?a) = W ?z" "m3 (W (?a + 16)) = W n"
    using dis c(4,5) by (simp_all add: m1_def m2_def m3_def)
  have nz: "W n = 0 \<longleftrightarrow> n = 0" using n0 top by (auto simp: W_zero)
  have r4: "m4 (W ?a) = W ?z" using r(3) n0 top by (auto simp: m4_def W_eq)
  have z: "W s + total_bytes m (W ?b) = W ?z" unfolding total_bytes_def W_fields c(1) W_add by (simp add: ac_simps)
  have "heap_free (W h) (W (h + 64)) m = Some m5"
    unfolding heap_free_def h pf fn Let_def m5_def
    by (simp only: W_fields bz simp_thms if_True if_False not_True_eq_False blk(1) z m1_def [symmetric] r(1) fun_upd_same
      m2_def [symmetric] r(2,4) m3_def [symmetric] nz m4_def [symmetric] r4) (simp only: W_add W_fields, simp add: ac_simps)
  moreover have at: "m5 (W x) = (if x = ?a + 16 + ?z then W ?z else if n \<noteq> 0 \<and> x = n + 24 then W ?a
      else if x = ?a + 16 then W n else if x = h + 32 then W ?a else if x = ?a + 24 then 0
      else if x = ?a + 8 then 0 else if x = ?a then W ?z else m (W x))" if "x < 2 ^ 64" for x
  proof -
    have e: "W x = W (?a + 16 + ?z) \<longleftrightarrow> x = ?a + 16 + ?z" "W x = W (?a + 16) \<longleftrightarrow> x = ?a + 16"
      "W x = W (h + 32) \<longleftrightarrow> x = h + 32" "W x = W (?a + 24) \<longleftrightarrow> x = ?a + 24" "W x = W (?a + 8) \<longleftrightarrow> x = ?a + 8"
      "W x = W ?a \<longleftrightarrow> x = ?a"
      by (rule W_eq; use that top in linarith)+
    have e1: "n \<noteq> 0 \<Longrightarrow> W x = W (n + 24) \<longleftrightarrow> x = n + 24"
      by (rule W_eq; use that top n0 in linarith)
    show ?thesis
      by (cases "n = 0") (simp_all only: m5_def m4_def m3_def m2_def m1_def fun_upd_apply e e1 if_True if_False
        simp_thms not_False_eq_True not_True_eq_False)
  qed
  have "heap_ok h pt pgs mx ([] @ [(?z, False)] @ bs) m5"
  proof (rule replace_block [where old = "[(s, True), (t, False)]" and a = ?a and ps = "[]" and p = 0 and n = n
        and qs = qs])
    show "heap_ok h pt pgs mx ([] @ [(s, True), (t, False)] @ bs) m" using ok by simp
    have "m5 (W ?a) = W ?z" "m5 (W (?a + 8)) = 0" "m5 (W (?a + 16 + ?z)) = W ?z"
      "m5 (W (?a + 16)) = W n" "m5 (W (?a + 24)) = W 0"
      by (subst at, use top n0 s8 in \<open>auto simp: W_0\<close>)+
    then show "tiles m5 ?a [(?z, False)]" "dll m5 0 (frees ?a [(?z, False)]) n" using zz by simp_all
    fix x assume x: "x < 2 ^ 64" "x < ?a \<or> ?a + extent [(s, True), (t, False)] \<le> x"
    then have "x \<noteq> ?a + 16 + ?z" "x \<noteq> ?a + 16" "x \<noteq> ?a + 24" "x \<noteq> ?a + 8" "x \<noteq> ?a" by auto
    then show "m5 (W x) = (if 0 \<noteq> (0::nat) \<and> x = 0 + 16 \<or> 0 = (0::nat) \<and> x = h + 32
       then W (hd0 (frees ?a [(?z, False)]) n)
       else if n \<noteq> 0 \<and> x = n + 24 then W (last0 0 (frees ?a [(?z, False)])) else m (W x))"
      using at [OF x(1)] n0 by auto
  qed (simp_all add: n_def qs_def add.assoc)
  ultimately show ?thesis by auto
qed

text \<open>The first block is freed; the block behind it is in use, or there is none.\<close>

lemma heap_free_first_alone:
  assumes ok: "heap_ok h pt pgs mx ((s, True) # bs) m" and used: "\<And>t bs1. bs \<noteq> (t, False) # bs1"
  shows "\<exists>m'. heap_free (W h) (W (h + 64)) m = Some m' \<and> heap_ok h pt pgs mx ((s, False) # bs) m'"
proof -
  note D = heap_okD [OF ok]
  let ?a = "h + 48"
  let ?b = "?a + (s + 24)"
  define qs where "qs = frees ?b bs"
  define n where "n = hd0 qs 0"
  have blk: "m (W ?a) = W s" "s mod 16 = 8" "24 \<le> s \<Longrightarrow> m (W (?a + 16 + s)) = W s" and tb: "tiles m ?b bs"
    using D(11) by simp_all
  have dl: "dll m 0 qs 0" using D(12) by (simp add: qs_def)
  have top: "?b + extent bs < 2 ^ 64" using D(13) by simp
  have s8: "8 \<le> s" using blk(2) by (auto elim: block_size)
  have n0: "n = 0 \<and> qs = [] \<or> ?b \<le> n \<and> n + 32 \<le> ?b + extent bs \<and> n \<in> set qs"
    using hd0_mem [of qs 0] frees_range [of n ?b bs m] tb by (auto simp: n_def qs_def)
  have pn: "n \<noteq> 0 \<Longrightarrow> m (W (n + 24)) = 0" using dl n0 by (cases qs) (auto simp: n_def W_0)
  have te: "heap_term m (W h) = W (?b + extent bs)" using heap_term_W [OF ok] by (simp add: add.assoc)
  have h: "W (h + 64) - sizeof_header = W ?a" using W_sub_numeral by (simp add: W_def sizeof_header_def)
  have pf: "prev_fblock_adj m (W h) (W ?a) = 0" using D(7) by (simp add: prev_fblock_adj_def)
  have nb: "W ?a + total_bytes m (W ?a) = W ?b" by (rule total_W [where m = m, OF blk(1)])
  have fn: "next_fblock_adj m (W h) (W ?a) = 0"
  proof (cases bs)
    case Nil
    then show ?thesis by (simp add: next_fblock_adj_def nb te Let_def)
  next
    case (Cons b bs1)
    then obtain t where "bs = (t, True) # bs1" using used by (cases b) auto
    then have "m (W (?b + 8)) = 1" using tb by simp
    then show ?thesis unfolding next_fblock_adj_def nb Let_def W_fields FLAG_ALLOCATED_def by simp
  qed
  have b8: "W (?a + 8) = W x \<longleftrightarrow> ?a + 8 = x" if "x < 2 ^ 64" for x using W_eq that top by simp
  define m1 where "m1 = m(W (?a + 8) := 0)"
  have m1: "m1 (W x) = m (W x)" if "x < 2 ^ 64" "x \<noteq> ?a + 8" for x
    using b8 [OF that(1)] that(2) by (simp add: m1_def)
  have "next_fblock m1 (W h) (W ?a) = Some (W n)"
    unfolding n_def qs_def
  proof (rule next_fblock_scan [OF _ top])
    show "heap_term m1 (W h) = W (?b + extent bs)"
      using te m1 [of "h + 8"] m1 [of "h + 16"] top by (simp add: heap_term_def)
    show "tiles m1 ?b bs" by (rule tiles_cong [OF _ tb]) (rule m1; use top in simp)
    show "m1 (W ?a) = W s" using m1 [of ?a] top blk(1) by simp
  qed simp
  note nf = this
  define m2 where "m2 = m1(W (?a + 16) := W n)"
  define m3 where "m3 = (if n = 0 then m2(W (?a + 24) := 0) else m2(W (?a + 24) := 0, W (n + 24) := W ?a))"
  define m4 where "m4 = m3(W (h + 32) := W ?a)"
  have nz: "W n = 0 \<longleftrightarrow> n = 0" using n0 top by (auto simp: W_zero)
  have m2: "m2 (W (n + 24)) = 0" if "n \<noteq> 0"
    using that n0 top pn by (auto simp: m2_def m1_def W_eq)
  have "W (n + 24) \<noteq> W (?a + 16)" "W (?a + 16) \<noteq> W (?a + 24)" if "n \<noteq> 0" using that n0 top by (auto simp: W_eq)
  then have m3: "m2 (W (?a + 16)) = W n" "(m2(W (?a + 24) := 0)) (W (?a + 16)) = W n" "m3 (W (?a + 24)) = 0"
    using n0 top by (auto simp: m2_def m3_def W_eq)
  have m30: "n = 0 \<Longrightarrow> m2(W (?a + 24) := 0) = m3" and m31: "n \<noteq> 0 \<Longrightarrow> m2(W (?a + 24) := 0, W (n + 24) := W ?a) = m3"
    by (simp_all only: m3_def if_True if_False simp_thms)
  have vd: "m2 (W (h + 8)) = W h" using D(7) top by (simp add: m2_def m1_def W_eq)
  have pr: "prev_fblock m2 (W h) (W ?a) = Some 0" using vd by (simp add: prev_fblock.simps [of m2 "W h" "W ?a"])
  have "heap_free (W h) (W (h + 64)) m = Some m4"
    unfolding heap_free_def h pf fn Let_def
    by (simp only: W_fields simp_thms if_True if_False m1_def [symmetric] nf bind.bind_lunit m2_def [symmetric] m3(1) nz)
      (cases "n = 0"; simp only: simp_thms if_True if_False pr bind.bind_lunit m3(1,2) W_fields m2 m30 m31 m3(3) m4_def)
  moreover have at: "m4 (W x) = (if x = h + 32 then W ?a else if n \<noteq> 0 \<and> x = n + 24 then W ?a
      else if x = ?a + 24 then 0 else if x = ?a + 16 then W n else if x = ?a + 8 then 0 else m (W x))" if "x < 2 ^ 64" for x
  proof -
    have e: "W x = W (?a + 16) \<longleftrightarrow> x = ?a + 16" "W x = W (h + 32) \<longleftrightarrow> x = h + 32"
      "W x = W (?a + 24) \<longleftrightarrow> x = ?a + 24" "W x = W (?a + 8) \<longleftrightarrow> x = ?a + 8"
      by (rule W_eq; use that top in linarith)+
    have e1: "n \<noteq> 0 \<Longrightarrow> W x = W (n + 24) \<longleftrightarrow> x = n + 24"
      by (rule W_eq; use that top n0 in linarith)
    show ?thesis
      by (cases "n = 0") (simp_all only: m4_def m3_def m2_def m1_def fun_upd_apply e e1 if_True if_False
        simp_thms not_False_eq_True not_True_eq_False)
  qed
  have "heap_ok h pt pgs mx ([] @ [(s, False)] @ bs) m4"
  proof (rule replace_block [where old = "[(s, True)]" and a = ?a and ps = "[]" and p = 0 and n = n and qs = qs])
    show "heap_ok h pt pgs mx ([] @ [(s, True)] @ bs) m" using ok by simp
    have "m4 (W ?a) = W s" "m4 (W (?a + 8)) = 0" "m4 (W (?a + 16)) = W n" "m4 (W (?a + 24)) = W 0"
      by (subst at, use top n0 s8 blk(1) in \<open>auto simp: W_0\<close>)+
    moreover have "m4 (W (?a + 16 + s)) = W s" if "24 \<le> s"
      by (subst at) (use top n0 that blk(3) in auto)
    ultimately show "tiles m4 ?a [(s, False)]" "dll m4 0 (frees ?a [(s, False)]) n" using blk(2) by simp_all
    fix x assume x: "x < 2 ^ 64" "x < ?a \<or> ?a + extent [(s, True)] \<le> x"
    then have "x \<noteq> ?a + 16" "x \<noteq> ?a + 24" "x \<noteq> ?a + 8" using s8 by auto
    then show "m4 (W x) = (if 0 \<noteq> (0::nat) \<and> x = 0 + 16 \<or> 0 = (0::nat) \<and> x = h + 32
       then W (hd0 (frees ?a [(s, False)]) n)
       else if n \<noteq> 0 \<and> x = n + 24 then W (last0 0 (frees ?a [(s, False)])) else m (W x))"
      using at [OF x(1)] n0 by auto
  qed (simp_all add: n_def qs_def add.assoc)
  ultimately show ?thesis by auto
qed

lemma heap_free_first_block:
  assumes ok: "heap_ok h pt pgs mx ((s, True) # bs) m"
  shows "\<exists>m'. heap_free (W h) (W (h + 64)) m = Some m' \<and> heap_ok h pt pgs mx (merge_next ((s, True) # bs)) m'"
proof (cases "\<exists>t bs1. bs = (t, False) # bs1")
  case True
  then obtain t bs1 where "bs = (t, False) # bs1" by blast
  then show ?thesis using heap_free_first_merge [of h pt pgs mx s t bs1 m] ok by simp
next
  case False
  then have "merge_next ((s, True) # bs) = (s, False) # bs"
    by (cases "(s, True) # bs" rule: merge_next.cases) auto
  then show ?thesis using heap_free_first_alone [OF ok] False by simp
qed

text \<open>The second block is freed; the first is in use and the third is free.\<close>

lemma heap_free_second_block:
  assumes ok: "heap_ok h pt pgs mx ((s, True) # (t, True) # (u, False) # bs) m" and s24: "24 \<le> s"
  shows "\<exists>m'. heap_free (W h) (W (h + 48 + (s + 24) + 16)) m = Some m' \<and>
    m (W (h + 48 + 8)) = FLAG_ALLOCATED \<and> m' (W (h + 48 + 8)) AND FLAG_ALLOCATED = 0 \<and>
    m' (W (h + 40)) = W (t + u + 48)"
proof -
  note D = heap_okD [OF ok]
  let ?a = "h + 48"
  let ?b = "?a + (s + 24)"
  let ?c = "?b + (t + 24)"
  define qs where "qs = frees (?c + (u + 24)) bs"
  define n where "n = hd0 qs 0"
  have m: "m (W ?a) = W s" "m (W (?a + 8)) = 1" "m (W (?a + 16 + s)) = W s" "s mod 16 = 8" "m (W ?b) = W t"
    "m (W ?c) = W u" "m (W (?c + 8)) = 0" "m (W (?c + 16)) = W n" "m (W (h + 40)) = 0" "t mod 16 = 8"
    and tb: "tiles m (?c + (u + 24)) bs"
    using D(11,12,14) s24 by (simp_all add: qs_def n_def add.assoc)
  have top: "?c + (u + 24) + extent bs < 2 ^ 64" using D(13) by (simp add: add.assoc)
  have t8: "8 \<le> t" using m(10) by (auto elim: block_size)
  have n0: "n = 0 \<or> ?c + (u + 24) \<le> n \<and> n + 32 \<le> ?c + (u + 24) + extent bs"
    and n16: "n mod 16 = 0"
  proof -
    have ext: "extent [(s, True), (t, True), (u, False)] mod 16 = 0"
      by (rule tiles_extent [of m ?a]) (use D(11) in \<open>simp add: add.assoc\<close>)
    have "(?c + (u + 24)) mod 16 = (h + 48 + extent [(s, True), (t, True), (u, False)]) mod 16" by (simp add: ac_simps)
    also have "\<dots> = 0" using ext D(2) by presburger
    finally have "(?c + (u + 24)) mod 16 = 0" .
    then show "n = 0 \<or> ?c + (u + 24) \<le> n \<and> n + 32 \<le> ?c + (u + 24) + extent bs" "n mod 16 = 0"
      using hd0_mem [of qs 0] frees_range [of n "?c + (u + 24)" bs m] tb by (auto simp: n_def qs_def)
  qed
  have h: "W (?b + 16) - sizeof_header = W ?b" by (simp add: W_def sizeof_header_def)
  have te: "heap_term m (W h) = W (?c + (u + 24) + extent bs)" using heap_term_W [OF ok] by (simp add: add.assoc)
  have pf: "prev_fblock_adj m (W h) (W ?b) = W (h + 40)"
  proof -
    have bf: "W ?b - sizeof_footer = W (?a + 16 + s)" by (simp add: W_def sizeof_footer_def)
    have "W (?a + 16 + s) - total_bytes m (W (?a + 16 + s)) = W (?a + 16 + s) - W (s + 24)"
      unfolding total_bytes_def W_fields m(3) by (simp add: sizeof_header_def sizeof_footer_def add.commute [of s])
    also have "\<dots> = W (h + 40)" by (subst W_sub) (simp_all add: add.commute [of h])
    finally have pr: "W (?a + 16 + s) - total_bytes m (W (?a + 16 + s)) = W (h + 40)" .
    have ne: "W ?b \<noteq> W ?a" using top by (subst W_eq) simp_all
    have fl: "m (W (h + 40 + 8)) AND FLAG_ALLOCATED = 0"
      using even_word [of s] m(1,4) by (simp add: FLAG_ALLOCATED_def add.commute [of _ h])
    show ?thesis unfolding prev_fblock_adj_def W_fields D(7) Let_def bf pr using ne fl by simp
  qed
  have nb: "W ?b + total_bytes m (W ?b) = W ?c" by (rule total_W [where m = m, OF m(5)])
  have "\<not> W (?c + (u + 24) + extent bs) \<le> W ?c" using top by (simp add: W_le)
  then have fn: "next_fblock_adj m (W h) (W ?b) = W ?c"
    unfolding next_fblock_adj_def nb Let_def te W_fields m(7) by (simp only: if_False and_zero_eq zero_and_eq) simp
  have nz: "W (h + 40) \<noteq> 0" "W ?c \<noteq> 0" using top by (simp_all add: W_zero)
  define m1 where "m1 = m(W (h + 40) := W (t + u + 48))"
  define m2 where "m2 = m1(W (h + 56) := W n)"
  define m3 where "m3 = (if n \<noteq> 0 then m2(W (n + 24) := W (h + 40)) else m2)"
  define m4 where "m4 = m3(W (h + 40 + (t + u + 48) + 16) := W (t + u + 48))"
  have sz: "m (W (h + 40)) + (m (W ?b) + 2 * sizeof_header + 2 * sizeof_footer + m (W ?c)) = W (t + u + 48)"
    unfolding m(5,6,9) by (simp add: sizeof_header_def sizeof_footer_def W_0 add.commute [of _ u] add.assoc)
  have d: "W (?c + 16) \<noteq> W (h + 40)" "W (?c + 16) \<noteq> W (h + 56)" using top by (simp_all add: W_eq)
  have r: "m1 (W (?c + 16)) = W n" "m2 (W (?c + 16)) = W n" using d m(8) by (simp_all add: m1_def m2_def)
  have wn: "W n = 0 \<longleftrightarrow> n = 0" using n0 top by (auto simp: W_zero)
  have e: "W (h + 40) = W (h + 56) \<longleftrightarrow> False" "n \<noteq> 0 \<Longrightarrow> W (h + 40) = W (n + 24) \<longleftrightarrow> False"
    "n \<noteq> 0 \<Longrightarrow> W (h + 56) = W (n + 24) \<longleftrightarrow> False" "W (h + 40) = W (h + 40 + (t + u + 48) + 16) \<longleftrightarrow> False"
    "W (h + 56) = W (h + 40 + (t + u + 48) + 16) \<longleftrightarrow> False"
    using n0 top t8 s24 by (auto simp: W_eq)
  have v: "m3 (W (h + 40)) = W (t + u + 48)" "m4 (W (h + 40)) = W (t + u + 48)" "m4 (W (h + 56)) = W n"
    by (cases "n = 0"; simp only: m4_def m3_def m2_def m1_def fun_upd_apply e if_True if_False simp_thms)+
  have f: "heap_free (W h) (W (?b + 16)) m = Some m4"
  proof -
    have ff: "W (h + 40) + (W (t + u + 48) + sizeof_header) = W (h + 40 + (t + u + 48) + 16)"
      by (simp add: sizeof_header_def)
    have w: "W (h + 40 + 16) = W (h + 56)" by (simp add: add.commute [of h])
    show ?thesis
      unfolding heap_free_def h pf fn Let_def
      by (simp only: W_fields nz simp_thms if_True not_False_eq_True sz m1_def [symmetric] w r m2_def [symmetric] wn
        m3_def [symmetric] v(1)) (simp only: W_fields ff [unfolded W_fields] m4_def)
  qed
  have "W n AND FLAG_ALLOCATED = 0" using even_word [of n] n16 by (simp add: FLAG_ALLOCATED_def)
  moreover have "m4 (W (?a + 8)) = W n" using v(3) by (simp add: add.commute [of h])
  moreover have "m (W (?a + 8)) = FLAG_ALLOCATED" using m(2) by (simp only: FLAG_ALLOCATED_def)
  ultimately show ?thesis using f v(2) by (intro exI [of _ m4]) (simp only: simp_thms)
qed

end
