(* ===== verification/Allocator.thy ===== *)
theory Allocator
  imports First_Fit
begin

text \<open>
  What the heap promises its callers.  \<open>storage\<close> is the interface of an allocator: every
  allocation is aligned, as large as asked for, apart from what is in use and leaves the
  contents of the memory in use alone; its lemma follows these laws through any sequence of
  allocations.  The heap of \<^verbatim>\<open>kernel/mem/heap.c\<close> is an interpretation.  The properties of
  allocation and of freeing the first block, and what freeing any other block does, are stated
  on the list of blocks that \<open>First_Fit\<close> shows the heap's memory to hold.
\<close>

section \<open>The interface of an allocator\<close>

locale storage =
  fixes take :: "nat \<Rightarrow> 's \<Rightarrow> (nat \<times> 's) option"
    and used :: "'s \<Rightarrow> (nat \<times> nat) set"
    and load :: "'s \<Rightarrow> nat \<Rightarrow> 'w"
    and inv :: "'s \<Rightarrow> bool"
  assumes take_inv: "inv s \<Longrightarrow> take n s = Some (p, s') \<Longrightarrow> inv s'"
    and take_aligned: "inv s \<Longrightarrow> take n s = Some (p, s') \<Longrightarrow> p mod 16 = 0"
    and take_used: "inv s \<Longrightarrow> take n s = Some (p, s') \<Longrightarrow>
      \<exists>l \<ge> n. used s' = insert (p, l) (used s) \<and> (\<forall>x \<in> used s. apart (p, l) x)"
    and take_keeps: "inv s \<Longrightarrow> take n s = Some (p, s') \<Longrightarrow> (q, l) \<in> used s \<Longrightarrow> q \<le> x \<Longrightarrow> x < q + l \<Longrightarrow>
      load s' x = load s x"
begin

lemma takes_inv: "inv s \<Longrightarrow> run take ns s = Some (ps, t) \<Longrightarrow> inv t"
  by (induction ns arbitrary: s ps) (auto elim!: run_Cons dest: take_inv simp del: run.simps(2))

lemma takes_length: "run take ns s = Some (ps, t) \<Longrightarrow> length ps = length ns"
  by (induction ns arbitrary: s ps) (auto elim!: run_Cons simp del: run.simps(2))

lemma takes_keeps:
  "inv s \<Longrightarrow> run take ns s = Some (ps, t) \<Longrightarrow> (q, l) \<in> used s \<Longrightarrow> q \<le> x \<Longrightarrow> x < q + l \<Longrightarrow> load t x = load s x"
proof (induction ns arbitrary: s ps)
  case (Cons n ns)
  from Cons.prems(2) obtain p ps' s' where t: "take n s = Some (p, s')" "run take ns s' = Some (ps', t)"
    by (rule run_Cons)
  have "(q, l) \<in> used s'" using take_used [OF Cons.prems(1) t(1)] Cons.prems(3) by auto
  then show ?case
    using Cons.IH [OF take_inv [OF Cons.prems(1) t(1)] t(2)] take_keeps [OF Cons.prems(1) t(1)] Cons.prems(3-5) by simp
qed simp

lemma takes_used:
  "inv s \<Longrightarrow> run take ns s = Some (ps, t) \<Longrightarrow>
   \<exists>ls. list_all2 (\<le>) ns ls \<and> used t = used s \<union> set (zip ps ls) \<and>
     sorted_wrt apart (zip ps ls) \<and> (\<forall>x \<in> used s. \<forall>y \<in> set (zip ps ls). apart x y)"
proof (induction ns arbitrary: s ps)
  case (Cons n ns)
  from Cons.prems(2) obtain p ps' s' where
    t: "take n s = Some (p, s')" "run take ns s' = Some (ps', t)" "ps = p # ps'" by (rule run_Cons)
  obtain l where l: "n \<le> l" "used s' = insert (p, l) (used s)" "\<forall>x \<in> used s. apart (p, l) x"
    using take_used [OF Cons.prems(1) t(1)] by blast
  obtain ls where ls: "list_all2 (\<le>) ns ls" "used t = used s' \<union> set (zip ps' ls)" "sorted_wrt apart (zip ps' ls)"
    "\<forall>x \<in> used s'. \<forall>y \<in> set (zip ps' ls). apart x y"
    using Cons.IH [OF take_inv [OF Cons.prems(1) t(1)] t(2)] by blast
  have sym: "apart x y \<Longrightarrow> apart y x" for x y by (auto simp: apart_def)
  show ?case
    by (intro exI [of _ "l # ls"]) (use l ls sym t(3) in auto)
qed simp

lemma takes_aligned: "inv s \<Longrightarrow> run take ns s = Some (ps, t) \<Longrightarrow> p \<in> set ps \<Longrightarrow> p mod 16 = 0"
proof (induction ns arbitrary: s ps)
  case (Cons n ns)
  from Cons.prems(2) obtain q ps' s' where
    t: "take n s = Some (q, s')" "run take ns s' = Some (ps', t)" "ps = q # ps'" by (rule run_Cons)
  then show ?case
    using Cons.IH [OF take_inv [OF Cons.prems(1) t(1)] t(2)] take_aligned [OF Cons.prems(1) t(1)] Cons.prems(3) by auto
qed simp

end

section \<open>The blocks in memory\<close>

fun read_blocks :: "nat \<Rightarrow> (u64 \<Rightarrow> u64) \<Rightarrow> nat \<Rightarrow> nat \<Rightarrow> blocks" where
  "read_blocks 0 m a lim = []"
| "read_blocks (Suc n) m a lim =
     (if lim \<le> a then []
      else (unat (m (W a)), m (W (a + 8)) \<noteq> 0) # read_blocks n m (a + (unat (m (W a)) + 24)) lim)"

definition heap_blocks :: "nat \<Rightarrow> (u64 \<Rightarrow> u64) \<Rightarrow> blocks" where
  "heap_blocks h m = (let n = unat (m (W (h + 16))) in read_blocks (n * 128) m (h + 48) (h + n * 4096))"

lemma read_blocks_tiles:
  "tiles m a bs \<Longrightarrow> a + extent bs = lim \<Longrightarrow> lim < 2 ^ 64 \<Longrightarrow> length bs \<le> n \<Longrightarrow> read_blocks n m a lim = bs"
proof (induction n arbitrary: a bs)
  case (Suc n)
  show ?case
  proof (cases bs)
    case (Cons b bs')
    obtain s u where b: "b = (s, u)" by (cases b)
    have t: "m (W a) = W s" "m (W (a + 8)) = (if u then 1 else 0)" "tiles m (a + (s + 24)) bs'"
      using Suc.prems(1) by (simp_all add: Cons b)
    have "s < 2 ^ 64" using Suc.prems(2,3) by (simp add: Cons b)
    then have u: "unat (m (W a)) = s" unfolding t(1) by (rule unat_W)
    have "read_blocks n m (a + (s + 24)) lim = bs'"
      by (rule Suc.IH [OF t(3)]) (use Suc.prems(2-4) in \<open>simp_all add: Cons b\<close>)
    then show ?thesis using Suc.prems(2) u t(2) by (simp add: Cons b)
  qed (use Suc.prems(2) in simp)
qed simp

lemma length_extent: "tiles m a bs \<Longrightarrow> 32 * length bs \<le> extent bs"
proof (induction m a bs rule: tiles.induct)
  case (2 m a s u bs)
  then have "8 \<le> s" by (auto elim: block_size)
  then show ?case using 2 by simp
qed simp

lemma heap_blocks: "heap_ok h pt pgs mx bs m \<Longrightarrow> heap_blocks h m = bs"
proof -
  assume ok: "heap_ok h pt pgs mx bs m"
  note D = heap_okD [OF ok]
  have "pgs * 4096 < 2 ^ 64" using D(5,13) by simp
  then have "unat (m (W (h + 16))) = pgs" unfolding D(8) by (intro unat_W) linarith
  moreover have "read_blocks (pgs * 128) m (h + 48) (h + pgs * 4096) = bs"
    by (rule read_blocks_tiles [OF D(11)]) (use D(5,13) length_extent [OF D(11)] in auto)
  ultimately show ?thesis by (simp add: heap_blocks_def)
qed

section \<open>The heap as an allocator\<close>

text \<open>An allocation that a free block serves; the heap is at \<open>h\<close> with \<open>pt\<close> its page table and
  \<open>mx\<close> its largest number of pages.\<close>

definition heap_take :: "nat \<Rightarrow> nat \<Rightarrow> hstate \<Rightarrow> (nat \<times> hstate) option" where
  "heap_take h n st =
     (if n + 23 < 2 ^ 64 \<and> first_fit (rounded n) (heap_blocks h (hm st)) \<noteq> None
      then map_option (\<lambda>(p, st). (unat p, st)) (heap_alloc (W h) (W n) st) else None)"

definition heap_used :: "nat \<Rightarrow> hstate \<Rightarrow> (nat \<times> nat) set" where
  "heap_used h st = set (payloads (h + 48) (heap_blocks h (hm st)))"

definition heap_inv :: "nat \<Rightarrow> nat \<Rightarrow> nat \<Rightarrow> nat \<Rightarrow> hstate \<Rightarrow> bool" where
  "heap_inv h pt pgs mx st \<longleftrightarrow> heap_ok h pt pgs mx (heap_blocks h (hm st)) (hm st)"

lemma heap_take_Some:
  assumes "heap_inv h pt pgs mx st" and "heap_take h n st = Some (p, st')"
  obtains l where "heap_inv h pt pgs mx st'" "n \<le> l" "heap_used h st' = insert (p, l) (heap_used h st)"
    "\<And>x. x \<in> heap_used h st \<Longrightarrow> apart (p, l) x" "p mod 16 = 0"
    "\<And>q l x. (q, l) \<in> heap_used h st \<Longrightarrow> q \<le> x \<Longrightarrow> x < q + l \<Longrightarrow> hm st' (W x) = hm st (W x)"
proof -
  note ok = assms(1) [unfolded heap_inv_def]
  obtain k bs' where f: "n + 23 < 2 ^ 64" "first_fit (rounded n) (heap_blocks h (hm st)) = Some (k, bs')"
    using assms(2) by (auto simp: heap_take_def split: if_splits)
  obtain st2 l where a: "heap_alloc (W h) (W n) st = Some (W (h + 48 + k + 16), st2)" "hvm st2 = hvm st"
    "heap_ok h pt pgs mx bs' (hm st2)" "n \<le> l"
    "set (payloads (h + 48) bs') = insert (h + 48 + k + 16, l) (set (payloads (h + 48) (heap_blocks h (hm st))))"
    "\<And>x. x \<in> set (payloads (h + 48) (heap_blocks h (hm st))) \<Longrightarrow> apart (h + 48 + k + 16, l) x"
    "\<And>q l x. (q, l) \<in> set (payloads (h + 48) (heap_blocks h (hm st))) \<Longrightarrow> q \<le> x \<Longrightarrow> x < q + l \<Longrightarrow> hm st2 (W x) = hm st (W x)"
    "h + 48 + k + 16 + l < h + mx * 4096" "(h + 48 + k + 16) mod 16 = 0"
    by (rule heap_alloc_fit [OF ok f]) (rule that)
  have "h + 48 + k + 16 < 2 ^ 64" using a(8) heap_okD(3) [OF ok] by simp
  then have "unat (W (h + 48 + k + 16)) = h + 48 + k + 16" by (rule unat_W)
  then have p: "p = h + 48 + k + 16" "st' = st2"
    using assms(2) a(1) f by (simp_all add: heap_take_def)
  show thesis
    by (rule that [of l]) (use a heap_blocks [OF a(3)] in \<open>simp_all add: p heap_inv_def heap_used_def\<close>)
qed

interpretation heap: storage "heap_take h" "heap_used h" "\<lambda>st x. hm st (W x)" "heap_inv h pt pgs mx" for h pt pgs mx
proof unfold_locales
  fix s s' :: hstate and n p q l x
  assume s: "heap_inv h pt pgs mx s" "heap_take h n s = Some (p, s')"
  show "heap_inv h pt pgs mx s'" "p mod 16 = 0" by (rule heap_take_Some [OF s], assumption)+
  show "\<exists>l\<ge>n. heap_used h s' = insert (p, l) (heap_used h s) \<and> (\<forall>x\<in>heap_used h s. apart (p, l) x)"
    by (rule heap_take_Some [OF s]) blast
  show "(q, l) \<in> heap_used h s \<Longrightarrow> q \<le> x \<Longrightarrow> x < q + l \<Longrightarrow> hm s' (W x) = hm s (W x)"
    by (rule heap_take_Some [OF s])
qed

section \<open>Properties\<close>

text \<open>A new heap of 16 pages at \<open>h\<close>, one free block, which may grow to \<open>mx\<close> pages.\<close>

definition fresh_heap :: "nat \<Rightarrow> nat \<Rightarrow> u64 \<Rightarrow> u64" where
  "fresh_heap h mx = (\<lambda>_. 0)(W h := W 1, W (h + 8) := W h, W (h + 16) := W 16, W (h + 24) := W mx,
     W (h + 32) := W (h + 48), W (h + 48) := W 65464, W (h + 65528) := W 65464)"

lemma fresh_heap_ok:
  assumes "0 < h" "h mod 16 = 0" "h + mx * 4096 < 2 ^ 64" "16 \<le> mx"
  shows "heap_ok h 1 16 mx [(65464, False)] (fresh_heap h mx)"
proof -
  have b: "h + j < 2 ^ 64" if "j < 65536" for j using assms(3,4) that by simp
  have e: "W (h + j) = W (h + k) \<longleftrightarrow> j = k" if "j < 65536" "k < 65536" for j k
    using W_eq [OF b b, OF that] by simp
  have "W (h + j) = W h \<longleftrightarrow> j = 0" "W h = W (h + j) \<longleftrightarrow> j = 0" if "j < 65536" for j
    using e [of j 0] e [of 0 j] that by auto
  note e = e this
  have "fresh_heap h mx (W h) = W 1" "fresh_heap h mx (W (h + 8)) = W h" "fresh_heap h mx (W (h + 16)) = W 16"
    "fresh_heap h mx (W (h + 24)) = W mx" "fresh_heap h mx (W (h + 32)) = W (h + 48)" "fresh_heap h mx (W (h + 40)) = 0"
    "fresh_heap h mx (W (h + 48)) = W 65464" "fresh_heap h mx (W (h + 56)) = 0" "fresh_heap h mx (W (h + 64)) = 0"
    "fresh_heap h mx (W (h + 72)) = 0" "fresh_heap h mx (W (h + 65528)) = W 65464"
    by (simp_all add: fresh_heap_def e)
  then show ?thesis using assms by (simp add: heap_ok_def W_0 add.commute [of h])
qed

lemma fresh_4096: "heap_ok 4096 1 16 16 [(65464, False)] (fresh_heap 4096 16)"
  by (rule fresh_heap_ok) simp_all


lemma heap_take_returns:
  assumes "heap_inv h pt pgs mx st" and "n + 23 < 2 ^ 64" and "first_fit (rounded n) (heap_blocks h (hm st)) = Some (k, bs')"
  shows "\<exists>st'. heap_take h n st = Some (h + 48 + k + 16, st') \<and> heap_inv h pt pgs mx st' \<and> heap_blocks h (hm st') = bs'"
proof -
  note ok = assms(1) [unfolded heap_inv_def]
  obtain st' l where a: "heap_alloc (W h) (W n) st = Some (W (h + 48 + k + 16), st')"
    "heap_ok h pt pgs mx bs' (hm st')" "h + 48 + k + 16 + l < h + mx * 4096"
    by (rule heap_alloc_fit [OF ok assms(2,3)]) (rule that)
  have "unat (W (h + 48 + k + 16)) = h + 48 + k + 16" using a(3) heap_okD(3) [OF ok] by (intro unat_W) linarith
  then show ?thesis using a(1,2) heap_blocks [OF a(2)] assms(2,3) by (simp add: heap_take_def heap_inv_def)
qed

text \<open>Requests that the free blocks serve: the allocator of the interface and \<open>heap_alloc\<close> itself
  return the same.\<close>

lemma served:
  assumes "heap_ok h pt pgs mx bs (hm st)" and "\<forall>n \<in> set ns. n + 23 < 2 ^ 64"
    and "run (\<lambda>n. first_fit (rounded n)) ns bs = Some (ks, bs')"
  obtains st' where "run (heap_take h) ns st = Some (map (\<lambda>k. h + 48 + k + 16) ks, st')"
    "run (\<lambda>n. heap_alloc (W h) (W n)) ns st = Some (map W (map (\<lambda>k. h + 48 + k + 16) ks), st')"
    "hvm st' = hvm st" "heap_ok h pt pgs mx bs' (hm st')"
  using assms
proof (induction ns arbitrary: thesis bs st ks)
  case (Cons n ns)
  from Cons.prems(4) obtain k ks' b1 where k: "first_fit (rounded n) bs = Some (k, b1)"
    "run (\<lambda>n. first_fit (rounded n)) ns b1 = Some (ks', bs')" "ks = k # ks'" by (rule run_Cons)
  have n: "n + 23 < 2 ^ 64" "\<forall>n \<in> set ns. n + 23 < 2 ^ 64" using Cons.prems(3) by simp_all
  obtain s1 l where s1: "heap_alloc (W h) (W n) st = Some (W (h + 48 + k + 16), s1)" "hvm s1 = hvm st"
    "heap_ok h pt pgs mx b1 (hm s1)" "h + 48 + k + 16 + l < h + mx * 4096"
    by (rule heap_alloc_fit [OF Cons.prems(2) n(1) k(1)]) (rule that)
  have "unat (W (h + 48 + k + 16)) = h + 48 + k + 16" using s1(4) heap_okD(3) [OF Cons.prems(2)] by (intro unat_W) linarith
  then have t: "heap_take h n st = Some (h + 48 + k + 16, s1)"
    using s1(1) k(1) n(1) by (simp add: heap_take_def heap_blocks [OF Cons.prems(2)])
  obtain st' where st': "run (heap_take h) ns s1 = Some (map (\<lambda>k. h + 48 + k + 16) ks', st')"
    "run (\<lambda>n. heap_alloc (W h) (W n)) ns s1 = Some (map W (map (\<lambda>k. h + 48 + k + 16) ks'), st')"
    "hvm st' = hvm s1" "heap_ok h pt pgs mx bs' (hm st')"
    by (rule Cons.IH [OF _ s1(3) n(2) k(2)]) (rule that)
  show ?case
    by (rule Cons.prems(1) [of st']) (use t s1 st' k(3) in simp_all)
qed simp

text \<open>What it holds after three allocations.\<close>

lemma three_blocks:
  "\<exists>st. run (heap_take 4096) [100, 40, 1000] \<lparr>hm = fresh_heap 4096 16, hvm = v\<rparr> = Some ([4160, 4288, 4352], st) \<and>
     heap_inv 4096 1 16 16 st \<and> heap_blocks 4096 (hm st) = [(104, True), (40, True), (1000, True), (64248, False)]"
proof -
  let ?s = "\<lparr>hm = fresh_heap 4096 16, hvm = v\<rparr>"
  have 0: "heap_blocks 4096 (hm ?s) = [(65464, False)]" "heap_inv 4096 1 16 16 ?s"
    using heap_blocks [OF fresh_4096] fresh_4096 by (simp_all add: heap_inv_def)
  obtain s1 where 1: "heap_take 4096 100 ?s = Some (4160, s1)" "heap_inv 4096 1 16 16 s1"
    "heap_blocks 4096 (hm s1) = [(104, True), (65336, False)]"
    using heap_take_returns [OF 0(2), of 100 0 "[(104, True), (65336, False)]"] 0(1) by (auto simp: rounded_def)
  obtain s2 where 2: "heap_take 4096 40 s1 = Some (4288, s2)" "heap_inv 4096 1 16 16 s2"
    "heap_blocks 4096 (hm s2) = [(104, True), (40, True), (65272, False)]"
    using heap_take_returns [OF 1(2), of 40 128 "[(104, True), (40, True), (65272, False)]"] 1(3) by (auto simp: rounded_def)
  obtain s3 where 3: "heap_take 4096 1000 s2 = Some (4352, s3)" "heap_inv 4096 1 16 16 s3"
    "heap_blocks 4096 (hm s3) = [(104, True), (40, True), (1000, True), (64248, False)]"
    using heap_take_returns [OF 2(2), of 1000 192 "[(104, True), (40, True), (1000, True), (64248, False)]"] 2(3)
    by (auto simp: rounded_def)
  show ?thesis using 1(1) 2(1) 3 by simp
qed

text \<open>C36: the heap allocates first fit.  On a well-formed heap (blocks that tile its pages, each
  with its size and flags, the free ones doubly linked in address order) \<open>heap_alloc\<close> takes the
  first free block that holds the rounded request, splits it when the rest can hold a block, and
  returns its payload; the heap is well formed again and no page is allocated.\<close>

theorem heap_alloc_first_fit:
  assumes "heap_ok h pt pgs mx bs (hm st)" and "n + 23 < 2 ^ 64"
    and "first_fit (rounded n) bs = Some (k, bs')"
  shows "\<exists>st'. heap_alloc (W h) (W n) st = Some (W (h + 48 + k + 16), st') \<and> hvm st' = hvm st \<and>
    heap_ok h pt pgs mx bs' (hm st')"
  by (rule heap_alloc_fit [OF assms]) blast

theorem heap_alloc_first_fit_witness:
  "\<forall>v. \<exists>st'. heap_alloc (W 4096) (W 100) \<lparr>hm = fresh_heap 4096 16, hvm = v\<rparr> = Some (W 4160, st') \<and>
     heap_ok 4096 1 16 16 [(104, True), (65336, False)] (hm st')"
proof
  fix v
  have "first_fit (rounded 100) [(65464, False)] = Some (0, [(104, True), (65336, False)])"
    by (simp add: rounded_def)
  then show "\<exists>st'. heap_alloc (W 4096) (W 100) \<lparr>hm = fresh_heap 4096 16, hvm = v\<rparr> = Some (W 4160, st') \<and>
     heap_ok 4096 1 16 16 [(104, True), (65336, False)] (hm st')"
    using heap_alloc_first_fit [of 4096 1 16 16 "[(65464, False)]" "\<lparr>hm = fresh_heap 4096 16, hvm = v\<rparr>" 100 0] fresh_4096
    by auto
qed

text \<open>C37: allocations never interfere.  For any sequence of requests that the free blocks serve
  first fit (no request makes the heap grow; C38 is about those that do) every \<open>heap_alloc\<close>
  returns the payload of the block first fit chooses: aligned to 16 bytes, at least as large as
  asked for and apart from all others and from those in use before.  What was stored in those has
  not changed, no page is allocated and the heap is well formed.\<close>

theorem heap_allocations_apart:
  assumes "heap_ok h pt pgs mx bs (hm st)" and "\<forall>n \<in> set ns. n + 23 < 2 ^ 64"
    and "run (\<lambda>n. first_fit (rounded n)) ns bs = Some (ks, bs')" and "ps = map (\<lambda>k. h + 48 + k + 16) ks"
  shows "\<exists>st' ls. run (\<lambda>n. heap_alloc (W h) (W n)) ns st = Some (map W ps, st') \<and> hvm st' = hvm st
    \<and> heap_ok h pt pgs mx bs' (hm st')
    \<and> list_all2 (\<le>) ns ls
    \<and> set (payloads (h + 48) bs') = set (payloads (h + 48) bs) \<union> set (zip ps ls)
    \<and> sorted_wrt apart (zip ps ls)
    \<and> (\<forall>x \<in> set (payloads (h + 48) bs). \<forall>y \<in> set (zip ps ls). apart x y)
    \<and> (\<forall>p \<in> set ps. p mod 16 = 0)
    \<and> (\<forall>(q, l) \<in> set (payloads (h + 48) bs). \<forall>x. q \<le> x \<and> x < q + l \<longrightarrow> hm st' (W x) = hm st (W x))"
proof -
  obtain st' where st': "run (heap_take h) ns st = Some (ps, st')"
    "run (\<lambda>n. heap_alloc (W h) (W n)) ns st = Some (map W ps, st')" "hvm st' = hvm st" "heap_ok h pt pgs mx bs' (hm st')"
    by (rule served [OF assms(1-3)]) (rule that; simp add: assms(4))
  have inv: "heap_inv h pt pgs mx st" using assms(1) by (simp add: heap_inv_def heap_blocks [OF assms(1)])
  have u: "heap_used h st = set (payloads (h + 48) bs)" "heap_used h st' = set (payloads (h + 48) bs')"
    using heap_blocks [OF assms(1)] heap_blocks [OF st'(4)] by (simp_all add: heap_used_def)
  obtain ls where ls: "list_all2 (\<le>) ns ls" "heap_used h st' = heap_used h st \<union> set (zip ps ls)"
    "sorted_wrt apart (zip ps ls)" "\<forall>x \<in> heap_used h st. \<forall>y \<in> set (zip ps ls). apart x y"
    using heap.takes_used [OF inv st'(1)] by blast
  have al: "\<forall>p \<in> set ps. p mod 16 = 0" using heap.takes_aligned [OF inv st'(1)] by blast
  have kept: "\<forall>(q, l) \<in> heap_used h st. \<forall>x. q \<le> x \<and> x < q + l \<longrightarrow> hm st' (W x) = hm st (W x)"
    using heap.takes_keeps [OF inv st'(1)] by blast
  show ?thesis
    by (rule exI [of _ st'], rule exI [of _ ls]) (intro conjI st'(2-4) ls [unfolded u] al kept [unfolded u])
qed

theorem heap_allocations_apart_witness:
  "\<forall>v. \<exists>st ls. run (\<lambda>n. heap_alloc (W 4096) (W n)) [100, 40, 1000] \<lparr>hm = fresh_heap 4096 16, hvm = v\<rparr> =
       Some ([W 4160, W 4288, W 4352], st) \<and>
     list_all2 (\<le>) [100, 40, 1000] ls \<and> sorted_wrt apart (zip [4160, 4288, 4352] ls) \<and>
     heap_ok 4096 1 16 16 [(104, True), (40, True), (1000, True), (64248, False)] (hm st)"
proof
  fix v
  let ?s = "\<lparr>hm = fresh_heap 4096 16, hvm = v\<rparr>"
  have ok: "heap_ok 4096 1 16 16 [(65464, False)] (hm ?s)" using fresh_4096 by simp
  have n: "\<forall>n \<in> set [100, 40, 1000 :: nat]. n + 23 < 2 ^ 64" by simp
  have r: "run (\<lambda>n. first_fit (rounded n)) [100, 40, 1000] [(65464, False)] =
      Some ([0, 128, 192], [(104, True), (40, True), (1000, True), (64248, False)])"
    by (simp add: rounded_def)
  have ps: "[4160, 4288, 4352 :: nat] = map (\<lambda>k. 4096 + 48 + k + 16) [0, 128, 192]" by simp
  show "\<exists>st ls. run (\<lambda>n. heap_alloc (W 4096) (W n)) [100, 40, 1000] ?s = Some ([W 4160, W 4288, W 4352], st) \<and>
     list_all2 (\<le>) [100, 40, 1000] ls \<and> sorted_wrt apart (zip [4160, 4288, 4352] ls) \<and>
     heap_ok 4096 1 16 16 [(104, True), (40, True), (1000, True), (64248, False)] (hm st)"
    using heap_allocations_apart [OF ok n r ps] by (simp only: list.map) blast
qed

text \<open>C39: freeing the block at the start of the heap.  It becomes free and is merged with the block
  behind it if that is free; the heap is well formed.\<close>

theorem heap_free_first:
  assumes "heap_ok h pt pgs mx ((s, True) # bs) m"
  shows "\<exists>m'. heap_free (W h) (W (h + 64)) m = Some m' \<and> heap_ok h pt pgs mx (merge_next ((s, True) # bs)) m'"
  using assms by (rule heap_free_first_block)

theorem heap_free_first_witness:
  "\<exists>m m'. heap_ok 4096 1 16 16 [(104, True), (40, True), (1000, True), (64248, False)] m \<and>
     heap_free (W 4096) (W 4160) m = Some m' \<and>
     heap_ok 4096 1 16 16 [(104, False), (40, True), (1000, True), (64248, False)] m'"
proof -
  obtain m where m: "heap_ok 4096 1 16 16 [(104, True), (40, True), (1000, True), (64248, False)] m"
    using three_blocks by (metis heap_inv_def)
  then show ?thesis using heap_free_first [OF m] by auto
qed



end
