(* ===== verification/Growth.thy ===== *)
theory Growth
  imports Allocator
begin

text \<open>
  The growth of the heap.  When no free block serves a request, \<open>grow_heap\<close> maps further pages
  behind the heap, as a new free block or merged into a free last block, and \<open>heap_alloc\<close> takes
  its block from there.  \<open>grow_heap\<close> leaves the link from the last free block to the new one to
  \<open>heap_alloc\<close>; \<open>linked\<close> is the memory with that link.  \<open>grow_heap\<close> finds the last block and the
  last free block from the footers, which must therefore hold their sizes (\<open>tail_footers\<close>).  They
  do when these blocks have at least 24 bytes; the footer of a free block of 8 bytes is overwritten
  by its \<open>prev_fblock\<close> field.
\<close>

section \<open>Growth of the list of blocks\<close>

definition grow_pages :: "nat \<Rightarrow> nat \<Rightarrow> nat \<Rightarrow> nat option" where
  "grow_pages pgs mx r =
     (let P = max 16 ((r + 24 + 4095) div 4096) in
      if mx < pgs + P then (if (mx - pgs) * 4096 < r + 24 then None else Some (mx - pgs)) else Some P)"

fun grow_blocks :: "nat \<Rightarrow> blocks \<Rightarrow> blocks" where
  "grow_blocks P [] = []"
| "grow_blocks P [(s, u)] = (if u then [(s, True), (P * 4096 - 24, False)] else [(s + P * 4096, False)])"
| "grow_blocks P (b # bs) = b # grow_blocks P bs"

lemma grow_blocks_snoc:
  "grow_blocks P (bs @ [(s, u)]) = bs @ (if u then [(s, True), (P * 4096 - 24, False)] else [(s + P * 4096, False)])"
proof (induction bs)
  case (Cons b bs)
  then show ?case by (cases "bs @ [(s, u)]") auto
qed simp

lemma grow_pages_Some:
  assumes "grow_pages pgs mx r = Some P" and "pgs \<le> mx"
  shows "pgs + P \<le> mx" "r + 24 \<le> P * 4096"
proof -
  define Q where "Q = max 16 ((r + 24 + 4095) div 4096)"
  have "r + 24 + 4095 < ((r + 24 + 4095) div 4096) * 4096 + 4096"
    using mod_less_divisor [of 4096 "r + 24 + 4095"] div_mult_mod_eq [of "r + 24 + 4095" 4096] by linarith
  moreover have "((r + 24 + 4095) div 4096) * 4096 \<le> Q * 4096" unfolding Q_def by (intro mult_le_mono1) simp
  ultimately have "r + 24 \<le> Q * 4096" by linarith
  then show "pgs + P \<le> mx" "r + 24 \<le> P * 4096"
    using assms by (auto simp: grow_pages_def Q_def [symmetric] Let_def split: if_splits)
qed

lemma first_fit_grown:
  assumes "first_fit r bs = None" "bs \<noteq> []" "r + 24 \<le> P * 4096"
  obtains pre s where "grow_blocks P bs = pre @ [(s, False)]" "r \<le> s" "\<forall>(t, u) \<in> set pre. u \<or> t < r"
proof -
  obtain pre s u where bs: "bs = pre @ [(s, u)]" using assms(2) by (metis rev_exhaust surj_pair)
  note none = assms(1) [unfolded first_fit_none bs]
  show thesis
  proof (cases u)
    case True
    then have "grow_blocks P bs = (pre @ [(s, True)]) @ [(P * 4096 - 24, False)]" by (simp add: bs grow_blocks_snoc)
    moreover have "r \<le> P * 4096 - 24" using assms(3) by linarith
    moreover have "\<forall>(t, v) \<in> set (pre @ [(s, True)]). v \<or> t < r" using none by auto
    ultimately show thesis by (rule that)
  next
    case False
    then have "grow_blocks P bs = pre @ [(s + P * 4096, False)]" by (simp add: bs grow_blocks_snoc)
    moreover have "r \<le> s + P * 4096" using assms(3) by linarith
    moreover have "\<forall>(t, v) \<in> set pre. v \<or> t < r" using none by auto
    ultimately show thesis by (rule that)
  qed
qed

section \<open>Memory\<close>

lemma zero_mem_outside:
  assumes "x < 2 ^ 64" "b + n < 2 ^ 64" "x < b \<or> b + n \<le> x"
  shows "zero_mem (W b) (W n) m (W x) = m (W x)"
proof -
  have "\<not> W x - W b < W n"
  proof (cases "x < b")
    case True
    have "unat (W x - W b) = 2 ^ 64 + x - b"
      using assms True by (simp add: unat_sub_if' unat_W)
    then show ?thesis using assms True by (simp add: word_less_nat_alt unat_W)
  next
    case False
    then show ?thesis using assms by (simp add: W_sub W_less)
  qed
  then show ?thesis by (simp add: zero_mem_def)
qed

text \<open>The footers the growth reads: those of the last free block and of the blocks behind it.\<close>

fun tail_footers :: "(u64 \<Rightarrow> u64) \<Rightarrow> nat \<Rightarrow> blocks \<Rightarrow> bool" where
  "tail_footers m a [] \<longleftrightarrow> True"
| "tail_footers m a ((s, u) # bs) \<longleftrightarrow>
     ((\<forall>(t, v) \<in> set bs. v) \<longrightarrow> m (W (a + 16 + s)) = W s) \<and> tail_footers m (a + (s + 24)) bs"

lemma tail_footers_snoc:
  "tail_footers m a (bs @ [(s, u)]) \<longleftrightarrow>
     m (W (a + extent bs + 16 + s)) = W s \<and> (u \<longrightarrow> tail_footers m a bs)"
proof (induction m a bs rule: tail_footers.induct)
  case (2 m a t v bs)
  have "a + (t + 24) + extent bs + 16 + s = a + extent ((t, v) # bs) + 16 + s" by simp
  with 2 show ?case by auto
qed simp

lemma tail_footers_cong:
  "(\<And>x. a \<le> x \<Longrightarrow> x < a + extent bs \<Longrightarrow> m' (W x) = m (W x)) \<Longrightarrow> tail_footers m a bs \<Longrightarrow> tail_footers m' a bs"
proof (induction m a bs rule: tail_footers.induct)
  case (2 m a s u bs)
  have "tail_footers m' (a + (s + 24)) bs" by (rule "2.IH") (use "2.prems" in auto)
  then show ?case using "2.prems" by simp
qed simp

lemma tail_footers_large:
  "tiles m a bs \<Longrightarrow> \<forall>(s, u) \<in> set bs. 24 \<le> s \<Longrightarrow> tail_footers m a bs"
  by (induction m a bs rule: tiles.induct) auto

text \<open>The scan of \<open>prev_fblock\<close>.\<close>

lemma prev_fblock_scan:
  assumes "m (W (h + 8)) = W h"
  shows "tiles m (h + 48) bs \<Longrightarrow> tail_footers m (h + 48) bs \<Longrightarrow> h + 48 + extent bs < 2 ^ 64 \<Longrightarrow>
    prev_fblock m (W h) (W (h + 48 + extent bs)) = Some (W (last0 0 (frees (h + 48) bs)))"
proof (induction bs rule: rev_induct)
  case Nil
  then show ?case using assms by (simp add: prev_fblock.simps [of m "W h" "W (h + 48)"] W_0)
next
  case (snoc b bs)
  obtain s u where b: "b = (s, u)" by (cases b)
  let ?a = "h + 48 + extent bs"
  have t: "tiles m (h + 48) bs" "m (W (?a + 8)) = (if u then 1 else 0)" "m (W (?a + 16 + s)) = W s"
    using snoc.prems(1,2) by (simp_all add: b tail_footers_snoc)
  have e: "h + 48 + extent (bs @ [b]) = ?a + 16 + s + 8" by (simp add: b)
  have top: "?a + 16 + s + 8 < 2 ^ 64" using snoc.prems(3) e by simp
  have ne: "W (?a + 16 + s + 8) \<noteq> W (h + 48)" using top by (simp add: W_eq)
  have bf: "W (?a + 16 + s + 8) - sizeof_footer = W (?a + 16 + s)" by (simp add: W_def sizeof_footer_def)
  have pr: "W (?a + 16 + s + 8) - total_bytes m (W (?a + 16 + s)) = W ?a"
  proof -
    have "total_bytes m (W (?a + 16 + s)) = W (s + 24)"
      unfolding total_bytes_def W_fields t(3) by (simp add: sizeof_header_def sizeof_footer_def add.commute [of s])
    then show ?thesis by (simp add: W_def)
  qed
  note step = prev_fblock.simps [of m "W h" "W (?a + 16 + s + 8)", unfolded W_fields assms, unfolded W_fields bf Let_def pr]
  show ?case
  proof (cases u)
    case True
    then have "prev_fblock m (W h) (W (?a + 16 + s + 8)) = prev_fblock m (W h) (W ?a)"
      using step ne t(2) by (simp add: FLAG_ALLOCATED_def)
    also have "\<dots> = Some (W (last0 0 (frees (h + 48) bs)))"
      by (rule snoc.IH) (use t(1) snoc.prems True in \<open>simp_all add: b tail_footers_snoc\<close>)
    finally show ?thesis unfolding e using True by (simp add: b)
  next
    case False
    then have "prev_fblock m (W h) (W (?a + 16 + s + 8)) = Some (W ?a)"
      using step ne t(2) by (simp add: FLAG_ALLOCATED_def)
    then show ?thesis unfolding e using False by (simp add: b)
  qed
qed

section \<open>The pages asked for\<close>

lemma W_div: "a < 2 ^ 64 \<Longrightarrow> W a div 4096 = W (a div 4096)"
  by (rule word_unat_eq_iff [THEN iffD2])
    (use div_le_dividend [of a 4096] in \<open>simp add: unat_div unat_W\<close>)

lemma sint_pages: "P < 2 ^ 31 \<Longrightarrow> sint (ucast (W P) :: u32) = int P"
proof -
  assume P: "P < 2 ^ 31"
  have "(ucast (W P) :: u32) = of_nat P"
    by (rule word_unat_eq_iff [THEN iffD2]) (use P in \<open>simp add: unsigned_ucast_eq unat_W unat_of_nat take_bit_nat_eq_self\<close>)
  then show ?thesis using P by simp
qed

lemma grow_request:
  assumes "r + 24 + 4095 < 2 ^ 64" and "mx * 4096 < 2 ^ 64" and "pgs \<le> mx"
  defines "Q \<equiv> max ALLOC_PAGES ((W (r + 24) + PAGE_SIZE - 1) div PAGE_SIZE)"
  defines "over \<equiv> W pgs + Q > W mx"
  shows "over \<and> (W mx - W pgs) * PAGE_SIZE < W (r + 24) \<longleftrightarrow> grow_pages pgs mx r = None"
    and "grow_pages pgs mx r = Some P \<Longrightarrow> (if over then W mx - W pgs else Q) = W P"
proof -
  let ?q = "max 16 ((r + 24 + 4095) div 4096)"
  have q: "?q < 2 ^ 63" using assms(1) by (simp add: less_mult_imp_div_less)
  have "W (r + 24) + PAGE_SIZE - 1 = W (r + 24 + 4095)" by (simp add: W_def PAGE_SIZE_def)
  then have d: "(W (r + 24) + PAGE_SIZE - 1) div PAGE_SIZE = W ((r + 24 + 4095) div 4096)"
    using W_div [OF assms(1)] by (simp add: PAGE_SIZE_def)
  have b: "(r + 24 + 4095) div 4096 < 2 ^ 64" using q by simp
  have Q: "Q = W ?q"
    unfolding Q_def d ALLOC_PAGES_def max_def using W_le [of 16, OF _ b] by (simp add: W_def)
  have "pgs < 2 ^ 63" using assms(2,3) by simp
  then have "pgs + ?q < 2 ^ 63 + 2 ^ 63" using q by (rule add_strict_mono)
  then have w: "pgs + ?q < 2 ^ 64" "mx < 2 ^ 64" using assms(2) by simp_all
  have over: "over \<longleftrightarrow> mx < pgs + ?q"
    unfolding over_def Q W_add by (rule W_less [OF w(2,1)])
  have s: "W mx - W pgs = W (mx - pgs)" using assms(3) by (rule W_sub)
  have "(mx - pgs) * 4096 \<le> mx * 4096" by simp
  then have "(mx - pgs) * 4096 < 2 ^ 64" "r + 24 < 2 ^ 64" using assms(1,2) by linarith+
  then have m: "(W mx - W pgs) * PAGE_SIZE < W (r + 24) \<longleftrightarrow> (mx - pgs) * 4096 < r + 24"
    using W_mult [of "mx - pgs" 4096] by (simp add: s W_less PAGE_SIZE_def W_def [of 4096])
  show "over \<and> (W mx - W pgs) * PAGE_SIZE < W (r + 24) \<longleftrightarrow> grow_pages pgs mx r = None"
    unfolding m over by (simp add: grow_pages_def Let_def)
  show "grow_pages pgs mx r = Some P \<Longrightarrow> (if over then W mx - W pgs else Q) = W P"
    unfolding over s Q by (simp add: grow_pages_def Let_def split: if_splits)
qed

section \<open>The link left to the caller\<close>

definition linked :: "u64 \<Rightarrow> (u64 \<Rightarrow> u64) \<Rightarrow> u64 \<Rightarrow> u64" where
  "linked fh m = (if m (f_prev fh) = 0 then m else m(f_next (m (f_prev fh)) := fh))"

lemma fun_upd_hidden: "(\<And>y. y \<noteq> x \<Longrightarrow> f y = g y) \<Longrightarrow> f(x := v) = g(x := v)"
  by auto

lemma relink_linked:
  assumes "p \<noteq> 0" and "\<And>y. y \<noteq> f_next p \<Longrightarrow> f y = g y"
  shows "relink heap p nxt u v f = relink heap p nxt u v g"
  using fun_upd_hidden [of "f_next p" f g u, OF assms(2)] assms(1) by (simp add: relink_def)

lemma use_block_linked:
  assumes "m (f_prev fh) \<noteq> 0 \<Longrightarrow> f_next (m (f_prev fh)) \<notin> {b_size fh, f_next fh, f_prev fh}"
  shows "use_block heap fh sz (linked fh m) = use_block heap fh sz m"
proof (cases "m (f_prev fh) = 0")
  case False
  let ?p = "m (f_prev fh)"
  let ?m = "m(f_next ?p := fh)"
  have l: "linked fh m = ?m" using False by (simp add: linked_def)
  have same: "?m (b_size fh) = m (b_size fh)" "?m (f_next fh) = m (f_next fh)" "?m (f_prev fh) = ?p"
    using assms False by auto
  show ?thesis
  proof (cases "m (b_size fh) - sz < 8 + sizeof_header + sizeof_footer")
    case True
    then show ?thesis
      unfolding l use_block_def Let_def same
      by (simp only: if_True) (rule relink_linked [OF False], simp)
  next
    case split: False
    show ?thesis
      unfolding l use_block_split [where m = m, OF split] use_block_split [where m = ?m and fh = fh and sz = sz, unfolded same, OF split]
        Let_def same by (rule relink_linked [OF False]) simp
  qed
qed (simp add: linked_def)

section \<open>The heap after growing\<close>

lemma size_grown: "s mod 16 = 8 \<Longrightarrow> (s + P * 4096) mod 16 = (8 :: nat)"
proof -
  assume "s mod 16 = 8"
  moreover have "s + P * 4096 = s + 16 * (P * 256)" by simp
  ultimately show ?thesis by (simp only: mod_mult_self2)
qed

lemma grow_free_last:
  assumes ok: "heap_ok h pt pgs mx (pre @ [(s, False)]) m" and P: "pgs + P \<le> mx" "0 < P"
    and a: "a = h + 48 + extent pre" and z: "z = s + P * 4096"
    and new: "m' (W a) = W z" "m' (W (a + 16 + z)) = W z" "m' (W (h + 16)) = W (pgs + P)"
    and same: "\<And>x. x < a + (s + 24) \<Longrightarrow> x \<noteq> a \<Longrightarrow> x \<noteq> h + 16 \<Longrightarrow> x \<noteq> a + 16 + z \<Longrightarrow> m' (W x) = m (W x)"
  shows "heap_ok h pt (pgs + P) mx (pre @ [(z, False)]) m'"
proof -
  note D = heap_okD [OF ok]
  have t: "tiles m (h + 48) pre" "s mod 16 = 8" "m (W (a + 8)) = 0" using D(11) by (simp_all add: a)
  have s8: "8 \<le> s" using t(2) by (auto elim: block_size)
  have tp: "tiles m' (h + 48) pre"
    by (rule tiles_cong [OF _ t(1)]) (rule same; simp add: a z)
  have a8: "m' (W (a + 8)) = 0" using same [of "a + 8"] s8 t(3) by (simp add: a z)
  have f: "frees (h + 48) (pre @ [(z, False)]) = frees (h + 48) (pre @ [(s, False)])" by simp
  have "dll m' 0 (frees (h + 48) (pre @ [(s, False)])) 0"
  proof (rule dll_cong [OF _ D(12)])
    fix x assume "x \<in> link_words (frees (h + 48) (pre @ [(s, False)]))"
    then obtain g where g: "g \<in> set (frees (h + 48) (pre @ [(s, False)]))" "x = g + 16 \<or> x = g + 24"
      by (auto simp: link_words_def simp del: frees_append)
    then consider "h + 48 \<le> g" "g + 32 \<le> a" | "g = a"
      using frees_range [of g "h + 48" pre m] t(1) by (auto simp: a)
    then show "m' (W x) = m (W x)"
    proof cases
      case 1
      then show ?thesis using g(2) by (intro same) auto
    next
      case 2
      then have "x = a + 16 \<or> x = a + 24" using g(2) by simp
      then show ?thesis using s8 P(2) by (intro same) (auto simp: a z)
    qed
  qed
  then have dl: "dll m' 0 (frees (h + 48) (pre @ [(z, False)])) 0" unfolding f .
  have hd: "m' (W (h + k)) = m (W (h + k))" if "k \<noteq> 16" "k < 48" for k
    using that by (intro same) (auto simp: a z)
  show ?thesis
    unfolding heap_ok_def
  proof (intro conjI)
    show "48 + extent (pre @ [(z, False)]) = (pgs + P) * 4096" using D(5) by (simp add: z)
    show "tiles m' (h + 48) (pre @ [(z, False)])"
      using tp new(1,2) a8 size_grown [OF t(2)] by (simp add: a z)
    show "m' (W (h + 32)) = W (hd0 (frees (h + 48) (pre @ [(z, False)])) 0)"
      using hd [of 32] D(10) by (simp only: f)
  qed (use D P dl new(3) hd [of 0] hd [of 8] hd [of 24] hd [of 40] in simp_all)
qed

lemma grow_used_last:
  assumes ok: "heap_ok h pt pgs mx bs m" and P: "pgs + P \<le> mx" "0 < P"
    and vn: "vn = h + 48 + extent bs" and t: "t = P * 4096 - 24" and p: "p = last0 0 (frees (h + 48) bs)"
    and new: "m' (W vn) = W t" "m' (W (vn + 8)) = 0" "m' (W (vn + 16)) = 0" "m' (W (vn + 24)) = W p"
      "m' (W (vn + 16 + t)) = W t" "m' (W (h + 16)) = W (pgs + P)"
    and frame: "\<And>x. x < vn \<Longrightarrow> x \<noteq> h + 16 \<Longrightarrow>
      m' (W x) = (if p = 0 \<and> x = h + 32 \<or> p \<noteq> 0 \<and> x = p + 16 then W vn else m (W x))"
  shows "heap_ok h pt (pgs + P) mx (bs @ [(t, False)]) m'"
proof -
  note D = heap_okD [OF ok]
  let ?fs = "frees (h + 48) bs"
  have h16: "(h + 48) mod 16 = 0" using D(2) by presburger
  have rng: "h + 48 \<le> f \<and> f + 32 \<le> vn \<and> f mod 16 = 0" if "f \<in> set ?fs" for f
    using frees_range [OF that D(11)] h16 by (simp add: vn)
  have pp: "p = 0 \<and> ?fs = [] \<or> p \<in> set ?fs \<and> last ?fs = p \<and> ?fs \<noteq> []" by (auto simp: p last0_def)
  then have p0: "p = 0 \<and> ?fs = [] \<or> h + 48 \<le> p \<and> p + 32 \<le> vn" using rng by auto
  have same: "m' (W x) = m (W x)" if "x < vn" "x \<noteq> h + 16" "p = 0 \<longrightarrow> x \<noteq> h + 32" "p \<noteq> 0 \<longrightarrow> x \<noteq> p + 16" for x
    using frame [OF that(1,2)] that(3,4) by auto
  have tb: "tiles m' (h + 48) bs"
  proof (rule tiles_cong [OF _ D(11)])
    fix x assume x: "h + 48 \<le> x" "x < h + 48 + extent bs" "x \<notin> link_words ?fs"
    have "p \<noteq> 0 \<longrightarrow> x \<noteq> p + 16" using x(3) pp by (auto simp: link_words_def)
    then show "m' (W x) = m (W x)" using x by (intro same) (auto simp: vn)
  qed
  have t8: "t mod 16 = 8"
  proof -
    have "t = 16 * (P * 256 - 2) + 8" using P(2) by (simp add: t)
    then show ?thesis by simp
  qed
  have dl: "dll m' 0 ?fs vn"
  proof (cases "?fs = []")
    case False
    then have l: "p \<in> set ?fs" "last ?fs = p" using pp by auto
    have "p \<noteq> 0" using rng [OF l(1)] by simp
    note l = l this
    show ?thesis
    proof (rule dll_next [OF D(12) False _ _ frees_distinct [OF D(11)]])
      show "m' (W (last ?fs + 16)) = W vn" using frame [of "p + 16"] l p0 by auto
      fix x assume x: "x \<in> link_words ?fs" "x \<noteq> last ?fs + 16"
      then have "h + 48 < x \<and> x < vn" using rng by (fastforce simp: link_words_def)
      then show "m' (W x) = m (W x)" using x l by (intro same) auto
    qed (use rng in blast)
  qed simp
  have hd: "m' (W (h + k)) = m (W (h + k))" if "k < 16 \<or> k = 24 \<or> k = 40" for k
    using that p0 by (intro same) (auto simp: vn)
  have fst: "m' (W (h + 32)) = W (hd0 ?fs vn)"
  proof (cases "?fs = []")
    case True
    then show ?thesis using frame [of "h + 32"] pp by (simp add: vn)
  next
    case False
    then have m: "p \<in> set ?fs" using pp by auto
    have l: "h + 48 \<le> p" "p \<noteq> 0" using rng [OF m] by simp_all
    then have "m' (W (h + 32)) = m (W (h + 32))" by (intro same) (auto simp: vn)
    also have "\<dots> = W (hd0 ?fs vn)" using D(10) False by (cases ?fs) simp_all
    finally show ?thesis .
  qed
  show ?thesis
    unfolding heap_ok_def
  proof (intro conjI)
    show "48 + extent (bs @ [(t, False)]) = (pgs + P) * 4096" using D(5) P(2) by (simp add: t)
    show "tiles m' (h + 48) (bs @ [(t, False)])" using tb new(1,2,5) t8 by (simp add: vn)
    show "m' (W (h + 32)) = W (hd0 (frees (h + 48) (bs @ [(t, False)])) 0)" using fst by (simp add: vn)
    show "dll m' 0 (frees (h + 48) (bs @ [(t, False)])) 0"
      using dl new(3,4) by (simp add: vn p W_0)
  qed (use D P new(6) hd [of 0] hd [of 8] hd [of 24] hd [of 40] in simp_all)
qed

section \<open>The code\<close>

text \<open>The part of \<open>grow_heap\<close> before it looks at the last block.\<close>

definition grown_mem :: "nat \<Rightarrow> nat \<Rightarrow> nat \<Rightarrow> (u64 \<Rightarrow> u64) \<Rightarrow> u64 \<Rightarrow> u64" where
  "grown_mem h pgs P m = (zero_mem (W (h + pgs * 4096)) (W (P * 4096)) m)(W (h + 16) := W (pgs + P))"

lemma grown_mem_at:
  assumes "x < h + pgs * 4096" "x \<noteq> h + 16" "h + (pgs + P) * 4096 < 2 ^ 64" "0 < pgs"
  shows "grown_mem h pgs P m (W x) = m (W x)"
proof -
  have e: "h + pgs * 4096 + P * 4096 = h + (pgs + P) * 4096" by (simp add: algebra_simps)
  have b: "h + pgs * 4096 + P * 4096 < 2 ^ 64" using assms(3) e by simp
  have x: "x < 2 ^ 64" "h + 16 < 2 ^ 64" using assms(1,4) b by simp_all
  have "W x \<noteq> W (h + 16)" using W_eq [OF x] assms(2) by simp
  then show ?thesis using zero_mem_outside [OF x(1) b] assms(1) by (simp add: grown_mem_def)
qed

lemma grow_heap_start:
  assumes ok: "heap_ok h pt pgs mx (pre @ [(s, u)]) (hm st)" and ft: "hm st (W (h + 48 + extent pre + 16 + s)) = W s"
    and g: "grow_pages pgs mx r = Some P" and r: "r + 24 + 4095 < 2 ^ 64" and mx: "mx < 2 ^ 31" and pt: "pt < 2 ^ 64"
    and pa: "page_alloc pt (W (h + pgs * 4096)) (int P) (hvm st) = Some (q, v)"
    and vn: "vn = h + pgs * 4096" and a: "a = h + 48 + extent pre" and m1: "m1 = grown_mem h pgs P (hm st)"
  shows "grow_heap (W h) (W r) st = do {
     (fh, m) \<leftarrow>
       (if u then do {
          let m = m1(W vn := W (P * 4096 - 24), W (vn + 8) := 0, W (vn + 16) := 0);
          prev \<leftarrow> prev_fblock m (W h) (W vn);
          let m = m(W (vn + 24) := prev);
          Some (W vn, if m (W (vn + 24)) = 0 then m(W (h + 32) := W vn) else m) }
        else Some (W a, m1(W a := W (s + P * 4096))));
     Some (fh, \<lparr>hm = m(b_size (fh + (m (b_size fh) + sizeof_header)) := m (b_size fh)), hvm = v\<rparr>) }"
proof -
  note D = heap_okD [OF ok]
  have P: "pgs + P \<le> mx" "r + 24 \<le> P * 4096" using grow_pages_Some [OF g D(4)] .
  have pg: "0 < pgs" using D(5) by simp
  have "(pgs + P) * 4096 \<le> mx * 4096" using P(1) by (rule mult_le_mono1)
  then have top: "h + (pgs + P) * 4096 < 2 ^ 64" using D(3) by linarith
  have mx4: "mx * 4096 < 2 ^ 64" using D(3) by linarith
  have vn': "vn = a + 16 + s + 8" using D(5) by (simp add: vn a)
  have last: "hm st (W (a + 16 + s)) = W s" "hm st (W (a + 8)) = (if u then 1 else 0)" "hm st (W a) = W s"
    using D(11) ft by (simp_all add: a)
  have ms: "W r + (sizeof_header + sizeof_footer) = W (r + 24)" by (simp add: W_def sizeof_header_def sizeof_footer_def)
  note rq = grow_request [OF r mx4 D(4)]
  have P4: "W P * PAGE_SIZE = W (P * 4096)" "W pgs * PAGE_SIZE = W (pgs * 4096)"
    using W_mult [of _ 4096] by (simp_all add: PAGE_SIZE_def W_def [of 4096])
  have P31: "sint (ucast (W P) :: u32) = int P" using P(1) mx by (intro sint_pages) linarith
  have v: "W h + W (pgs * 4096) = W vn" by (simp add: vn)
  have ptn: "unat (hm st (W h)) = pt" unfolding D(6) using pt by (rule unat_W)
  have at: "m1 (W x) = hm st (W x)" if "x < vn" "x \<noteq> h + 16" for x
    unfolding m1 by (rule grown_mem_at) (use that top pg vn in simp_all)
  have zm: "zero_mem (W vn) (W (P * 4096)) (hm st) (W (h + 16)) = W pgs"
    using zero_mem_outside [of "h + 16" vn "P * 4096" "hm st"] D(8) top pg by (simp add: vn algebra_simps)
  have m1': "(zero_mem (W vn) (W (P * 4096)) (hm st))(W (h + 16) := W (pgs + P)) = m1"
    by (simp add: m1 grown_mem_def vn)
  have lf: "W vn - sizeof_footer = W (a + 16 + s)" by (simp add: W_def vn' sizeof_footer_def)
  have m1a: "m1 (W (a + 16 + s)) = W s" "m1 (W (a + 8)) = (if u then 1 else 0)" "m1 (W a) = W s"
    using last at [of "a + 16 + s"] at [of "a + 8"] at [of a] by (simp_all add: a vn')
  have lh: "W (a + 16 + s) - W (s + 16) = W a" by (simp add: W_def)
  have sz: "W (P * 4096) - sizeof_header - sizeof_footer = W (P * 4096 - 24)"
    using P(2) by (simp add: W_def sizeof_header_def sizeof_footer_def of_nat_diff)
  have ov: "\<not> ((W pgs + max ALLOC_PAGES ((W (r + 24) + PAGE_SIZE - 1) div PAGE_SIZE) > W mx) \<and>
     (W mx - W pgs) * PAGE_SIZE < W (r + 24))" using rq(1) g by simp
  have ov': "\<not> ((W pgs + max ALLOC_PAGES ((W (r + 24) + PAGE_SIZE - 1) div PAGE_SIZE) > W mx) \<and>
     (if W pgs + max ALLOC_PAGES ((W (r + 24) + PAGE_SIZE - 1) div PAGE_SIZE) > W mx then W mx - W pgs
      else max ALLOC_PAGES ((W (r + 24) + PAGE_SIZE - 1) div PAGE_SIZE)) * PAGE_SIZE < W (r + 24))"
    using ov by auto
  have fl: "m1 (W (a + 8)) AND FLAG_ALLOCATED \<noteq> 0 \<longleftrightarrow> u" using m1a(2) by (simp add: FLAG_ALLOCATED_def)
  show ?thesis
    unfolding grow_heap_def Let_def ms W_fields D(7,8,9) ptn
    unfolding ov' [THEN Eq_FalseI]
    unfolding rq(2) [OF g] P31 P4 v
    by (simp only: if_False pa [folded vn] bind.bind_lunit prod.case W_add zm m1' lf m1a(1,3) lh W_fields fl sz)
qed

lemma dll_last: "dll m p fs n \<Longrightarrow> fs \<noteq> [] \<Longrightarrow> m (W (last fs + 16)) = W n"
  by (induction fs arbitrary: p) (auto split: if_splits)

lemma grow_heap_free:
  assumes ok: "heap_ok h pt pgs mx (pre @ [(s, False)]) (hm st)" and ft: "hm st (W (h + 48 + extent pre + 16 + s)) = W s"
    and g: "grow_pages pgs mx r = Some P" and r: "r + 24 + 4095 < 2 ^ 64" and mx: "mx < 2 ^ 31" and pt: "pt < 2 ^ 64"
    and pa: "page_alloc pt (W (h + pgs * 4096)) (int P) (hvm st) = Some (q, v)"
    and a: "a = h + 48 + extent pre" and p: "p = last0 0 (frees (h + 48) pre)"
  shows "\<exists>m'. grow_heap (W h) (W r) st = Some (W a, \<lparr>hm = m', hvm = v\<rparr>) \<and> m' (W (a + 24)) = W p \<and>
    heap_ok h pt (pgs + P) mx (pre @ [(s + P * 4096, False)]) (linked (W a) m')"
proof -
  note D = heap_okD [OF ok]
  define m1 where "m1 = grown_mem h pgs P (hm st)"
  let ?z = "s + P * 4096"
  let ?m = "m1(W a := W ?z, W (a + 16 + ?z) := W ?z)"
  have P: "pgs + P \<le> mx" "r + 24 \<le> P * 4096" using grow_pages_Some [OF g D(4)] .
  have pg: "0 < pgs" using D(5) by simp
  have "(pgs + P) * 4096 \<le> mx * 4096" using P(1) by (rule mult_le_mono1)
  then have top: "h + (pgs + P) * 4096 < 2 ^ 64" using D(3) by linarith
  have vn: "h + pgs * 4096 = a + (s + 24)" using D(5) by (simp add: a)
  have top': "a + 16 + ?z + 8 < 2 ^ 64" using top vn by simp
  have ff: "W a + W (?z + 16) = W (a + 16 + ?z)" by (simp add: W_def)
  have gh: "grow_heap (W h) (W r) st = Some (W a, \<lparr>hm = ?m, hvm = v\<rparr>)"
    unfolding grow_heap_start [OF ok ft g r mx pt pa refl a m1_def] if_False bind.bind_lunit prod.case W_fields fun_upd_same ff ..
  have at: "?m (W x) = (if x = a + 16 + ?z then W ?z else if x = a then W ?z else m1 (W x))" if "x < 2 ^ 64" for x
  proof -
    have "W x = W a \<longleftrightarrow> x = a" "W x = W (a + 16 + ?z) \<longleftrightarrow> x = a + 16 + ?z"
      using W_eq [OF that, of a] W_eq [OF that, of "a + 16 + ?z"] top' by simp_all
    then show ?thesis by (simp only: fun_upd_apply)
  qed
  have m1: "m1 (W x) = hm st (W x)" if "x < a + (s + 24)" "x \<noteq> h + 16" for x
    unfolding m1_def by (rule grown_mem_at) (use that top pg vn in simp_all)
  have s8: "0 < P" using P(2) by (cases P) auto
  have dl: "dll (hm st) 0 (frees (h + 48) pre) a" "hm st (W (a + 24)) = W p"
    using D(12) by (simp_all add: a p)
  have rng: "h + 48 \<le> p \<and> p + 32 \<le> a" if "p \<noteq> 0"
    using that last0_mem [of 0 "frees (h + 48) pre"] frees_range [of p "h + 48" pre "hm st"] D(11) by (auto simp: p a)
  have s24: "24 \<le> s"
  proof (rule ccontr)
    assume "\<not> 24 \<le> s"
    moreover have "s mod 16 = 8" using D(11) by simp
    ultimately have "s = 8" by presburger
    then have "W p = W 8" using ft dl(2) by (simp add: a)
    moreover have "p < 2 ^ 64" using rng top' by (cases "p = 0") simp_all
    ultimately have "p = 8" using W_eq [of p 8] by simp
    then show False using rng by simp
  qed
  have mp: "?m (W (a + 24)) = W p"
    using at [of "a + 24"] m1 [of "a + 24"] top' dl(2) s24 s8 by (simp add: a)
  have lnk: "hm st (W (p + 16)) = W a" if "p \<noteq> 0"
    using dll_last [OF dl(1)] that by (auto simp: p last0_def split: if_splits)
  have pz: "W p = 0 \<longleftrightarrow> p = 0" using rng top' by (cases "p = 0") (simp_all add: W_0 W_zero)
  have lm: "linked (W a) ?m (W x) = ?m (W x)" if "x < 2 ^ 64" for x
  proof (cases "p = 0")
    case False
    have "?m (W (p + 16)) = W a"
      using at [of "p + 16"] m1 [of "p + 16"] rng lnk False top' by simp
    moreover have "linked (W a) ?m = ?m(W (p + 16) := W a)"
      unfolding linked_def W_fields mp pz using False by (simp only: if_False)
    ultimately show ?thesis by (simp only: fun_upd_idem)
  qed (simp only: linked_def W_fields mp W_0 if_True simp_thms)
  have "heap_ok h pt (pgs + P) mx (pre @ [(?z, False)]) (linked (W a) ?m)"
  proof (rule grow_free_last [OF ok P(1) s8 a refl])
    show "linked (W a) ?m (W a) = W ?z" "linked (W a) ?m (W (a + 16 + ?z)) = W ?z"
      using lm [of a] lm [of "a + 16 + ?z"] at [of a] at [of "a + 16 + ?z"] top' by simp_all
    have "m1 (W (h + 16)) = W (pgs + P)" by (simp add: m1_def grown_mem_def)
    then show "linked (W a) ?m (W (h + 16)) = W (pgs + P)"
      using lm [of "h + 16"] at [of "h + 16"] top' by (simp add: a)
    fix x assume "x < a + (s + 24)" "x \<noteq> a" "x \<noteq> h + 16" "x \<noteq> a + 16 + ?z"
    then show "linked (W a) ?m (W x) = hm st (W x)" using lm [of x] at [of x] m1 [of x] top' by simp
  qed
  then show ?thesis using gh mp by blast
qed

lemma grow_heap_used:
  assumes ok: "heap_ok h pt pgs mx bs (hm st)" and bs: "bs = pre @ [(s, True)]" and big: "tail_footers (hm st) (h + 48) bs"
    and g: "grow_pages pgs mx r = Some P" and r: "r + 24 + 4095 < 2 ^ 64" and mx: "mx < 2 ^ 31" and pt: "pt < 2 ^ 64"
    and pa: "page_alloc pt (W (h + pgs * 4096)) (int P) (hvm st) = Some (q, v)"
    and vn: "vn = h + 48 + extent bs" and p: "p = last0 0 (frees (h + 48) bs)"
  shows "\<exists>m'. grow_heap (W h) (W r) st = Some (W vn, \<lparr>hm = m', hvm = v\<rparr>) \<and> m' (W (vn + 24)) = W p \<and>
    heap_ok h pt (pgs + P) mx (bs @ [(P * 4096 - 24, False)]) (linked (W vn) m')"
proof -
  note D = heap_okD [OF ok]
  define m1 where "m1 = grown_mem h pgs P (hm st)"
  define t where "t = P * 4096 - 24"
  define m2 where "m2 = m1(W vn := W t, W (vn + 8) := 0, W (vn + 16) := 0)"
  define m3 where "m3 = m2(W (vn + 24) := W p)"
  define m4 where "m4 = (if p = 0 then m3(W (h + 32) := W vn) else m3)"
  define m5 where "m5 = m4(W (vn + 16 + t) := W t)"
  have P: "pgs + P \<le> mx" "r + 24 \<le> P * 4096" using grow_pages_Some [OF g D(4)] .
  have P0: "0 < P" using P(2) by (cases P) auto
  have pg: "0 < pgs" using D(5) by simp
  have "(pgs + P) * 4096 \<le> mx * 4096" using P(1) by (rule mult_le_mono1)
  then have top: "h + (pgs + P) * 4096 < 2 ^ 64" using D(3) by linarith
  have vn': "vn = h + pgs * 4096" using D(5) by (simp add: vn)
  have top': "vn + 16 + t + 8 < 2 ^ 64" using top P0 by (simp add: vn' t_def algebra_simps)
  have t8: "4000 \<le> t" using P0 by (simp add: t_def)
  have hv: "h + 48 \<le> vn" by (simp add: vn)
  have rng: "p = 0 \<or> h + 48 \<le> p \<and> p + 32 \<le> vn"
    using last0_mem [of 0 "frees (h + 48) bs"] frees_range [of p "h + 48" bs "hm st"] D(11) by (auto simp: p vn)
  have m1: "m1 (W x) = hm st (W x)" if "x < vn" "x \<noteq> h + 16" for x
    unfolding m1_def by (rule grown_mem_at) (use that top pg vn' in simp_all)
  have e: "W x = W (vn + k) \<longleftrightarrow> x = vn + k" if "x < 2 ^ 64" "k \<le> t + 16" for x k
    by (rule W_eq; use that top' in linarith)
  have m2: "m2 (W x) = m1 (W x)" if "x < vn" for x
    using e [of x 0] e [of x 8] e [of x 16] that top' t8 by (simp add: m2_def)
  have scan: "prev_fblock m2 (W h) (W vn) = Some (W p)"
    unfolding vn p
  proof (rule prev_fblock_scan)
    show "m2 (W (h + 8)) = W h" using m2 [of "h + 8"] m1 [of "h + 8"] hv D(7) by simp
    show "tiles m2 (h + 48) bs" by (rule tiles_cong [OF _ D(11)]) (use m1 m2 vn in simp)
    show "tail_footers m2 (h + 48) bs" by (rule tail_footers_cong [OF _ big]) (use m1 m2 vn in simp)
    show "h + 48 + extent bs < 2 ^ 64" using D(13) .
  qed
  have pz: "W p = 0 \<longleftrightarrow> p = 0" using rng top' by (cases "p = 0") (simp_all add: W_0 W_zero)
  have m4s: "m4 (W vn) = W t"
    using e [of "h + 32" 0] e [of vn 8] e [of vn 16] e [of vn 24] top' t8 hv
    by (simp add: m4_def m3_def m2_def)
  have ff: "W vn + W (t + 16) = W (vn + 16 + t)" by (simp add: W_def)
  have gh: "grow_heap (W h) (W r) st = Some (W vn, \<lparr>hm = m5, hvm = v\<rparr>)"
  proof -
    have ft: "hm st (W (h + 48 + extent pre + 16 + s)) = W s" using big by (simp add: bs tail_footers_snoc)
    show ?thesis
      unfolding grow_heap_start [OF ok [unfolded bs] ft g r mx pt pa vn' refl m1_def] if_True Let_def t_def [symmetric]
        m2_def [symmetric] scan bind.bind_lunit m3_def [symmetric] prod.case
      unfolding m3_def fun_upd_same pz
      unfolding m3_def [symmetric] m4_def [symmetric] m4s W_fields ff m5_def ..
  qed
  have at: "m5 (W x) = (if x = vn + 16 + t then W t else if p = 0 \<and> x = h + 32 then W vn else if x = vn + 24 then W p
      else if x = vn + 16 then 0 else if x = vn + 8 then 0 else if x = vn then W t else m1 (W x))" if "x < 2 ^ 64" for x
  proof -
    have "W x = W (vn + 16 + t) \<longleftrightarrow> x = vn + 16 + t" "W x = W vn \<longleftrightarrow> x = vn" "W x = W (h + 32) \<longleftrightarrow> x = h + 32"
      "W x = W (vn + 8) \<longleftrightarrow> x = vn + 8" "W x = W (vn + 16) \<longleftrightarrow> x = vn + 16" "W x = W (vn + 24) \<longleftrightarrow> x = vn + 24"
      by (rule W_eq; use that top' hv t8 in linarith)+
    note e = this
    show ?thesis
      by (cases "p = 0") (simp_all only: m5_def m4_def m3_def m2_def fun_upd_apply e if_True if_False simp_thms)
  qed
  have mp: "m5 (W (vn + 24)) = W p" using at [of "vn + 24"] top' t8 hv by simp
  have lm: "linked (W vn) m5 (W x) = (if p \<noteq> 0 \<and> x = p + 16 then W vn else m5 (W x))" if "x < 2 ^ 64" for x
  proof (cases "p = 0")
    case False
    have "W x = W (p + 16) \<longleftrightarrow> x = p + 16" using W_eq [OF that, of "p + 16"] rng False top' by simp
    moreover have "linked (W vn) m5 = m5(W (p + 16) := W vn)"
      unfolding linked_def W_fields mp pz using False by (simp only: if_False)
    ultimately show ?thesis using False by (simp only: fun_upd_apply simp_thms not_False_eq_True)
  qed (simp only: linked_def W_fields mp W_0 if_True if_False simp_thms not_True_eq_False)
  have "heap_ok h pt (pgs + P) mx (bs @ [(t, False)]) (linked (W vn) m5)"
  proof (rule grow_used_last [OF ok P(1) P0 vn t_def p])
    show "linked (W vn) m5 (W vn) = W t" "linked (W vn) m5 (W (vn + 8)) = 0" "linked (W vn) m5 (W (vn + 16)) = 0"
      "linked (W vn) m5 (W (vn + 24)) = W p" "linked (W vn) m5 (W (vn + 16 + t)) = W t"
      by (subst lm, use top' in simp, subst at, use top' in simp, use rng hv t8 in auto)+
    have "m1 (W (h + 16)) = W (pgs + P)" by (simp add: m1_def grown_mem_def)
    then show "linked (W vn) m5 (W (h + 16)) = W (pgs + P)"
      using lm [of "h + 16"] at [of "h + 16"] top' rng hv by auto
    fix x assume x: "x < vn" "x \<noteq> h + 16"
    then show "linked (W vn) m5 (W x) = (if p = 0 \<and> x = h + 32 \<or> p \<noteq> 0 \<and> x = p + 16 then W vn else hm st (W x))"
      using lm [of x] at [of x] m1 [OF x] top' by auto
  qed
  then show ?thesis using gh mp unfolding t_def by blast
qed

section \<open>Allocation after growing\<close>

lemma rounded_less: "rounded n \<le> n + 15"
  using div_times_less_eq_dividend [of "n + 23" 16] unfolding rounded_def by linarith

lemma first_fit_at:
  "\<forall>(t, u) \<in> set pre. u \<or> t < r \<Longrightarrow> r \<le> s \<Longrightarrow> first_fit r (pre @ (s, False) # post) =
    Some (extent pre, pre @ (if s - r < 32 then [(s, True)] else [(r, True), (s - r - 24, False)]) @ post)"
  by (induction pre) auto

lemma scan_no_fit:
  assumes ok: "heap_ok h pt pgs mx bs m" and "first_fit r bs = None" and "r < 2 ^ 64"
  shows "scan_free m (W r) (W (hd0 (frees (h + 48) bs) 0)) = Some 0"
proof (rule scan_none [OF heap_okD(12) [OF ok]])
  show "\<forall>f \<in> set (frees (h + 48) bs). 0 < f \<and> f < 2 ^ 64" using frees_word [OF ok] by blast
  show "\<forall>f \<in> set (frees (h + 48) bs). m (W f) < W r"
  proof
    fix f assume "f \<in> set (frees (h + 48) bs)"
    then obtain s where "(s, False) \<in> set bs" "m (W f) = W s" "s \<le> extent bs"
      using free_size [OF heap_okD(11) [OF ok]] by blast
    moreover have "extent bs < 2 ^ 64" using heap_okD(13) [OF ok] by simp
    ultimately show "m (W f) < W r" using assms(2,3) by (auto simp: W_less first_fit_none)
  qed
qed

lemma grow_heap_block:
  assumes ok: "heap_ok h pt pgs mx bs (hm st)" and big: "tail_footers (hm st) (h + 48) bs"
    and none: "first_fit r bs = None"
    and g: "grow_pages pgs mx r = Some P" and r: "r + 24 + 4095 < 2 ^ 64" and mx: "mx < 2 ^ 31" and pt: "pt < 2 ^ 64"
    and pa: "page_alloc pt (W (h + pgs * 4096)) (int P) (hvm st) = Some (q, v)"
  obtains pre s p m' where "grow_blocks P bs = pre @ [(s, False)]" "r \<le> s" "\<forall>(t, u) \<in> set pre. u \<or> t < r"
    "grow_heap (W h) (W r) st = Some (W (h + 48 + extent pre), \<lparr>hm = m', hvm = v\<rparr>)"
    "m' (W (h + 48 + extent pre + 24)) = W p" "p = 0 \<or> 0 < p \<and> p + 32 \<le> h + 48 + extent pre"
    "heap_ok h pt (pgs + P) mx (pre @ [(s, False)]) (linked (W (h + 48 + extent pre)) m')"
proof -
  have D: "48 + extent bs = pgs * 4096" "tiles (hm st) (h + 48) bs" using heap_okD(5,11) [OF ok] by simp_all
  have "bs \<noteq> []"
  proof
    assume "bs = []"
    then have "48 = pgs * 4096" using D(1) by simp
    then show False by (cases pgs) simp_all
  qed
  then obtain pre s u where bs: "bs = pre @ [(s, u)]" by (metis rev_exhaust surj_pair)
  have P: "r + 24 \<le> P * 4096" using grow_pages_Some(2) [OF g heap_okD(4) [OF ok]] .
  have last: "last0 0 (frees (h + 48) xs) = 0 \<or> 0 < last0 0 (frees (h + 48) xs) \<and>
      last0 0 (frees (h + 48) xs) + 32 \<le> h + 48 + extent xs" if "tiles (hm st) (h + 48) xs" for xs
  proof -
    define p where "p = last0 0 (frees (h + 48) xs)"
    have "p = 0 \<or> p \<in> set (frees (h + 48) xs)" using last0_mem [of 0 "frees (h + 48) xs"] by (auto simp: p_def)
    then show ?thesis using frees_range [OF _ that, of p] unfolding p_def [symmetric] by auto
  qed
  show thesis
  proof (cases u)
    case True
    then have b: "bs = pre @ [(s, True)]" using bs by simp
    from grow_heap_used [OF ok b big g r mx pt pa refl refl] obtain m' where
      "grow_heap (W h) (W r) st = Some (W (h + 48 + extent bs), \<lparr>hm = m', hvm = v\<rparr>)"
      "m' (W (h + 48 + extent bs + 24)) = W (last0 0 (frees (h + 48) bs))"
      "heap_ok h pt (pgs + P) mx (bs @ [(P * 4096 - 24, False)]) (linked (W (h + 48 + extent bs)) m')" by blast
    then show thesis
      by (intro that [of bs "P * 4096 - 24" m' "last0 0 (frees (h + 48) bs)"])
        (use P none last [OF D(2)] True in \<open>auto simp: bs grow_blocks_snoc first_fit_none\<close>)
  next
    case False
    then have ok': "heap_ok h pt pgs mx (pre @ [(s, False)]) (hm st)" using ok bs by simp
    have s: "hm st (W (h + 48 + extent pre + 16 + s)) = W s" "tiles (hm st) (h + 48) pre"
      using big D(2) by (auto simp: bs tail_footers_snoc)
    from grow_heap_free [OF ok' s(1) g r mx pt pa refl refl] obtain m' where
      "grow_heap (W h) (W r) st = Some (W (h + 48 + extent pre), \<lparr>hm = m', hvm = v\<rparr>)"
      "m' (W (h + 48 + extent pre + 24)) = W (last0 0 (frees (h + 48) pre))"
      "heap_ok h pt (pgs + P) mx (pre @ [(s + P * 4096, False)]) (linked (W (h + 48 + extent pre)) m')" by blast
    then show thesis
      by (intro that [of pre "s + P * 4096" m' "last0 0 (frees (h + 48) pre)"])
        (use P none last [OF s(2)] False in \<open>auto simp: bs grow_blocks_snoc first_fit_none\<close>)
  qed
qed

text \<open>C38: allocation from a heap without a fitting free block.  \<open>heap_alloc\<close> maps the pages
  \<open>grow_pages\<close> says (at least 16, the request rounded up, or what the limit leaves), adds them to
  the end of the heap as a free block or to a free last block, and serves the request from there,
  first fit; the larger heap is well formed.  The footers of the last free block and of the blocks
  behind it must hold their sizes, as those of blocks of at least 24 bytes do: \<open>grow_heap\<close> reads
  them, and the footer of a free block of 8 bytes is overwritten by its \<open>prev_fblock\<close> field.\<close>

theorem heap_alloc_grows:
  assumes ok: "heap_ok h pt pgs mx bs (hm st)" and big: "tail_footers (hm st) (h + 48) bs"
    and none: "first_fit (rounded n) bs = None" and g: "grow_pages pgs mx (rounded n) = Some P"
    and bounds: "n + 8192 < 2 ^ 64" "mx < 2 ^ 31" "pt < 2 ^ 64"
    and pa: "page_alloc pt (W (h + pgs * 4096)) (int P) (hvm st) = Some (q, v)"
  shows "\<exists>k bs' st'. first_fit (rounded n) (grow_blocks P bs) = Some (k, bs') \<and>
    heap_alloc (W h) (W n) st = Some (W (h + 48 + k + 16), st') \<and> hvm st' = v \<and>
    heap_ok h pt (pgs + P) mx bs' (hm st')"
proof -
  let ?r = "rounded n"
  have r: "?r + 24 + 4095 < 2 ^ 64" "?r < 2 ^ 64" "n + 23 < 2 ^ 64" using bounds(1) rounded_less [of n] by simp_all
  obtain pre s p m' where gb: "grow_blocks P bs = pre @ [(s, False)]" "?r \<le> s" "\<forall>(t, u) \<in> set pre. u \<or> t < ?r"
    "grow_heap (W h) (W ?r) st = Some (W (h + 48 + extent pre), \<lparr>hm = m', hvm = v\<rparr>)"
    "m' (W (h + 48 + extent pre + 24)) = W p" "p = 0 \<or> 0 < p \<and> p + 32 \<le> h + 48 + extent pre"
    "heap_ok h pt (pgs + P) mx (pre @ [(s, False)]) (linked (W (h + 48 + extent pre)) m')"
    by (rule grow_heap_block [OF ok big none g r(1) bounds(2,3) pa]) (rule that)
  let ?a = "h + 48 + extent pre"
  have top: "?a + (s + 24) < 2 ^ 64" using heap_okD(13) [OF gb(7)] by simp
  have nz: "W ?a \<noteq> 0" using top by (simp add: W_zero)
  have pz: "p \<noteq> 0 \<Longrightarrow> W (p + 16) \<noteq> W ?a \<and> W (p + 16) \<noteq> W (?a + 16) \<and> W (p + 16) \<noteq> W (?a + 24)"
    using gb(6) top by (auto simp: W_eq)
  have ub: "use_block (W h) (W ?a) (W ?r) (linked (W ?a) m') = use_block (W h) (W ?a) (W ?r) m'"
    by (rule use_block_linked) (use pz gb(5) in \<open>cases "p = 0"; simp add: W_0\<close>)
  have "scan_free (hm st) (W ?r) (W (hd0 (frees (h + 48) bs) 0)) = Some 0" by (rule scan_no_fit [OF ok none r(2)])
  then have "find_fblock (W h) (W ?r) st = Some (W ?a, \<lparr>hm = m', hvm = v\<rparr>)"
    using gb(4) heap_okD(10) [OF ok] by (simp add: find_fblock_def)
  then have al: "heap_alloc (W h) (W n) st = Some (W (?a + 16), \<lparr>hm = use_block (W h) (W ?a) (W ?r) m', hvm = v\<rparr>)"
    using nz by (simp add: heap_alloc_def round16_W [OF r(3)])
  show ?thesis
    using first_fit_at [OF gb(3,2), of "[]"] al use_block_ok(1) [OF gb(7) refl gb(2) rounded_le(2)]
    unfolding gb(1) ub by auto
qed

theorem heap_alloc_grows_witness:
  "\<exists>db m st'. heap_ok 0x400000000000 1 16 17 [(65464, True)] m \<and>
     heap_alloc (W 0x400000000000) (W 100) \<lparr>hm = m, hvm = demo db\<rparr> = Some (W 0x400000010010, st') \<and>
     heap_ok 0x400000000000 1 17 17 [(65464, True), (104, True), (3944, False)] (hm st')"
proof -
  obtain db where db: "pfdb_inv db [1, 2, 3, 4, 5, 6, 7]" "avail db = 7" by (rule demo_db)
  then obtain v where v: "page_alloc 1 0x400000010000 1 (demo db) = Some (0x400000010000, v)"
    by (rule demo_alloc) (rule that)
  let ?h = "0x400000000000 :: nat"
  have f: "heap_ok ?h 1 16 17 [(65464, False)] (hm \<lparr>hm = fresh_heap ?h 17, hvm = demo db\<rparr>)"
    unfolding hstate.simps by (rule fresh_heap_ok) simp_all
  have ff: "first_fit (rounded 65464) [(65464, False)] = Some (0, [(65464, True)])" by (simp add: rounded_def)
  have n: "65464 + 23 < (2 :: nat) ^ 64" by simp
  have "\<exists>st :: hstate. hvm st = demo db \<and> heap_ok ?h 1 16 17 [(65464, True)] (hm st)"
    by (rule heap_alloc_fit [OF f n ff]) auto
  then obtain st :: hstate where st: "hvm st = demo db" "heap_ok ?h 1 16 17 [(65464, True)] (hm st)" by blast
  have pa: "page_alloc 1 (W (?h + 16 * 4096)) (int 1) (hvm st) = Some (0x400000010000, v)"
    using v st(1) by (simp add: W_def)
  have tf: "tail_footers (hm st) (?h + 48) [(65464, True)]" by (rule tail_footers_large [OF heap_okD(11) [OF st(2)]]) simp
  have "first_fit (rounded 100) (grow_blocks 1 [(65464, True)]) =
      Some (65488, [(65464, True), (104, True), (3944, False)])"
    by (simp add: rounded_def)
  then obtain st' where "heap_alloc (W ?h) (W 100) st = Some (W 0x400000010010, st')"
    "heap_ok ?h 1 17 17 [(65464, True), (104, True), (3944, False)] (hm st')"
    using heap_alloc_grows [OF st(2) tf, of 100 1 "0x400000010000" v] pa by (auto simp: rounded_def grow_pages_def)
  moreover have "st = \<lparr>hm = hm st, hvm = demo db\<rparr>" using st(1) by simp
  ultimately show ?thesis using st(2) by (intro exI [of _ db] exI [of _ "hm st"] exI [of _ st']) simp
qed

text \<open>A heap at its page limit returns the null pointer, and only then: with no fitting free
  block and too few pages left for the rounded request, \<open>heap_alloc\<close> changes nothing.\<close>

lemma heap_alloc_full:
  assumes ok: "heap_ok h pt pgs mx bs (hm st)" and none: "first_fit (rounded n) bs = None"
    and full: "grow_pages pgs mx (rounded n) = None" and n: "n + 8192 < 2 ^ 64"
  shows "heap_alloc (W h) (W n) st = Some (0, st)"
proof -
  let ?r = "rounded n"
  note D = heap_okD [OF ok]
  have r: "?r + 24 + 4095 < 2 ^ 64" "?r < 2 ^ 64" "n + 23 < 2 ^ 64" using n rounded_less [of n] by simp_all
  have mx4: "mx * 4096 < 2 ^ 64" using D(3) by linarith
  have ms: "W ?r + (sizeof_header + sizeof_footer) = W (?r + 24)" by (simp add: W_def sizeof_header_def sizeof_footer_def)
  have "grow_heap (W h) (W ?r) st = Some (0, st)"
    using grow_request(1) [OF r(1) mx4 D(4)] full unfolding grow_heap_def Let_def ms W_fields D(8,9) by simp
  moreover have "scan_free (hm st) (W ?r) (W (hd0 (frees (h + 48) bs) 0)) = Some 0" by (rule scan_no_fit [OF ok none r(2)])
  ultimately have "find_fblock (W h) (W ?r) st = Some (0, st)" using D(10) by (simp add: find_fblock_def)
  then show ?thesis by (simp add: heap_alloc_def round16_W [OF r(3)])
qed

end
