(* ===== verification/KmemMap.thy ===== *)
theory KmemMap
  imports Vspace "HOL-Library.Sublist"
begin

text \<open>
  The kernel's page table (\<^verbatim>\<open>kernel/mem/kmem.c\<close>).  A page of 4 KiB, 2 MiB or 1 GiB is a path of
  4, 3 or 2 indices; disjoint pages have paths of which none is a prefix of another.
  \<open>kmapped P tab D s\<close> says that the page table \<open>s\<close> maps exactly the pages in \<open>D\<close>, where \<open>P\<close> are
  the paths of all pages still to come, and that its tables lie one behind the other in the
  memory reserved for them.
\<close>

section \<open>Paths of pages\<close>

text \<open>Field \<open>k\<close> of the number of a 4 KiB frame, and the path of the page of size \<open>4096 * 512 ^ n\<close>
  that begins at a frame.\<close>

definition field :: "nat \<Rightarrow> nat \<Rightarrow> nat" where "field k f = f div 512 ^ k mod 512"

definition path :: "nat \<Rightarrow> nat \<Rightarrow> u64 list" where "path n f = take (4 - n) (ixs (frame_addr f))"

lemma word_field: "x AND 0x1ff = (take_bit 9 x :: u64)"
  by (simp add: take_bit_eq_mask mask_eq_exp_minus_1)

lemma frame_field:
  assumes "f < 2 ^ 32" "k \<le> 3"
  shows "take_bit 9 (drop_bit (12 + 9 * k) (frame_addr f)) = of_nat (field k f)"
proof (rule word_unat_eq_iff [THEN iffD2])
  have "unat (frame_addr f) div 2 ^ (12 + 9 * k) = f div 512 ^ k"
  proof -
    have "(2::nat) ^ (12 + 9 * k) = 4096 * 512 ^ k" by (simp add: power_add power_mult)
    then show ?thesis by (simp add: unat_frame [OF assms(1)] div_mult2_eq)
  qed
  moreover have "field k f < 512" by (simp add: field_def)
  moreover have "unat (take_bit 9 (drop_bit j w)) = unat w div 2 ^ j mod 512" for j and w :: u64
    unfolding unsigned_take_bit_eq unat_drop_bit_eq by (simp add: take_bit_eq_mod drop_bit_eq_div)
  ultimately show "unat (take_bit 9 (drop_bit (12 + 9 * k) (frame_addr f))) = unat (of_nat (field k f) :: u64)"
    by (simp add: unat_of_nat field_def)
qed

lemma ixs_frame:
  assumes "f < 2 ^ 32"
  shows "ixs (frame_addr f) = map (\<lambda>k. of_nat (field k f)) [3, 2, 1, 0]"
  using frame_field [OF assms, of 3] frame_field [OF assms, of 2] frame_field [OF assms, of 1]
    frame_field [OF assms, of 0]
  by (simp add: ixs_def PML4E_def PDPTE_def PDE_def PTE_def PGMASK_ENTRY_def word_field)

lemma field_eq: "(of_nat (field k f) :: u64) = of_nat (field k g) \<longleftrightarrow> field k f = field k g"
  by (rule of_nat_inj64) (simp_all add: field_def less_trans [OF mod_less_divisor])

text \<open>The leading fields determine the number of the page.\<close>

lemma fields_div:
  assumes "f < 2 ^ 32" "g < 2 ^ 32" "n \<le> 3" and "\<And>k. n \<le> k \<Longrightarrow> k \<le> 3 \<Longrightarrow> field k f = field k g"
  shows "f div 512 ^ n = g div 512 ^ n"
  using assms(3,4)
proof (induction n rule: inc_induct)
  case base
  have "f div 512 ^ 3 < 512" "g div 512 ^ 3 < 512" using assms(1,2) by (simp_all add: less_mult_imp_div_less)
  then show ?case using base [of 3] by (simp add: field_def)
next
  case (step n)
  have "f div 512 ^ Suc n = g div 512 ^ Suc n" using step by simp
  then have "f div 512 ^ n div 512 = g div 512 ^ n div 512" by (simp only: power_Suc2 div_mult2_eq)
  moreover have "f div 512 ^ n mod 512 = g div 512 ^ n mod 512"
    using step.prems [of n] step.hyps by (simp add: field_def)
  ultimately show ?case by (metis div_mult_mod_eq)
qed

lemma path_length: "n \<le> 3 \<Longrightarrow> length (path n f) = 4 - n"
  by (simp add: path_def ixs_def)

lemma path_bound: "e \<in> set (path n f) \<Longrightarrow> e < 512"
  using ixs_bound [of e "frame_addr f"] by (auto simp: path_def dest: in_set_takeD)

lemma path_prefix:
  assumes "f < 2 ^ 32" "g < 2 ^ 32" "n \<le> 2" "prefix (path n f) (path k g)" "k \<le> 2"
  shows "k \<le> n" "f div 512 ^ n = g div 512 ^ n"
proof -
  have "4 - n \<le> 4 - k" using prefix_length_le [OF assms(4)] assms(3,5) by (simp add: path_length)
  then show kn: "k \<le> n" using assms(3) by linarith
  obtain zs where zs: "path k g = path n f @ zs" using assms(4) by (rule prefixE)
  have "path n f = take (4 - n) (path k g)" unfolding zs using assms(3) by (simp add: path_length)
  also have "\<dots> = path n g" using kn by (simp add: path_def min_def)
  finally have "take (4 - n) (ixs (frame_addr f)) = take (4 - n) (ixs (frame_addr g))" by (simp add: path_def)
  note eq = this [unfolded ixs_frame [OF assms(1)] ixs_frame [OF assms(2)]]
  show "f div 512 ^ n = g div 512 ^ n"
  proof (rule fields_div [OF assms(1,2)])
    fix j assume j: "n \<le> j" "j \<le> 3"
    have "map (\<lambda>k. of_nat (field k f) :: u64) [3, 2, 1, 0] ! (3 - j) = map (\<lambda>k. of_nat (field k g)) [3, 2, 1, 0] ! (3 - j)"
      using arg_cong [OF eq, of "\<lambda>xs. xs ! (3 - j)"] j by simp
    moreover have "[3, 2, 1, 0 :: nat] ! (3 - j) = j" using j(2) by (auto simp: le_Suc_eq numeral_3_eq_3)
    ultimately have "(of_nat (field j f) :: u64) = of_nat (field j g)" by (simp only: nth_map list.size) (simp add: field_eq)
    then show "field j f = field j g" by (simp add: field_eq)
  qed (use assms(3) in simp)
qed

text \<open>The frames of a page, and pages that do not overlap.\<close>

definition frames_of :: "nat \<times> nat \<Rightarrow> nat set" where "frames_of = (\<lambda>(n, f). {f..<f + 512 ^ n})"

definition page_ok :: "nat \<times> nat \<Rightarrow> bool" where
  "page_ok = (\<lambda>(n, f). n \<le> 2 \<and> 512 ^ n dvd f \<and> f < 2 ^ 32)"

lemma pages_antichain:
  assumes "page_ok (n, f)" "page_ok (k, g)" "frames_of (n, f) \<inter> frames_of (k, g) = {}"
  shows "\<not> prefix (path n f) (path k g)"
proof
  assume "prefix (path n f) (path k g)"
  from path_prefix [OF _ _ _ this] assms(1,2) have "k \<le> n" "f div 512 ^ n = g div 512 ^ n" by (auto simp: page_ok_def)
  moreover have "f = f div 512 ^ n * 512 ^ n" using assms(1) by (simp add: page_ok_def)
  moreover have "g div 512 ^ n * 512 ^ n \<le> g" by simp
  moreover have "g < g div 512 ^ n * 512 ^ n + 512 ^ n" using dividend_less_div_times [of "512 ^ n" g] by simp
  ultimately have "f \<le> g" "g < f + 512 ^ n" by simp_all
  then have "g \<in> frames_of (n, f) \<inter> frames_of (k, g)" by (simp add: frames_of_def)
  then show False using assms(3) by blast
qed

section \<open>The invariant\<close>

text \<open>The tables pages need, by their paths.\<close>

definition tables_for :: "u64 list set \<Rightarrow> u64 list set" where
  "tables_for P = insert [] {xs. \<exists>ys \<in> P. strict_prefix xs ys}"

definition antichain :: "u64 list set \<Rightarrow> bool" where
  "antichain P \<longleftrightarrow> (\<forall>xs \<in> P. \<forall>ys \<in> P. prefix xs ys \<longrightarrow> xs = ys) \<and>
     (\<forall>xs \<in> P. 2 \<le> length xs \<and> length xs \<le> 4 \<and> (\<forall>e \<in> set xs. e < 512)) \<and> finite (tables_for P) \<and> card (tables_for P) \<le> 80"

definition valid :: "u64 list \<Rightarrow> bool" where "valid es \<longleftrightarrow> length es = 4 \<and> (\<forall>e \<in> set es. e < 512)"

definition kmapped :: "u64 list set \<Rightarrow> tables \<Rightarrow> (u64 list \<Rightarrow> u64 option) \<Rightarrow> pagetable \<times> pmem \<Rightarrow> bool" where
  "kmapped P tab D = (\<lambda>(pt, m).
     proot pt = KMEM_KERNEL_PAGETABLE \<and> vterm pt = KMEM_KERNEL_PAGETABLE_END \<and>
     vnext pt = frame_addr (32 + card (dom tab)) \<and>
     tree m tab {} \<and> tab [] = Some (proot pt) \<and> dom tab \<subseteq> tables_for P \<and> dom D \<subseteq> P \<and>
     (\<forall>p \<in> ran tab. p < vnext pt) \<and>
     (\<forall>p e. aligned p \<and> vnext pt \<le> p \<and> p < vterm pt \<and> e < 512 \<longrightarrow> get_entry m p e = 0) \<and>
     (\<forall>xs p e. tab xs = Some p \<and> e < 512 \<and> tab (xs @ [e]) = None \<and> D (xs @ [e]) = None \<longrightarrow> get_entry m p e = 0) \<and>
     (\<forall>es ys v. valid es \<and> D ys = Some v \<and> prefix ys es \<longrightarrow> lwalk m (proot pt) es = Some (4 - length ys, v)) \<and>
     (\<forall>es. valid es \<and> (\<forall>ys \<in> dom D. \<not> prefix ys es) \<longrightarrow> lwalk m (proot pt) es = None))"

lemma kmappedD:
  assumes "kmapped P tab D (pt, m)"
  shows "proot pt = KMEM_KERNEL_PAGETABLE" "vterm pt = KMEM_KERNEL_PAGETABLE_END"
    "vnext pt = frame_addr (32 + card (dom tab))"
    "tree m tab {}" "tab [] = Some (proot pt)" "dom tab \<subseteq> tables_for P" "dom D \<subseteq> P"
    "p \<in> ran tab \<Longrightarrow> p < vnext pt"
    "aligned p \<Longrightarrow> vnext pt \<le> p \<Longrightarrow> p < vterm pt \<Longrightarrow> e < 512 \<Longrightarrow> get_entry m p e = 0"
    "tab xs = Some p \<Longrightarrow> e < 512 \<Longrightarrow> tab (xs @ [e]) = None \<Longrightarrow> D (xs @ [e]) = None \<Longrightarrow> get_entry m p e = 0"
    "valid es \<Longrightarrow> D ys = Some v \<Longrightarrow> prefix ys es \<Longrightarrow> lwalk m (proot pt) es = Some (4 - length ys, v)"
    "valid es \<Longrightarrow> (\<And>ys. ys \<in> dom D \<Longrightarrow> \<not> prefix ys es) \<Longrightarrow> lwalk m (proot pt) es = None"
  using assms unfolding kmapped_def by blast+

section \<open>Following or creating a table\<close>

lemma frame_less: "f < 2 ^ 32 \<Longrightarrow> g < 2 ^ 32 \<Longrightarrow> frame_addr f < frame_addr g \<longleftrightarrow> f < g"
  by (simp add: word_less_nat_alt unat_frame)

lemma frame_le: "f < 2 ^ 32 \<Longrightarrow> g < 2 ^ 32 \<Longrightarrow> frame_addr f \<le> frame_addr g \<longleftrightarrow> f \<le> g"
  by (simp add: word_le_nat_alt unat_frame)

lemma frame_next: "f + n < 2 ^ 32 \<Longrightarrow> frame_addr f + PAGE_SIZE * of_nat n = frame_addr (f + n)"
  by (simp add: frame_addr_def push_bit_eq_mult PAGE_SIZE_def algebra_simps)

lemma kmem_frames: "KMEM_KERNEL_PAGETABLE = frame_addr 32" "KMEM_KERNEL_PAGETABLE_END = frame_addr 112"
  by (simp_all add: KMEM_KERNEL_PAGETABLE_def KMEM_KERNEL_PAGETABLE_END_def frame_addr_def push_bit_eq_mult)

lemma kernel_link:
  assumes "f < 2 ^ 32"
  shows "links_to (frame_addr f OR PF_SYSTEM OR PF_PRESENT OR PF_RW) (frame_addr f)"
proof -
  have "PF_SYSTEM OR PF_PRESENT OR PF_RW = PF_PRESENT OR PF_RW OR PF_SYSTEM" by (simp add: or.assoc or.commute or.left_commute)
  have sys: "bit PF_SYSTEM n \<longleftrightarrow> n = 9" for n
    using bit_exp_iff [where ?'a = "64 word", of 9 n] by (auto simp: PF_SYSTEM_def dest: bit_imp_le_length)
  have "bit (frame_addr f OR PF_SYSTEM OR PF_PRESENT OR PF_RW) n \<longleftrightarrow> bit (frame_addr f) n \<or> n = 9 \<or> n < 2" for n
    unfolding flags_mask by (auto simp: bit_or_iff bit_mask_iff sys)
  note b = this bit_frame [OF assms]
  have "present (frame_addr f OR PF_SYSTEM OR PF_PRESENT OR PF_RW)"
    "(frame_addr f OR PF_SYSTEM OR PF_PRESENT OR PF_RW) AND PF_PS = 0"
    by (simp_all only: present_def flag_bits b) simp_all
  moreover have "table_addr (frame_addr f OR PF_SYSTEM OR PF_PRESENT OR PF_RW) = frame_addr f"
    unfolding table_addr_def flags_mask(3) by (rule bit_word_eqI) (auto simp: bit_and_iff bit_not_iff bit_mask_iff b)
  moreover have "PGPTR (frame_addr f OR PF_SYSTEM OR PF_PRESENT OR PF_RW) = frame_addr f"
    unfolding PGPTR_def flags_mask(2) by (rule bit_word_eqI) (auto simp: bit_and_iff bit_not_iff bit_mask_iff b)
  ultimately show ?thesis by (simp add: links_to_def)
qed

lemma card_tables:
  assumes P: "antichain P" and sub: "dom tab \<subseteq> tables_for P"
  shows "finite (dom tab)" "card (dom tab) \<le> 80" "x \<in> tables_for P \<Longrightarrow> x \<notin> dom tab \<Longrightarrow> card (dom tab) < 80"
proof -
  have f: "finite (tables_for P)" "card (tables_for P) \<le> 80" using P by (simp_all add: antichain_def)
  show "finite (dom tab)" using f(1) sub by (rule rev_finite_subset)
  show "card (dom tab) \<le> 80" using card_mono [OF f(1) sub] f(2) by simp
  assume "x \<in> tables_for P" "x \<notin> dom tab"
  then have "dom tab \<subset> tables_for P" using sub by blast
  then show "card (dom tab) < 80" using psubset_card_mono [OF f(1)] f(2) by (meson less_le_trans)
qed

lemma need_table_kmapped:
  assumes P: "antichain P" and k: "kmapped P tab D (pt, m)" and xs: "tab xs = Some page"
    and ys: "ys \<in> P" "strict_prefix (xs @ [e]) ys"
  obtains q pt' m' tab' where "need_table page e (pt, m) = Some (q, pt', m')" "kmapped P tab' D (pt', m')"
    "tab' (xs @ [e]) = Some q"
proof -
  note K = kmappedD [OF k]
  note t = K(4)
  have in_S: "xs @ [e] \<in> tables_for P" using ys by (auto simp: tables_for_def)
  obtain zs where zs: "ys = (xs @ [e]) @ zs" "zs \<noteq> []" using ys(2) by (auto simp: strict_prefix_def prefix_def)
  have "length ys \<le> 4" "\<forall>e \<in> set ys. e < 512" using P ys(1) by (auto simp: antichain_def)
  then have len: "length xs < 3" and e: "e < 512" using zs by (cases zs; simp)+
  have nD: "D (xs @ [e]) = None"
  proof (rule ccontr)
    assume "D (xs @ [e]) \<noteq> None"
    then have "xs @ [e] \<in> P" using K(7) by auto
    then show False using P ys by (auto simp: antichain_def strict_prefix_def)
  qed
  show thesis
  proof (cases "tab (xs @ [e])")
    case (Some r)
    with t obtain p where "tab xs = Some p" "links_to (get_entry m p e) r" by (rule tree_link)
    then have "get_entry m page e \<noteq> 0" "PGPTR (get_entry m page e) = r"
      using xs by (auto simp: links_to_def present_def)
    then show thesis using that [of r pt m tab] k Some by (simp add: need_table_def)
  next
    case None
    define c where "c = 32 + card (dom tab)"
    define a where "a = frame_addr c"
    let ?v = "a OR PF_SYSTEM OR PF_PRESENT OR PF_RW"
    let ?m = "set_entry page e ?v m" and ?tab = "tab(xs @ [e] \<mapsto> a)" and ?pt = "pt\<lparr>vnext := vnext pt + PAGE_SIZE\<rparr>"
    have z: "get_entry m page e = 0" by (rule K(10) [OF xs e None nD])
    have cl: "c < 112" using card_tables(3) [OF P K(6) in_S] None by (auto simp: c_def)
    then have c32: "c < 2 ^ 32" "Suc c < 2 ^ 32" by simp_all
    have vn: "vnext pt = a" using K(3) by (simp add: a_def c_def)
    have lt: "vnext pt < vterm pt" unfolding vn K(2) kmem_frames(2) a_def using cl by (subst frame_less) simp_all
    have nr: "a \<notin> ran tab" using K(8) [of a] vn by auto
    have al: "aligned a" unfolding a_def by (rule frame_aligned [OF c32(1)])
    have pal: "aligned page" by (rule treeD(1) [OF t xs])
    have ln: "links_to ?v a" unfolding a_def by (rule kernel_link [OF c32(1)])
    have at: "get_entry ?m p f = (if p = page \<and> f = e then ?v else get_entry m p f)" if "aligned p" "f < 512" for p f
      by (rule get_set_entry [OF that(1) pal that(2) e])
    have nz: "get_entry m a f = 0" if "f < 512" for f using K(9) [OF al _ _ that] lt vn by simp
    have np: "\<not> present (get_entry m page e)" "\<And>f. f < 512 \<Longrightarrow> \<not> present (get_entry m a f)"
      using z nz by (simp_all add: present_def)
    have fo: "\<not> foreign {} zs" for zs by (simp add: foreign_def)
    note add = tree_add [OF t xs e len fo np(1) al nr np(2) ln]
    have q: "PGPTR (get_entry ?m page e) = a" using at [OF pal e] ln by (simp add: links_to_def)
    have nt: "need_table page e (pt, m) = Some (a, ?pt, ?m)"
      using lt vn z q by (simp add: need_table_def alloc_page_def Let_def not_le)
    have cd: "card (dom ?tab) = Suc (card (dom tab))"
      using card_tables(1) [OF P K(6)] None by (simp add: domIff card_insert_if)
    have vS: "vnext ?pt = frame_addr (Suc c)" using frame_next [of c 1] c32 by (simp add: vn a_def)
    have vn': "vnext ?pt = frame_addr (32 + card (dom ?tab))"
      unfolding cd using frame_next [of c 1] c32 by (simp add: vn a_def c_def)
    have pa: "page \<noteq> a" using nr xs by (auto simp: ranI)
    have wk: "lwalk ?m (proot pt) es = lwalk m (proot pt) es" if "valid es" for es
      by (rule add(2) [OF _ K(5) _ _ fo]) (use that in \<open>auto simp: valid_def\<close>)
    have "kmapped P ?tab D (?pt, ?m)"
      unfolding kmapped_def prod.case
    proof (intro conjI)
      show "tree ?m ?tab {}" by (rule add(1))
      show "vnext ?pt = frame_addr (32 + card (dom ?tab))" by (rule vn')
      show "dom ?tab \<subseteq> tables_for P" using K(6) in_S by simp
      have "ran ?tab = insert a (ran tab)" using None by (simp add: ran_map_upd)
      moreover have "a < vnext ?pt" unfolding vS a_def by (subst frame_less) (use c32 in simp_all)
      ultimately show "\<forall>p \<in> ran ?tab. p < vnext ?pt" using K(8) vn by (auto intro: less_trans)
      show "\<forall>p f. aligned p \<and> vnext ?pt \<le> p \<and> p < vterm ?pt \<and> f < 512 \<longrightarrow> get_entry ?m p f = 0"
      proof (intro allI impI, elim conjE)
        fix p f assume p: "aligned p" "vnext ?pt \<le> p" "p < vterm ?pt" "f < (512 :: u64)"
        have "vnext pt < vnext ?pt" using \<open>a < vnext ?pt\<close> vn by simp
        then have "vnext pt \<le> p" using p(2) by auto
        moreover have "page < vnext pt" using K(8) xs by (auto simp: ranI)
        ultimately show "get_entry ?m p f = 0" using at [OF p(1,4)] K(9) [OF p(1) _ _ p(4)] p(3) by auto
      qed
      show "\<forall>ws p f. ?tab ws = Some p \<and> f < 512 \<and> ?tab (ws @ [f]) = None \<and> D (ws @ [f]) = None \<longrightarrow> get_entry ?m p f = 0"
      proof (intro allI impI, elim conjE)
        fix ws p f assume w: "?tab ws = Some p" "f < (512 :: u64)" "?tab (ws @ [f]) = None" "D (ws @ [f]) = None"
        show "get_entry ?m p f = 0"
        proof (cases "ws = xs @ [e]")
          case True
          then have "p = a" using w(1) by simp
          then show ?thesis using at [OF al w(2)] nz [OF w(2)] pa by auto
        next
          case False
          then have y: "tab ws = Some p" using w(1) by simp
          have n: "tab (ws @ [f]) = None" using w(3) by (simp split: if_splits)
          have "\<not> (p = page \<and> f = e)" using treeD(5) [OF t xs] y w(3) by auto
          then show ?thesis using at [OF treeD(1) [OF t y] w(2)] K(10) [OF y w(2) n w(4)] by auto
        qed
      qed
    qed (use K wk in auto)
    then show thesis using that [OF nt] by simp
  qed
qed

section \<open>Mapping a page\<close>

lemma kmapped_write:
  assumes P: "antichain P" and k: "kmapped P tab D (pt, m)" and xs: "tab xs = Some p"
    and ys: "xs @ [e] \<in> P" and v: "present v" "is_leaf (3 - length xs) v"
  shows "kmapped P tab (D(xs @ [e] \<mapsto> v)) (pt, set_entry p e v m)"
proof -
  note K = kmappedD [OF k]
  note t = K(4)
  let ?m = "set_entry p e v m" and ?D = "D(xs @ [e] \<mapsto> v)"
  have e: "e < 512" and len: "length xs \<le> 3" using P ys by (auto simp: antichain_def)
  have n: "tab (xs @ [e]) = None"
  proof (rule ccontr)
    assume "tab (xs @ [e]) \<noteq> None"
    then have "xs @ [e] \<in> tables_for P" using K(6) by auto
    then obtain zs where "zs \<in> P" "strict_prefix (xs @ [e]) zs" by (auto simp: tables_for_def)
    then show False using P ys by (auto simp: antichain_def strict_prefix_def)
  qed
  have st: "stops (3 - length xs) v" using v by (simp add: stops_def)
  have pal: "aligned p" by (rule treeD(1) [OF t xs])
  have at: "get_entry ?m q f = (if q = p \<and> f = e then v else get_entry m q f)" if "aligned q" "f < 512" for q f
    by (rule get_set_entry [OF that(1) pal that(2) e])
  have wk: "lwalk ?m (proot pt) es = (if prefix (xs @ [e]) es then Some (3 - length xs, v) else lwalk m (proot pt) es)"
    if es: "valid es" for es
  proof -
    have "prefix (xs @ [e]) es \<longleftrightarrow> take (Suc (length xs)) es = xs @ [e]"
      using len es by (metis length_append_singleton take_is_prefix prefix_def append_eq_conv_conj)
    then show ?thesis
      using lwalk_write [OF t xs e n st K(5), of es] es v(1) by (simp add: valid_def foreign_def leaf_of_def)
  qed
  have comp: "zs = xs @ [e]" if "zs \<in> P" "prefix zs es" "prefix (xs @ [e]) es" for zs es
    using P ys that prefix_same_cases [of zs es "xs @ [e]"] unfolding antichain_def by blast
  show ?thesis
    unfolding kmapped_def prod.case
  proof (intro conjI)
    show "tree ?m tab {}" by (rule tree_write [OF t xs e n st])
    show "dom ?D \<subseteq> P" using K(7) ys by simp
    show "\<forall>q f. aligned q \<and> vnext pt \<le> q \<and> q < vterm pt \<and> f < 512 \<longrightarrow> get_entry ?m q f = 0"
    proof (intro allI impI, elim conjE)
      fix q f assume q: "aligned q" "vnext pt \<le> q" "q < vterm pt" "f < (512 :: u64)"
      have "p < vnext pt" using K(8) xs by (auto simp: ranI)
      then have "q \<noteq> p" using q(2) by auto
      then show "get_entry ?m q f = 0" using at [OF q(1,4)] K(9) [OF q] by simp
    qed
    show "\<forall>ws q f. tab ws = Some q \<and> f < 512 \<and> tab (ws @ [f]) = None \<and> ?D (ws @ [f]) = None \<longrightarrow> get_entry ?m q f = 0"
    proof (intro allI impI, elim conjE)
      fix ws q f assume w: "tab ws = Some q" "f < (512 :: u64)" "tab (ws @ [f]) = None" "?D (ws @ [f]) = None"
      have D: "ws @ [f] \<noteq> xs @ [e]" "D (ws @ [f]) = None" using w(4) by (simp_all split: if_splits)
      have "\<not> (q = p \<and> f = e)" using treeD(5) [OF t xs] w(1) D(1) by auto
      then show "get_entry ?m q f = 0" using at [OF treeD(1) [OF t w(1)] w(2)] K(10) [OF w(1-3) D(2)] by auto
    qed
    show "\<forall>es zs w. valid es \<and> ?D zs = Some w \<and> prefix zs es \<longrightarrow> lwalk ?m (proot pt) es = Some (4 - length zs, w)"
    proof (intro allI impI, elim conjE)
      fix es zs w assume z: "valid es" "?D zs = Some w" "prefix zs es"
      show "lwalk ?m (proot pt) es = Some (4 - length zs, w)"
      proof (cases "zs = xs @ [e]")
        case True
        then show ?thesis using wk [OF z(1)] z by simp
      next
        case False
        then have "D zs = Some w" using z(2) by simp
        moreover from this have "zs \<in> P" using K(7) by auto
        then have "\<not> prefix (xs @ [e]) es" using comp [OF _ z(3)] False by blast
        ultimately show ?thesis using wk [OF z(1)] K(11) [OF z(1) _ z(3)] by simp
      qed
    qed
    show "\<forall>es. valid es \<and> (\<forall>zs \<in> dom ?D. \<not> prefix zs es) \<longrightarrow> lwalk ?m (proot pt) es = None"
      using wk K(12) by auto
  qed (use K in auto)
qed

text \<open>The flags of a page of a type, and the routine that creates it.\<close>

definition page_flags :: "nat \<Rightarrow> u32 \<Rightarrow> u64 option" where
  "page_flags n t = (if n = 0 then get_ptflags t else get_pdflags t)"

definition create_page :: "nat \<Rightarrow> u64 \<Rightarrow> u32 \<Rightarrow> pagetable \<times> pmem \<Rightarrow> (pagetable \<times> pmem) option" where
  "create_page n = (if n = 2 then create_huge_page else if n = 1 then create_large_page else create_small_page)"

lemma page_flags_leaf:
  assumes "page_flags n t = Some f" "f \<noteq> 0" "n \<le> 2"
  shows "present (a OR f)" "is_leaf n (a OR f)"
proof -
  have f: "f AND PF_PRESENT \<noteq> 0" "n \<noteq> 0 \<Longrightarrow> f AND PF_PS \<noteq> 0"
    using assms(1,2) by (auto simp: page_flags_def get_ptflags_def get_pdflags_def pf_flag_defs split: if_splits)
  show "present (a OR f)" using f(1) by (simp add: present_def flag_bits bit_or_iff)
  show "is_leaf n (a OR f)" using f(2) assms(3) by (cases "n = 0") (auto simp: is_leaf_def flag_bits bit_or_iff)
qed

lemma create_page_kmapped:
  assumes P: "antichain P" and k: "kmapped P tab D s" and n: "n \<le> 2" and p: "path n f \<in> P"
    and fl: "page_flags n t = Some g" "g \<noteq> 0"
  shows "\<exists>s' tab'. create_page n (frame_addr f) t s = Some s' \<and>
    kmapped P tab' (D(path n f \<mapsto> frame_addr f OR g)) s'"
proof -
  obtain pt m where s: "s = (pt, m)" by (cases s)
  note k' = k [unfolded s]
  let ?a = "frame_addr f"
  note leaf = page_flags_leaf [OF fl n, of ?a]
  have p4: "path n f = take (4 - n) [PML4E ?a, PDPTE ?a, PDE ?a, PTE ?a]" by (simp add: path_def ixs_def)
  have sp: "strict_prefix ([] @ [PML4E ?a]) (path n f)" using n by (cases "4 - n") (auto simp: p4 strict_prefix_def)
  obtain q1 pt1 m1 tab1 where 1: "need_table (proot pt) (PML4E ?a) (pt, m) = Some (q1, pt1, m1)"
    "kmapped P tab1 D (pt1, m1)" "tab1 ([] @ [PML4E ?a]) = Some q1"
    by (rule need_table_kmapped [OF P k' kmappedD(5) [OF k'] p sp]) (rule that)
  consider "n = 2" | "n = 1" | "n = 0" using n by linarith
  then show ?thesis
  proof cases
    case 1
    then have pp: "path n f = [PML4E ?a] @ [PDPTE ?a]" using p4 by simp
    have "kmapped P tab1 (D(path n f \<mapsto> ?a OR g)) (pt1, set_entry q1 (PDPTE ?a) (?a OR g) m1)"
      unfolding pp by (rule kmapped_write [OF P \<open>kmapped P tab1 D (pt1, m1)\<close> \<open>tab1 _ = _\<close> [unfolded append_Nil]])
        (use p pp leaf 1 in simp_all)
    then show ?thesis
      using \<open>need_table _ _ _ = _\<close> fl(1) 1 by (auto simp: s create_page_def create_huge_page_def page_flags_def)
  next
    case 2
    then have pp: "path n f = [PML4E ?a, PDPTE ?a] @ [PDE ?a]" using p4 by (simp add: numeral_3_eq_3)
    have sp2: "strict_prefix ([PML4E ?a] @ [PDPTE ?a]) (path n f)" unfolding pp by (simp add: strict_prefix_def)
    obtain q2 pt2 m2 tab2 where 3: "need_table q1 (PDPTE ?a) (pt1, m1) = Some (q2, pt2, m2)"
      "kmapped P tab2 D (pt2, m2)" "tab2 ([PML4E ?a] @ [PDPTE ?a]) = Some q2"
      by (rule need_table_kmapped [OF P 1(2) 1(3) [unfolded append_Nil] p sp2]) (rule that)
    have "kmapped P tab2 (D(path n f \<mapsto> ?a OR g)) (pt2, set_entry q2 (PDE ?a) (?a OR g) m2)"
      unfolding pp by (rule kmapped_write [OF P 3(2)]) (use p pp leaf 2 3(3) in simp_all)
    then show ?thesis
      using 1(1) 3(1) fl(1) 2 by (auto simp: s create_page_def create_large_page_def page_flags_def)
  next
    case 3
    then have pp: "path n f = [PML4E ?a, PDPTE ?a, PDE ?a] @ [PTE ?a]" using p4 by simp
    have sp2: "strict_prefix ([PML4E ?a] @ [PDPTE ?a]) (path n f)"
      and sp3: "strict_prefix ([PML4E ?a, PDPTE ?a] @ [PDE ?a]) (path n f)" unfolding pp by (simp_all add: strict_prefix_def)
    obtain q2 pt2 m2 tab2 where 4: "need_table q1 (PDPTE ?a) (pt1, m1) = Some (q2, pt2, m2)"
      "kmapped P tab2 D (pt2, m2)" "tab2 ([PML4E ?a] @ [PDPTE ?a]) = Some q2"
      by (rule need_table_kmapped [OF P 1(2) 1(3) [unfolded append_Nil] p sp2]) (rule that)
    have t2: "tab2 [PML4E ?a, PDPTE ?a] = Some q2" using 4(3) by simp
    obtain q3 pt3 m3 tab3 where 5: "need_table q2 (PDE ?a) (pt2, m2) = Some (q3, pt3, m3)"
      "kmapped P tab3 D (pt3, m3)" "tab3 ([PML4E ?a, PDPTE ?a] @ [PDE ?a]) = Some q3"
      by (rule need_table_kmapped [OF P 4(2) t2 p sp3]) (rule that)
    have "kmapped P tab3 (D(path n f \<mapsto> ?a OR g)) (pt3, set_entry q3 (PTE ?a) (?a OR g) m3)"
      unfolding pp by (rule kmapped_write [OF P 5(2)]) (use p pp leaf 3 5(3) in simp_all)
    then show ?thesis
      using 1(1) 4(1) 5(1) fl(1) 3 by (auto simp: s create_page_def create_small_page_def page_flags_def)
  qed
qed

section \<open>The pages of a region\<close>

text \<open>The pages \<open>map_region\<close> creates between two frames: the largest that is aligned and fits.\<close>

definition page_size_at :: "nat \<Rightarrow> nat \<Rightarrow> nat" where
  "page_size_at a e = (if 512 ^ 2 dvd a \<and> 512 ^ 2 \<le> e - a then 2 else if 512 dvd a \<and> 512 \<le> e - a then 1 else 0)"

function page_list :: "nat \<Rightarrow> nat \<Rightarrow> (nat \<times> nat) list" where
  "page_list a e = (if a < e then (page_size_at a e, a) # page_list (a + 512 ^ page_size_at a e) e else [])"
  by auto
termination by (relation "measure (\<lambda>(a, e). e - a)") (auto intro!: diff_less_mono2)

declare page_list.simps [simp del]

lemma page_size_at:
  assumes "a < e"
  shows "page_size_at a e \<le> 2" "512 ^ page_size_at a e dvd a" "a + 512 ^ page_size_at a e \<le> e"
  using assms by (auto simp: page_size_at_def)

lemma page_list_ok:
  "(n, f) \<in> set (page_list a e) \<Longrightarrow> e < 2 ^ 32 \<Longrightarrow> page_ok (n, f) \<and> a \<le> f \<and> f + 512 ^ n \<le> e"
proof (induction a e rule: page_list.induct)
  case (1 a e)
  show ?case
  proof (cases "a < e")
    case True
    note s = page_size_at [OF True]
    from "1.prems"(1) consider "n = page_size_at a e" "f = a" | "(n, f) \<in> set (page_list (a + 512 ^ page_size_at a e) e)"
      by (auto simp: page_list.simps [of a e] True)
    then show ?thesis
    proof cases
      case 2
      then show ?thesis using "1.IH" [OF True 2 "1.prems"(2)] by simp
    qed (use s True "1.prems"(2) in \<open>simp add: page_ok_def\<close>)
  qed (use "1.prems" in \<open>simp add: page_list.simps [of a e]\<close>)
qed

lemma page_list_cover: "a \<le> f \<Longrightarrow> f < e \<Longrightarrow> \<exists>p \<in> set (page_list a e). f \<in> frames_of p"
proof (induction a e rule: page_list.induct)
  case (1 a e)
  then have ae: "a < e" by simp
  show ?case
  proof (cases "f < a + 512 ^ page_size_at a e")
    case True
    then show ?thesis using "1.prems" ae by (subst page_list.simps) (simp add: frames_of_def)
  next
    case False
    then show ?thesis using "1.IH" [OF ae _ "1.prems"(2)] ae by (subst page_list.simps) simp
  qed
qed

lemma page_list_disjoint:
  "e < 2 ^ 32 \<Longrightarrow> p \<in> set (page_list a e) \<Longrightarrow> q \<in> set (page_list a e) \<Longrightarrow> p = q \<or> frames_of p \<inter> frames_of q = {}"
proof (induction a e rule: page_list.induct)
  case (1 a e)
  show ?case
  proof (cases "a < e")
    case True
    let ?n = "page_size_at a e"
    have later: "frames_of (?n, a) \<inter> frames_of x = {}" if "x \<in> set (page_list (a + 512 ^ ?n) e)" for x
    proof -
      obtain k g where x: "x = (k, g)" by (cases x)
      then have "a + 512 ^ ?n \<le> g" using page_list_ok [of k g "a + 512 ^ ?n" e] that "1.prems"(1) by simp
      then show ?thesis by (auto simp: frames_of_def x)
    qed
    have s: "set (page_list a e) = insert (?n, a) (set (page_list (a + 512 ^ ?n) e))"
      using page_list.simps [of a e] True by simp
    show ?thesis
      using "1.prems"(2,3) "1.IH" [OF True "1.prems"(1)] later unfolding s by blast
  qed (use "1.prems" in \<open>simp add: page_list.simps [of a e]\<close>)
qed

lemma frame_low_bits:
  assumes "f < 2 ^ 32" "n \<le> 2"
  shows "frame_addr f AND (PAGE_SIZE * 512 ^ n - 1) = 0 \<longleftrightarrow> 512 ^ n dvd f"
proof -
  have p: "(2 :: nat) ^ (12 + 9 * n) = 4096 * 512 ^ n" by (simp add: power_add power_mult)
  have "PAGE_SIZE * 512 ^ n - 1 = mask (12 + 9 * n)"
    by (simp add: PAGE_SIZE_def mask_eq_exp_minus_1 power_add power_mult)
  then have "frame_addr f AND (PAGE_SIZE * 512 ^ n - 1) = take_bit (12 + 9 * n) (frame_addr f)"
    by (simp add: take_bit_eq_mask)
  moreover have "unat (take_bit (12 + 9 * n) (frame_addr f)) = 4096 * (f mod 512 ^ n)"
    unfolding unsigned_take_bit_eq unat_frame [OF assms(1)] by (simp add: take_bit_eq_mod p)
  ultimately show ?thesis by (simp add: unat_eq_zero [symmetric] dvd_eq_mod_eq_0)
qed

lemma page_sizes: "PAGE_SIZE_HUGE = PAGE_SIZE * 512 ^ 2" "PAGE_SIZE_LARGE = PAGE_SIZE * 512 ^ 1"
  by (simp_all add: page_size_defs)

lemma page_size_frame: "n \<le> 2 \<Longrightarrow> PAGE_SIZE * 512 ^ n = frame_addr (512 ^ n)"
  by (simp add: PAGE_SIZE_def frame_addr_def push_bit_eq_mult)

lemma frame_minus: "a \<le> e \<Longrightarrow> frame_addr e - frame_addr a = frame_addr (e - a)"
  by (simp add: frame_addr_def push_bit_eq_mult of_nat_diff algebra_simps)

lemma frame_plus: "frame_addr a + frame_addr b = frame_addr (a + b)"
  by (simp add: frame_addr_def push_bit_eq_mult algebra_simps)

lemma map_pages_step:
  assumes "a < e" "e < 2 ^ 32"
  shows "map_pages (frame_addr a) (frame_addr e) t s = do {
     s \<leftarrow> create_page (page_size_at a e) (frame_addr a) t s;
     map_pages (frame_addr (a + 512 ^ page_size_at a e)) (frame_addr e) t s }"
proof -
  have lt: "frame_addr a < frame_addr e" using assms by (simp add: frame_less)
  have c: "frame_addr a AND (PAGE_SIZE * 512 ^ n - 1) = 0 \<and> PAGE_SIZE * 512 ^ n \<le> frame_addr e - frame_addr a
      \<longleftrightarrow> 512 ^ n dvd a \<and> 512 ^ n \<le> e - a" if n: "n \<le> 2" for n
  proof -
    have "(512 :: nat) ^ n \<le> 512 ^ 2" using n by (intro power_increasing) simp_all
    then have "(512 :: nat) ^ n < 2 ^ 32" by simp
    moreover have "frame_addr e - frame_addr a = frame_addr (e - a)" using assms(1) by (intro frame_minus) simp
    ultimately show ?thesis
      unfolding page_size_frame [OF n] using frame_low_bits [OF _ n, of a] assms
      by (simp add: frame_le page_size_frame [OF n])
  qed
  have p1: "PAGE_SIZE = PAGE_SIZE * 512 ^ 0" by simp
  have add: "frame_addr a + PAGE_SIZE * 512 ^ n = frame_addr (a + 512 ^ n)" if "n \<le> 2" for n
    unfolding page_size_frame [OF that] by (rule frame_plus)
  show ?thesis
    unfolding map_pages.simps [of "frame_addr a"] Let_def page_sizes page_size_at_def create_page_def
    using lt c [of 2] c [of 1] add [of 2] add [of 1] add [of 0] by simp
qed

lemma map_pages_list:
  "e < 2 ^ 32 \<Longrightarrow> a \<le> e \<Longrightarrow>
   map_pages (frame_addr a) (frame_addr e) t s = foldM (\<lambda>(n, f). create_page n (frame_addr f) t) (page_list a e) s"
proof (induction a e arbitrary: s rule: page_list.induct)
  case (1 a e)
  show ?case
  proof (cases "a < e")
    case True
    have "map_pages (frame_addr (a + 512 ^ page_size_at a e)) (frame_addr e) t =
        foldM (\<lambda>(n, f). create_page n (frame_addr f) t) (page_list (a + 512 ^ page_size_at a e) e)"
      by (rule ext) (rule "1.IH" [OF True "1.prems"(1) page_size_at(3) [OF True]])
    then show ?thesis
      unfolding map_pages_step [OF True "1.prems"(1)] by (subst page_list.simps) (simp add: True)
  next
    case False
    then have "a = e" using "1.prems"(2) by simp
    then show ?thesis by (simp add: page_list.simps [of e e] map_pages.simps [of "frame_addr e" "frame_addr e"])
  qed
qed

section \<open>The memory map\<close>

definition mapped_region :: "pmap \<Rightarrow> pmapregion \<Rightarrow> bool" where
  "mapped_region mp r \<longleftrightarrow> reg_type r \<noteq> pmemtype_val PMEMTYPE_UNMAPPED \<and> reg_type r \<noteq> pmemtype_val PMEMTYPE_BAD \<and>
     \<not> (reg_type r = pmemtype_val PMEMTYPE_RESERVED \<and> last_usable mp \<le> reg_addr r)"

text \<open>A region of whole pages below \<open>2 ^ 44\<close> of a type of the enumeration.\<close>

definition paged_region :: "pmapregion \<Rightarrow> bool" where
  "paged_region r \<longleftrightarrow> rlo r mod 4096 = 0 \<and> rhi r mod 4096 = 0 \<and> rhi r < 2 ^ 44 \<and> reg_type r \<in> range pmemtype_val"

definition region_pages :: "pmapregion \<Rightarrow> (nat \<times> nat) list" where
  "region_pages r = page_list (rlo r div 4096) (rhi r div 4096)"

definition map_pages_of :: "pmap \<Rightarrow> (nat \<times> nat \<times> u32) list" where
  "map_pages_of mp = concat (map (\<lambda>r. map (\<lambda>(n, f). (n, f, reg_type r)) (region_pages r)) (filter (mapped_region mp) (region mp)))"

definition page_paths :: "pmap \<Rightarrow> u64 list set" where
  "page_paths mp = (\<lambda>(n, f, t). path n f) ` set (map_pages_of mp)"

lemma paged_region_frames:
  assumes "paged_region r"
  shows "reg_addr r = frame_addr (rlo r div 4096)" "reg_addr r + reg_size r = frame_addr (rhi r div 4096)"
    "rhi r div 4096 < 2 ^ 32" "rlo r div 4096 \<le> rhi r div 4096"
proof -
  have hi: "rhi r div 4096 < 2 ^ 32" using assms by (simp add: paged_region_def less_mult_imp_div_less)
  show "rhi r div 4096 < 2 ^ 32" by (rule hi)
  show le: "rlo r div 4096 \<le> rhi r div 4096" by (intro div_le_mono) (simp add: rlo_def rhi_def)
  have e: "4096 * (rlo r div 4096) = rlo r" "4096 * (rhi r div 4096) = rhi r"
    using assms by (auto simp: paged_region_def)
  show "reg_addr r = frame_addr (rlo r div 4096)"
    using e(1) hi le by (simp add: word_unat_eq_iff unat_frame rlo_def)
  have "unat (reg_addr r + reg_size r) = rhi r"
    using assms by (subst unat_add_nowrap) (simp_all add: rhi_def paged_region_def)
  then show "reg_addr r + reg_size r = frame_addr (rhi r div 4096)"
    using e(2) hi by (simp add: word_unat_eq_iff unat_frame)
qed

lemma map_regions_pages:
  assumes "\<forall>r \<in> set rs. paged_region r"
  shows "map_regions mp rs s = foldM (\<lambda>(n, f, t). create_page n (frame_addr f) t)
     (concat (map (\<lambda>r. map (\<lambda>(n, f). (n, f, reg_type r)) (region_pages r)) (filter (mapped_region mp) rs))) s"
  using assms
proof (induction rs arbitrary: s)
  case (Cons r rs)
  note f = paged_region_frames [of r]
  have r: "paged_region r" using Cons.prems by simp
  have IH: "map_regions mp rs = foldM (\<lambda>(n, f, t). create_page n (frame_addr f) t)
     (concat (map (\<lambda>r. map (\<lambda>(n, f). (n, f, reg_type r)) (region_pages r)) (filter (mapped_region mp) rs)))"
    by (rule ext) (rule Cons.IH, use Cons.prems in simp)
  show ?case
  proof (cases "mapped_region mp r")
    case True
    then have "map_region mp r s = foldM (\<lambda>(n, f). create_page n (frame_addr f) (reg_type r)) (region_pages r) s"
      unfolding map_region_def region_pages_def using map_pages_list [OF f(3) [OF r] f(4) [OF r]] f(1,2) [OF r]
      by (auto simp: mapped_region_def)
    then show ?thesis using True IH by (simp add: foldM_append foldM_map case_prod_unfold)
  next
    case False
    then have "map_region mp r s = Some s" by (auto simp: map_region_def mapped_region_def)
    then show ?thesis using False IH by simp
  qed
qed simp

section \<open>All pages\<close>

lemma mapped_flags:
  assumes "mapped_region mp r" "paged_region r"
  shows "\<exists>g. page_flags n (reg_type r) = Some g \<and> g \<noteq> 0"
proof -
  obtain t where "reg_type r = pmemtype_val t" using assms(2) by (auto simp: paged_region_def)
  then show ?thesis
    using assms(1) by (cases t) (simp_all add: mapped_region_def page_flags_def get_pdflags_def get_ptflags_def pf_flag_defs)
qed

lemma foldM_create:
  assumes P: "antichain P"
  shows "kmapped P tab D s \<Longrightarrow>
    \<forall>(n, f, t) \<in> set ps. n \<le> 2 \<and> path n f \<in> P \<and> (\<exists>g. page_flags n t = Some g \<and> g \<noteq> 0) \<Longrightarrow>
    \<exists>s' tab' D'. foldM (\<lambda>(n, f, t). create_page n (frame_addr f) t) ps s = Some s' \<and> kmapped P tab' D' s' \<and>
      dom D' = dom D \<union> (\<lambda>(n, f, t). path n f) ` set ps \<and>
      (\<forall>ys v. D' ys = Some v \<longrightarrow> D ys = Some v \<or>
        (\<exists>(n, f, t) \<in> set ps. ys = path n f \<and> (\<exists>g. page_flags n t = Some g \<and> v = frame_addr f OR g)))"
proof (induction ps arbitrary: s tab D)
  case (Cons p ps)
  obtain n f t where p: "p = (n, f, t)" by (cases p)
  obtain g where g: "n \<le> 2" "path n f \<in> P" "page_flags n t = Some g" "g \<noteq> 0" using Cons.prems(2) by (auto simp: p)
  obtain s1 tab1 where 1: "create_page n (frame_addr f) t s = Some s1"
    "kmapped P tab1 (D(path n f \<mapsto> frame_addr f OR g)) s1"
    using create_page_kmapped [OF P Cons.prems(1) g] by blast
  have pr: "\<forall>(n, f, t) \<in> set ps. n \<le> 2 \<and> path n f \<in> P \<and> (\<exists>g. page_flags n t = Some g \<and> g \<noteq> 0)"
    using Cons.prems(2) by simp
  from Cons.IH [OF 1(2) pr] obtain s' tab' D' where 2: "foldM (\<lambda>(n, f, t). create_page n (frame_addr f) t) ps s1 = Some s'" "kmapped P tab' D' s'"
    "dom D' = dom (D(path n f \<mapsto> frame_addr f OR g)) \<union> (\<lambda>(n, f, t). path n f) ` set ps"
    "\<forall>ys v. D' ys = Some v \<longrightarrow> (D(path n f \<mapsto> frame_addr f OR g)) ys = Some v \<or>
        (\<exists>(n, f, t) \<in> set ps. ys = path n f \<and> (\<exists>g. page_flags n t = Some g \<and> v = frame_addr f OR g))"
    by (elim exE conjE) (rule that)
  have "D ys = Some v \<or> (\<exists>(n, f, t) \<in> set (p # ps). ys = path n f \<and> (\<exists>g. page_flags n t = Some g \<and> v = frame_addr f OR g))"
    if "D' ys = Some v" for ys v
  proof (cases "ys = path n f \<and> v = frame_addr f OR g")
    case True
    then show ?thesis using g(3) by (auto simp: p)
  next
    case False
    from 2(4) that have "(D(path n f \<mapsto> frame_addr f OR g)) ys = Some v \<or>
        (\<exists>(n, f, t) \<in> set ps. ys = path n f \<and> (\<exists>g. page_flags n t = Some g \<and> v = frame_addr f OR g))" by blast
    then show ?thesis
    proof
      assume "(D(path n f \<mapsto> frame_addr f OR g)) ys = Some v"
      then have "D ys = Some v" using False by (auto split: if_splits)
      then show ?thesis ..
    next
      assume "\<exists>(n, f, t) \<in> set ps. ys = path n f \<and> (\<exists>g. page_flags n t = Some g \<and> v = frame_addr f OR g)"
      then show ?thesis by (intro disjI2) (simp add: p)
    qed
  qed
  moreover have "dom D' = dom D \<union> (\<lambda>(n, f, t). path n f) ` set (p # ps)" using 2(3) by (auto simp: p)
  ultimately show ?case using 1(1) 2(1,2) by (intro exI [of _ s'] exI [of _ tab'] exI [of _ D']) (simp add: p)
next
  case Nil
  then show ?case by (intro exI [of _ s] exI [of _ tab] exI [of _ D]) simp
qed

section \<open>The identity mapping\<close>

lemma touch_sorted: "successively touch rs \<Longrightarrow> ok_table rs \<Longrightarrow> sorted_wrt apart rs"
proof (induction rs)
  case (Cons r rs)
  have s: "sorted_wrt apart rs" using Cons by (cases rs) simp_all
  have "rhi r \<le> rlo q" if "q \<in> set rs" for q
  proof (cases rs)
    case (Cons c cs)
    have "rlo c \<le> rhi c" by (simp add: rlo_def rhi_def)
    then show ?thesis using that s Cons.prems Cons by auto
  qed (use that in simp)
  then show ?case using s by simp
qed simp

lemma normal_apart:
  assumes "normal_map mp" "r \<in> set (region mp)" "q \<in> set (region mp)" "covers r a" "covers q a"
  shows "r = q"
proof -
  have "sorted_wrt apart (region mp)"
    using assms(1) touch_sorted by (auto simp: normal_map_def)
  then have "r \<in> set rs \<Longrightarrow> q \<in> set rs \<Longrightarrow> r = q" if "rs = region mp" for rs
    using assms(4,5) unfolding that [symmetric] by (induction rs) (auto simp: covers_def)
  then show ?thesis using assms(2,3) by blast
qed

lemma map_pages_of_mem:
  "(n, f, t) \<in> set (map_pages_of mp) \<longleftrightarrow>
     (\<exists>r \<in> set (region mp). mapped_region mp r \<and> (n, f) \<in> set (region_pages r) \<and> t = reg_type r)"
  by (force simp: map_pages_of_def)

lemma region_page:
  assumes "paged_region r" "(n, f) \<in> set (region_pages r)"
  shows "page_ok (n, f)" "g \<in> frames_of (n, f) \<Longrightarrow> covers r (4096 * g)"
proof -
  note f = paged_region_frames [OF assms(1)]
  note o = page_list_ok [OF assms(2) [unfolded region_pages_def] f(3)]
  show "page_ok (n, f)" using o by simp
  have "4096 * (rlo r div 4096) = rlo r" "4096 * (rhi r div 4096) = rhi r"
    using assms(1) by (auto simp: paged_region_def)
  then show "g \<in> frames_of (n, f) \<Longrightarrow> covers r (4096 * g)" using o by (auto simp: frames_of_def covers_def)
qed

lemma finite_tables: "finite P \<Longrightarrow> finite (tables_for P)"
proof -
  assume "finite P"
  then have "finite (\<Union>ys \<in> P. set (prefixes ys))" by simp
  moreover have "tables_for P \<subseteq> insert [] (\<Union>ys \<in> P. set (prefixes ys))"
    by (auto simp: tables_for_def strict_prefix_def)
  ultimately show ?thesis by (meson finite.insertI finite_subset)
qed

lemma page_paths_antichain:
  assumes n: "normal_map mp" and ok: "\<forall>r \<in> set (region mp). paged_region r" and c: "card (tables_for (page_paths mp)) \<le> 80"
  shows "antichain (page_paths mp)"
  unfolding antichain_def
proof (intro conjI ballI impI)
  fix xs ys assume "xs \<in> page_paths mp" "ys \<in> page_paths mp" and pre: "prefix xs ys"
  then obtain n f t k g u where p: "(n, f, t) \<in> set (map_pages_of mp)" "xs = path n f"
    "(k, g, u) \<in> set (map_pages_of mp)" "ys = path k g" by (auto simp: page_paths_def)
  then obtain r q where r: "r \<in> set (region mp)" "(n, f) \<in> set (region_pages r)"
    "q \<in> set (region mp)" "(k, g) \<in> set (region_pages q)" by (auto simp: map_pages_of_mem)
  note a = region_page [OF _ r(2)] region_page [OF _ r(4)]
  have "page_ok (n, f)" "page_ok (k, g)" using a ok r by blast+
  with pages_antichain [of n f k g] pre p have "frames_of (n, f) \<inter> frames_of (k, g) \<noteq> {}" by blast
  then obtain h where h: "h \<in> frames_of (n, f)" "h \<in> frames_of (k, g)" by blast
  then have "r = q" using normal_apart [OF n r(1,3), of "4096 * h"] a ok r by blast
  then have "(n, f) = (k, g)"
    using page_list_disjoint [OF paged_region_frames(3), of r "(n, f)" "rlo r div 4096" "(k, g)"] r ok h
    by (auto simp: region_pages_def)
  then show "xs = ys" using p by simp
next
  fix xs assume "xs \<in> page_paths mp"
  then obtain n f t where p: "(n, f, t) \<in> set (map_pages_of mp)" "xs = path n f" by (auto simp: page_paths_def)
  then obtain r where "r \<in> set (region mp)" "(n, f) \<in> set (region_pages r)" by (auto simp: map_pages_of_mem)
  then have "n \<le> 2" using region_page(1) [of r n f] ok by (auto simp: page_ok_def)
  then show "2 \<le> length xs" "length xs \<le> 4" "e \<in> set xs \<Longrightarrow> e < 512" for e
    using path_length [of n f] path_bound [of e n f] p(2) by auto
qed (use c finite_tables [of "page_paths mp"] in \<open>auto simp: page_paths_def\<close>)

lemma empty_kmapped:
  "kmapped P [[] \<mapsto> KMEM_KERNEL_PAGETABLE] Map.empty
     (\<lparr>proot = KMEM_KERNEL_PAGETABLE, vroot = KMEM_KERNEL_PAGETABLE, vnext = KMEM_KERNEL_PAGETABLE + PAGE_SIZE,
       vterm = KMEM_KERNEL_PAGETABLE_END\<rparr>, zero_mem KMEM_KERNEL_PAGETABLE KMEM_KERNEL_PAGETABLE_SIZE m)"
proof -
  let ?m = "zero_mem KMEM_KERNEL_PAGETABLE KMEM_KERNEL_PAGETABLE_SIZE m"
  have z: "get_entry ?m p e = 0" if p: "aligned p" "KMEM_KERNEL_PAGETABLE \<le> p" "p < KMEM_KERNEL_PAGETABLE_END" "e < 512" for p e
  proof -
    obtain k where k: "unat p = 4096 * k" using p(1) by (rule alignedE)
    have e: "unat e < 512" using p(4) by (simp add: word_less_nat_alt)
    have u: "unat (p + 8 * e) = unat p + 8 * unat e" by (rule entry_offset [OF p(1,4)])
    have b: "unat p < 458752" "131072 \<le> unat p"
      using p(2,3) by (simp_all add: word_less_nat_alt word_le_nat_alt KMEM_KERNEL_PAGETABLE_def KMEM_KERNEL_PAGETABLE_END_def)
    then have "unat (p + 8 * e - KMEM_KERNEL_PAGETABLE) = unat p + 8 * unat e - 131072"
      unfolding KMEM_KERNEL_PAGETABLE_def using u by (subst unat_sub_nowrap) simp_all
    moreover have "k < 112" using b k by simp
    then have "4096 * k + 8 * unat e < 458752" using e by simp
    ultimately have "p + 8 * e - KMEM_KERNEL_PAGETABLE < KMEM_KERNEL_PAGETABLE_SIZE"
      using k b by (simp add: word_less_nat_alt KMEM_KERNEL_PAGETABLE_SIZE_def)
    then show ?thesis by (simp add: get_entry_def zero_mem_def)
  qed
  have r: "aligned KMEM_KERNEL_PAGETABLE" unfolding kmem_frames by (rule frame_aligned) simp
  have vn: "KMEM_KERNEL_PAGETABLE + PAGE_SIZE = frame_addr 33" using frame_next [of 32 1] by (simp add: kmem_frames)
  have lt: "KMEM_KERNEL_PAGETABLE < KMEM_KERNEL_PAGETABLE_END" by (simp add: KMEM_KERNEL_PAGETABLE_def KMEM_KERNEL_PAGETABLE_END_def)
  have n: "\<not> present (get_entry ?m KMEM_KERNEL_PAGETABLE e)" if "e < 512" for e
    using z [OF r _ lt that] by (simp add: present_def)
  have t: "tree ?m [[] \<mapsto> KMEM_KERNEL_PAGETABLE] {}"
    unfolding tree_def using r n by (auto simp: stops_def foreign_def split: if_splits)
  have w: "lwalk ?m KMEM_KERNEL_PAGETABLE es = None" if "valid es" for es
    using that n by (cases es) (auto simp: valid_def Let_def)
  have k: "KMEM_KERNEL_PAGETABLE < KMEM_KERNEL_PAGETABLE + PAGE_SIZE" by (simp add: KMEM_KERNEL_PAGETABLE_def PAGE_SIZE_def)
  have z2: "get_entry ?m p e = 0" if "aligned p" "KMEM_KERNEL_PAGETABLE + PAGE_SIZE \<le> p" "p < KMEM_KERNEL_PAGETABLE_END" "e < 512" for p e
    using z [OF that(1) _ that(3,4)] k that(2) by (meson less_imp_le less_le_trans)
  show ?thesis
    unfolding kmapped_def prod.case pagetable.simps
    using t w k vn z2 z [OF r _ lt] by (auto simp: tables_for_def split: if_splits)
qed

text \<open>An address below \<open>2 ^ 44\<close> in the page that begins at frame \<open>g\<close>.\<close>

lemma ixs_frame_page:
  assumes "unat a < 2 ^ 44"
  shows "ixs a = path 0 (unat a div 4096)"
proof -
  let ?f = "unat a div 4096"
  have f: "?f < 2 ^ 32" using assms by (simp add: less_mult_imp_div_less)
  have "drop_bit (12 + 9 * k) a = drop_bit (12 + 9 * k) (frame_addr ?f)" for k
  proof (rule word_unat_eq_iff [THEN iffD2])
    have "(2 :: nat) ^ (12 + 9 * k) = 4096 * 2 ^ (9 * k)" by (simp add: power_add)
    then show "unat (drop_bit (12 + 9 * k) a) = unat (drop_bit (12 + 9 * k) (frame_addr ?f))"
      unfolding unat_drop_bit_eq unat_frame [OF f] by (simp add: drop_bit_eq_div div_mult2_eq)
  qed
  from this [of 0] this [of 1] this [of 2] this [of 3] have "ixs a = ixs (frame_addr ?f)"
    by (simp add: ixs_def PML4E_def PDPTE_def PDE_def PTE_def)
  then show ?thesis by (simp add: path_def ixs_def)
qed

lemma prefix_page:
  assumes "page_ok (n, g)" "f < 2 ^ 32"
  shows "prefix (path n g) (path 0 f) \<longleftrightarrow> f \<in> frames_of (n, g)"
proof
  assume "prefix (path n g) (path 0 f)"
  then have d: "g div 512 ^ n = f div 512 ^ n" using path_prefix(2) [of g f n 0] assms by (auto simp: page_ok_def)
  have "g = g div 512 ^ n * 512 ^ n" using assms(1) by (simp add: page_ok_def)
  moreover have "f < f div 512 ^ n * 512 ^ n + 512 ^ n" using dividend_less_div_times [of "512 ^ n" f] by simp
  moreover have "f div 512 ^ n * 512 ^ n \<le> f" by simp
  ultimately show "f \<in> frames_of (n, g)" using d by (simp add: frames_of_def)
next
  assume f: "f \<in> frames_of (n, g)"
  obtain c where c: "g = 512 ^ n * c" using assms(1) by (auto simp: page_ok_def elim: dvdE)
  have d: "f div 512 ^ n = g div 512 ^ n"
    using f by (simp add: frames_of_def c) (metis add.commute div_nat_eqI mult.commute mult_Suc)
  have "field k f = field k g" if "n \<le> k" for k
  proof -
    have "512 ^ k = 512 ^ n * (512 :: nat) ^ (k - n)" using that by (simp flip: power_add)
    then show ?thesis using d by (simp add: field_def div_mult2_eq)
  qed
  then have "take (4 - n) (map (\<lambda>k. of_nat (field k f) :: u64) [3, 2, 1, 0]) = take (4 - n) (map (\<lambda>k. of_nat (field k g)) [3, 2, 1, 0])"
    using assms(1) by (auto simp: page_ok_def le_Suc_eq numeral_2_eq_2)
  then have "take (4 - n) (path 0 f) = path n g"
    using assms by (simp add: path_def ixs_frame page_ok_def)
  then show "prefix (path n g) (path 0 f)" by (metis take_is_prefix)
qed

lemma page_address:
  assumes "page_ok (n, g)" "unat a < 2 ^ 44" "unat a div 4096 \<in> frames_of (n, g)"
  shows "a AND NOT (mask (12 + 9 * n)) = frame_addr g"
proof -
  have g32: "g < 2 ^ 32" using assms(1) by (simp add: page_ok_def)
  obtain c where c: "g = 512 ^ n * c" using assms(1) by (auto simp: page_ok_def elim: dvdE)
  have p: "(2 :: nat) ^ (12 + 9 * n) = 4096 * 512 ^ n" by (simp add: power_add power_mult)
  have "unat a div 4096 div 512 ^ n = c"
    using assms(3) by (simp add: frames_of_def c) (metis add.commute div_nat_eqI mult.commute mult_Suc)
  then have d: "unat a div 2 ^ (12 + 9 * n) = c" by (simp add: p div_mult2_eq)
  have "a AND NOT (mask (12 + 9 * n)) = push_bit (12 + 9 * n) (drop_bit (12 + 9 * n) a)"
    by (rule bit_word_eqI) (auto simp: bit_simps)
  also have "\<dots> = frame_addr g"
  proof (rule word_unat_eq_iff [THEN iffD2])
    have "unat (drop_bit (12 + 9 * n) a) = c" unfolding unat_drop_bit_eq by (simp add: drop_bit_eq_div d)
    moreover have "2 ^ (12 + 9 * n) * c = 4096 * g" by (simp add: p c)
    moreover have "4096 * g < 2 ^ 64" using g32 by simp
    ultimately show "unat (push_bit (12 + 9 * n) (drop_bit (12 + 9 * n) a)) = unat (frame_addr g)"
      unfolding unsigned_push_bit_eq unat_frame [OF g32]
      by (simp add: take_bit_nat_eq_self push_bit_eq_mult mult.commute)
  qed
  finally show ?thesis .
qed

lemma flags_low:
  assumes "page_flags n t = Some g"
  shows "g = g AND 0x3ff"
  using assms by (auto simp: page_flags_def get_ptflags_def get_pdflags_def pf_flag_defs split: if_splits)

lemma translate_page:
  assumes "page_ok (n, f)" "unat a < 2 ^ 44" "unat a div 4096 \<in> frames_of (n, f)" "page_flags k t = Some g"
    and "walk m root a = Some (n, frame_addr f OR g)"
  shows "translate m root a = Some (a, g AND 0x1ff)"
proof -
  have f32: "f < 2 ^ 32" using assms(1) by (simp add: page_ok_def)
  have m10: "(0x3ff :: u64) = mask 10" by (simp add: mask_eq_exp_minus_1)
  have low: "\<not> bit g i" if "10 \<le> i" for i
    using that by (subst flags_low [OF assms(4), unfolded m10]) (simp add: bit_and_iff bit_mask_iff)
  note b = bit_frame [OF f32]
  have ta: "table_addr (frame_addr f OR g) = frame_addr f"
    unfolding table_addr_def flags_mask(3)
    by (rule bit_word_eqI) (use low in \<open>auto simp: bit_and_iff bit_or_iff bit_not_iff bit_mask_iff b\<close>)
  have lo: "(frame_addr f OR g) AND 0x1ff = g AND 0x1ff"
  proof -
    have m: "(0x1ff :: u64) = mask 9" by (simp add: mask_eq_exp_minus_1)
    show ?thesis unfolding m by (rule bit_word_eqI) (auto simp: bit_and_iff bit_or_iff bit_mask_iff b)
  qed
  have pa: "a AND NOT (mask (12 + 9 * n)) = frame_addr f" by (rule page_address [OF assms(1-3)])
  then have "frame_addr f AND NOT (mask (12 + 9 * n)) = frame_addr f" by (metis and.assoc and.idem)
  moreover have "(a AND NOT (mask (12 + 9 * n))) OR (a AND mask (12 + 9 * n)) = a"
    by (rule bit_word_eqI) (auto simp: bit_and_iff bit_or_iff bit_not_iff)
  ultimately show ?thesis using pa by (simp add: translate_def assms(5) page_bits_def ta lo)
qed

section \<open>What the page table maps\<close>

lemma kmem_init_kmapped:
  assumes "normal_map mp" "\<forall>r \<in> set (region mp). paged_region r" "card (tables_for (page_paths mp)) \<le> 80"
  shows "\<exists>pt m' tab D. kmem_init mp m = Some (pt, m') \<and> kmapped (page_paths mp) tab D (pt, m') \<and>
    dom D = (\<lambda>(n, f, t). path n f) ` set (map_pages_of mp) \<and>
    (\<forall>ys v. D ys = Some v \<longrightarrow> (\<exists>(n, f, t) \<in> set (map_pages_of mp). ys = path n f \<and>
       (\<exists>g. page_flags n t = Some g \<and> v = frame_addr f OR g)))"
proof -
  let ?P = "page_paths mp"
  have ps: "\<forall>(n, f, t) \<in> set (map_pages_of mp). n \<le> 2 \<and> path n f \<in> ?P \<and> (\<exists>g. page_flags n t = Some g \<and> g \<noteq> 0)"
  proof (clarify, intro conjI)
    fix n f t assume x: "(n, f, t) \<in> set (map_pages_of mp)"
    then obtain r where r: "r \<in> set (region mp)" "mapped_region mp r" "(n, f) \<in> set (region_pages r)" "t = reg_type r"
      by (auto simp: map_pages_of_mem)
    show "n \<le> 2" using region_page(1) [OF _ r(3)] r(1) assms(2) by (auto simp: page_ok_def)
    show "path n f \<in> ?P" using x by (force simp: page_paths_def)
    show "\<exists>g. page_flags n t = Some g \<and> g \<noteq> 0" using mapped_flags [OF r(2)] r(1,4) assms(2) by blast
  qed
  have e: "kmem_init mp m = foldM (\<lambda>(n, f, t). create_page n (frame_addr f) t) (map_pages_of mp)
    (\<lparr>proot = KMEM_KERNEL_PAGETABLE, vroot = KMEM_KERNEL_PAGETABLE,
       vnext = KMEM_KERNEL_PAGETABLE + PAGE_SIZE, vterm = KMEM_KERNEL_PAGETABLE_END\<rparr>,
     zero_mem KMEM_KERNEL_PAGETABLE KMEM_KERNEL_PAGETABLE_SIZE m)"
    by (simp add: kmem_init_def map_regions_pages [OF assms(2)] map_pages_of_def)
  have "\<exists>s' tab' D'. kmem_init mp m = Some s' \<and> kmapped ?P tab' D' s' \<and>
      dom D' = dom (Map.empty :: u64 list \<Rightarrow> u64 option) \<union> (\<lambda>(n, f, t). path n f) ` set (map_pages_of mp) \<and>
      (\<forall>ys v. D' ys = Some v \<longrightarrow> (Map.empty :: u64 list \<Rightarrow> u64 option) ys = Some v \<or>
        (\<exists>(n, f, t) \<in> set (map_pages_of mp). ys = path n f \<and> (\<exists>g. page_flags n t = Some g \<and> v = frame_addr f OR g)))"
    unfolding e by (rule foldM_create [OF page_paths_antichain [OF assms] empty_kmapped ps])
  then show ?thesis by (simp only: split_paired_Ex dom_empty Un_empty_left option.distinct(1) simp_thms)
qed

lemma page_of_map:
  assumes "\<forall>r \<in> set (region mp). paged_region r" "(n, f, t) \<in> set (map_pages_of mp)"
  shows "\<exists>r \<in> set (region mp). mapped_region mp r \<and> t = reg_type r \<and> page_ok (n, f) \<and> (n, f) \<in> set (region_pages r)"
  using assms region_page(1) by (fastforce simp: map_pages_of_mem)

lemma valid_ixs: "valid (ixs a)"
  using ixs_bound [of _ a] by (auto simp: valid_def ixs_def)

text \<open>Pages that share an address come from the same region.\<close>

lemma page_type_unique:
  assumes nm: "normal_map mp" and pr: "\<forall>r \<in> set (region mp). paged_region r"
    and p: "(n, f, t) \<in> set (map_pages_of mp)" "x \<in> frames_of (n, f)"
    and q: "(k, h, u) \<in> set (map_pages_of mp)" "x \<in> frames_of (k, h)"
  shows "t = u"
proof -
  obtain r where r: "r \<in> set (region mp)" "t = reg_type r" "(n, f) \<in> set (region_pages r)"
    using page_of_map [OF pr p(1)] by blast
  obtain r' where r': "r' \<in> set (region mp)" "u = reg_type r'" "(k, h) \<in> set (region_pages r')"
    using page_of_map [OF pr q(1)] by blast
  have "r = r'"
    using normal_apart [OF nm r(1) r'(1)] region_page(2) [OF _ r(3) p(2)] region_page(2) [OF _ r'(3) q(2)] pr r(1) r'(1)
    by blast
  then show ?thesis using r(2) r'(2) by simp
qed

lemma translate_hit:
  assumes nm: "normal_map mp" and pr: "\<forall>r \<in> set (region mp). paged_region r"
    and K: "kmapped (page_paths mp) tab D (pt, m)"
    and D: "dom D = (\<lambda>(n, f, t). path n f) ` set (map_pages_of mp)"
      "\<forall>ys v. D ys = Some v \<longrightarrow> (\<exists>(n, f, t) \<in> set (map_pages_of mp). ys = path n f \<and>
         (\<exists>g. page_flags n t = Some g \<and> v = frame_addr f OR g))"
    and a: "unat a < 2 ^ 44" and p: "(n, f, t) \<in> set (map_pages_of mp)" "unat a div 4096 \<in> frames_of (n, f)"
  shows "\<exists>g. page_flags n t = Some g \<and> translate m (proot pt) a = Some (a, g AND 0x1ff)"
proof -
  have ok: "page_ok (n, f)" using page_of_map [OF pr p(1)] by blast
  have a32: "unat a div 4096 < 2 ^ 32" using a by (simp add: less_mult_imp_div_less)
  have pre: "prefix (path n f) (ixs a)" unfolding ixs_frame_page [OF a] prefix_page [OF ok a32] by (rule p(2))
  obtain w where w: "D (path n f) = Some w" using D(1) p(1) by force
  then obtain k h u g where q: "(k, h, u) \<in> set (map_pages_of mp)" "path n f = path k h" "page_flags k u = Some g"
    "w = frame_addr h OR g" using D(2) by force
  have ok': "page_ok (k, h)" using page_of_map [OF pr q(1)] by blast
  have k: "k = n" using path_length [of k h] path_length [of n f] q(2) ok ok' by (auto simp: page_ok_def)
  have in': "unat a div 4096 \<in> frames_of (k, h)"
    using pre unfolding q(2) ixs_frame_page [OF a] prefix_page [OF ok' a32] .
  have t: "t = u" by (rule page_type_unique [OF nm pr p q(1) in'])
  have "lwalk m (proot pt) (ixs a) = Some (n, w)"
    using kmappedD(11) [OF K valid_ixs w pre] path_length [of n f] ok by (simp add: page_ok_def)
  then have "translate m (proot pt) a = Some (a, g AND 0x1ff)"
    using translate_page [OF ok' a in' q(3)] by (simp add: walk_def q(4) k)
  then show ?thesis using q(3) k t by blast
qed

lemma translate_miss:
  assumes pr: "\<forall>r \<in> set (region mp). paged_region r"
    and K: "kmapped (page_paths mp) tab D (pt, m)"
    and D: "dom D = (\<lambda>(n, f, t). path n f) ` set (map_pages_of mp)"
    and a: "unat a < 2 ^ 44" "\<And>n f t. (n, f, t) \<in> set (map_pages_of mp) \<Longrightarrow> unat a div 4096 \<notin> frames_of (n, f)"
  shows "translate m (proot pt) a = None"
proof -
  have a32: "unat a div 4096 < 2 ^ 32" using a(1) by (simp add: less_mult_imp_div_less)
  have "lwalk m (proot pt) (ixs a) = None"
  proof (rule kmappedD(12) [OF K valid_ixs])
    fix ys assume "ys \<in> dom D"
    then obtain n f t where p: "(n, f, t) \<in> set (map_pages_of mp)" "ys = path n f" using D by auto
    then show "\<not> prefix ys (ixs a)"
      using a(2) [OF p(1)] page_of_map [OF pr p(1)] prefix_page [OF _ a32] unfolding p(2) ixs_frame_page [OF a(1)] by blast
  qed
  then show ?thesis by (simp add: translate_def walk_def)
qed

lemma covers_page:
  assumes "paged_region r"
  shows "covers r (unat a) \<longleftrightarrow> (\<exists>p \<in> set (region_pages r). unat a div 4096 \<in> frames_of p)"
proof
  have e: "4096 * (rlo r div 4096) = rlo r" "4096 * (rhi r div 4096) = rhi r" using assms by (auto simp: paged_region_def)
  {
    assume c: "covers r (unat a)"
    have "rlo r div 4096 \<le> unat a div 4096" using c by (intro div_le_mono) (simp add: covers_def)
    moreover have "unat a div 4096 < rhi r div 4096"
      using c e(2) by (intro less_mult_imp_div_less) (simp add: covers_def)
    ultimately show "\<exists>p \<in> set (region_pages r). unat a div 4096 \<in> frames_of p"
      unfolding region_pages_def by (rule page_list_cover)
  next
    assume "\<exists>p \<in> set (region_pages r). unat a div 4096 \<in> frames_of p"
    then obtain n g where p: "(n, g) \<in> set (region_pages r)" "unat a div 4096 \<in> frames_of (n, g)" by auto
    have "rlo r div 4096 \<le> unat a div 4096" "unat a div 4096 < rhi r div 4096"
      using page_list_ok [OF p(1) [unfolded region_pages_def] paged_region_frames(3) [OF assms]] p(2)
      by (auto simp: frames_of_def)
    moreover have "unat a = 4096 * (unat a div 4096) + unat a mod 4096" "unat a mod 4096 < 4096" by simp_all
    ultimately have "rlo r \<le> unat a" "unat a < rhi r" using e by linarith+
    then show "covers r (unat a)" by (simp add: covers_def)
  }
qed

section \<open>Properties\<close>

text \<open>C23: the kernel's page table is the identity on the memory map.  For a map in normal form whose
  regions are whole pages of the known types, and whose tables fit into the memory reserved for
  them, \<open>kmem_init\<close> returns; every address of a region that is mapped (not unmapped or bad memory,
  nor reserved memory above the last usable address) translates to itself with the flags of the
  region's type, and no other address below \<open>2 ^ 44\<close> translates at all.\<close>

theorem kmem_init_identity:
  assumes "normal_map mp" and "\<forall>r \<in> set (region mp). paged_region r" and "card (tables_for (page_paths mp)) \<le> 80"
  shows "\<exists>pt m'. kmem_init mp m = Some (pt, m') \<and>
    (\<forall>r \<in> set (region mp). \<forall>a. mapped_region mp r \<and> covers r (unat a) \<longrightarrow>
       (\<exists>n g. page_flags n (reg_type r) = Some g \<and> translate m' (proot pt) a = Some (a, g AND 0x1ff))) \<and>
    (\<forall>a. unat a < 2 ^ 44 \<and> (\<forall>r \<in> set (region mp). mapped_region mp r \<longrightarrow> \<not> covers r (unat a)) \<longrightarrow>
       translate m' (proot pt) a = None)"
proof -
  obtain pt m' tab D where K: "kmem_init mp m = Some (pt, m')" "kmapped (page_paths mp) tab D (pt, m')"
    and D: "dom D = (\<lambda>(n, f, t). path n f) ` set (map_pages_of mp)"
      "\<forall>ys v. D ys = Some v \<longrightarrow> (\<exists>(n, f, t) \<in> set (map_pages_of mp). ys = path n f \<and>
         (\<exists>g. page_flags n t = Some g \<and> v = frame_addr f OR g))"
    using kmem_init_kmapped [OF assms, of m] by (elim exE conjE) (rule that)
  show ?thesis
  proof (intro exI [of _ pt] exI [of _ m'] conjI ballI allI impI)
    fix r and a :: u64 assume r: "r \<in> set (region mp)" "mapped_region mp r \<and> covers r (unat a)"
    then have pr: "paged_region r" using assms(2) by blast
    have a: "unat a < 2 ^ 44" using pr r(2) by (simp add: paged_region_def covers_def)
    obtain n f where p: "(n, f) \<in> set (region_pages r)" "unat a div 4096 \<in> frames_of (n, f)"
      using covers_page [OF pr, of a] r(2) by (metis surj_pair)
    have "(n, f, reg_type r) \<in> set (map_pages_of mp)" using p(1) r by (auto simp: map_pages_of_mem)
    from translate_hit [OF assms(1,2) K(2) D a this p(2)]
    show "\<exists>n g. page_flags n (reg_type r) = Some g \<and> translate m' (proot pt) a = Some (a, g AND 0x1ff)" by blast
  next
    fix a :: u64 assume a: "unat a < 2 ^ 44 \<and> (\<forall>r \<in> set (region mp). mapped_region mp r \<longrightarrow> \<not> covers r (unat a))"
    show "translate m' (proot pt) a = None"
      by (rule translate_miss [OF assms(2) K(2) D(1)]) (use a covers_page assms(2) in \<open>auto simp: map_pages_of_mem\<close>)
  qed (rule K(1))
qed

definition sample_kmem :: pmap where
  "sample_kmem = \<lparr>last_usable = 0x80000000, region =
     [\<lparr>reg_addr = 0, reg_size = 0x40000000, reg_type = pmemtype_val PMEMTYPE_UNMAPPED, reg_flags = 0\<rparr>,
      \<lparr>reg_addr = 0x40000000, reg_size = 0x40000000, reg_type = pmemtype_val PMEMTYPE_USABLE, reg_flags = 0\<rparr>]\<rparr>"

lemma sample_kmem_normal: "normal_map sample_kmem"
proof -
  have "{r \<in> set (region sample_kmem). reg_type r = pmemtype_val PMEMTYPE_USABLE} =
    {\<lparr>reg_addr = 0x40000000, reg_size = 0x40000000, reg_type = pmemtype_val PMEMTYPE_USABLE, reg_flags = 0\<rparr>}"
    by (auto simp: sample_kmem_def)
  then show ?thesis by (simp add: normal_map_def) (simp add: sample_kmem_def ok_region_def rlo_def rhi_def)
qed

lemma sample_kmem_paged: "\<forall>r \<in> set (region sample_kmem). paged_region r"
  by (simp add: paged_region_def sample_kmem_def rlo_def rhi_def del: pmemtype_val.simps)

lemma sample_kmem_paths: "page_paths sample_kmem = {[0, 1]}"
proof -
  have "region_pages (region sample_kmem ! 1) = [(2, 262144)]"
    by (simp add: region_pages_def sample_kmem_def rlo_def rhi_def page_list.simps page_size_at_def)
  then have "map_pages_of sample_kmem = [(2, 262144, pmemtype_val PMEMTYPE_USABLE)]"
    by (simp add: map_pages_of_def sample_kmem_def mapped_region_def)
  moreover have "path 2 262144 = [0, 1]" by (simp add: path_def ixs_frame field_def)
  ultimately show ?thesis by (simp add: page_paths_def)
qed

lemma sample_kmem_tables: "card (tables_for (page_paths sample_kmem)) \<le> 80"
proof -
  have "tables_for {[0, 1]} \<subseteq> {[], [0 :: u64]}"
    by (auto simp: tables_for_def strict_prefix_def prefix_Cons)
  then have "card (tables_for {[0, 1]}) \<le> card {[], [0 :: u64]}" by (intro card_mono) auto
  also have "\<dots> \<le> 80" by (simp add: card_insert_if)
  finally show ?thesis by (simp add: sample_kmem_paths)
qed

theorem kmem_init_identity_witness:
  "\<exists>pt m' f. kmem_init sample_kmem (\<lambda>_. 0) = Some (pt, m') \<and>
     translate m' (proot pt) 0x40001234 = Some (0x40001234, f) \<and> f AND PF_RW \<noteq> 0 \<and>
     translate m' (proot pt) 0x1234 = None"
proof -
  obtain pt m' where K: "kmem_init sample_kmem (\<lambda>_. 0) = Some (pt, m')"
    "\<forall>r \<in> set (region sample_kmem). \<forall>a. mapped_region sample_kmem r \<and> covers r (unat a) \<longrightarrow>
       (\<exists>n g. page_flags n (reg_type r) = Some g \<and> translate m' (proot pt) a = Some (a, g AND 0x1ff))"
    "\<forall>a. unat a < 2 ^ 44 \<and> (\<forall>r \<in> set (region sample_kmem). mapped_region sample_kmem r \<longrightarrow> \<not> covers r (unat a)) \<longrightarrow>
       translate m' (proot pt) a = None"
    using kmem_init_identity [OF sample_kmem_normal sample_kmem_paged sample_kmem_tables, of "\<lambda>_. 0"]
    by (elim exE conjE) (rule that)
  have "translate m' (proot pt) 0x1234 = None"
    using K(3) by (auto simp: sample_kmem_def mapped_region_def covers_def rlo_def rhi_def)
  moreover have "\<exists>n g. page_flags n (pmemtype_val PMEMTYPE_USABLE) = Some g \<and>
      translate m' (proot pt) 0x40001234 = Some (0x40001234, g AND 0x1ff)"
    using K(2) by (auto simp: sample_kmem_def mapped_region_def covers_def rlo_def rhi_def)
  moreover have "(g AND 0x1ff) AND PF_RW \<noteq> 0" if "page_flags n (pmemtype_val PMEMTYPE_USABLE) = Some g" for n g
    using that by (auto simp: page_flags_def get_ptflags_def get_pdflags_def pf_flag_defs split: if_splits)
  ultimately show ?thesis using K(1) by blast
qed

end
