(* ===== verification/Format.thy ===== *)
theory Format
  imports Output
begin

text \<open>
  Formats piece by piece.  \<open>emits fmt as cs\<close>: the format parser, between two conversions, turns
  the format \<open>fmt\<close> with the arguments \<open>as\<close> into the characters \<open>cs\<close>, whatever follows in the
  format and among the arguments.  The pieces compose, so the text of a long format is put
  together from its conversions; the callers of \<open>tty_printf\<close>, \<open>logf\<close> and \<open>snprintf\<close> use it to
  know that their calls return and what they print.
\<close>

section \<open>Pieces of a format\<close>

definition emits :: "u8 list \<Rightarrow> arg list \<Rightarrow> u8 list \<Rightarrow> bool" where
  "emits fmt as cs \<longleftrightarrow>
     (\<forall>p rest bs. pstate p = STATE_CHARS \<and> args p = as @ bs \<longrightarrow>
       (\<exists>p'. parse_loop (fmt @ rest) p = parse_loop rest p' \<and> pstate p' = STATE_CHARS \<and> args p' = bs \<and>
          counts p' = counts p \<and> bufptr p' = bufptr p + length cs \<and> bufterm p' = bufterm p \<and>
          mem p' = poke_mem cs (bufptr p) (bufterm p) (mem p)))"

lemma emitsI:
  assumes "\<And>p rest bs. pstate p = STATE_CHARS \<Longrightarrow> args p = as @ bs \<Longrightarrow>
       \<exists>p'. parse_loop (fmt @ rest) p = parse_loop rest p' \<and> pstate p' = STATE_CHARS \<and> args p' = bs \<and>
          counts p' = counts p \<and> bufptr p' = bufptr p + length cs \<and> bufterm p' = bufterm p \<and>
          mem p' = poke_mem cs (bufptr p) (bufterm p) (mem p)"
  shows "emits fmt as cs"
  using assms unfolding emits_def by blast

lemma emitsE:
  assumes "emits fmt as cs" "pstate p = STATE_CHARS" "args p = as @ bs"
  obtains p' where "parse_loop (fmt @ rest) p = parse_loop rest p'" "pstate p' = STATE_CHARS" "args p' = bs"
    "counts p' = counts p" "bufptr p' = bufptr p + length cs" "bufterm p' = bufterm p"
    "mem p' = poke_mem cs (bufptr p) (bufterm p) (mem p)"
  using assms unfolding emits_def by blast

lemma emits_append:
  assumes "emits f as cs" "emits g bs ds"
  shows "emits (f @ g) (as @ bs) (cs @ ds)"
proof (rule emitsI)
  fix p :: parse and rest xs assume p: "pstate p = STATE_CHARS" "args p = (as @ bs) @ xs"
  obtain q where q: "parse_loop (f @ g @ rest) p = parse_loop (g @ rest) q" "pstate q = STATE_CHARS" "args q = bs @ xs"
    "counts q = counts p" "bufptr q = bufptr p + length cs" "bufterm q = bufterm p"
    "mem q = poke_mem cs (bufptr p) (bufterm p) (mem p)"
    using emitsE [OF assms(1) p(1), of "bs @ xs" "g @ rest"] p(2) by auto
  obtain r where r: "parse_loop (g @ rest) q = parse_loop rest r" "pstate r = STATE_CHARS" "args r = xs"
    "counts r = counts q" "bufptr r = bufptr q + length ds" "bufterm r = bufterm q"
    "mem r = poke_mem ds (bufptr q) (bufterm q) (mem q)"
    using emitsE [OF assms(2) q(2,3)] .
  show "\<exists>p'. parse_loop ((f @ g) @ rest) p = parse_loop rest p' \<and> pstate p' = STATE_CHARS \<and> args p' = xs \<and>
      counts p' = counts p \<and> bufptr p' = bufptr p + length (cs @ ds) \<and> bufterm p' = bufterm p \<and>
      mem p' = poke_mem (cs @ ds) (bufptr p) (bufterm p) (mem p)"
    by (rule exI [of _ r]) (simp add: q r poke_mem_append)
qed

lemma emits_plain: "c8 CHR ''%'' \<notin> set fmt \<Longrightarrow> emits fmt [] fmt"
proof (induction fmt)
  case Nil
  show ?case by (rule emitsI) auto
next
  case (Cons c cs)
  have "emits [c] [] [c]"
    by (rule emitsI, rule exI [of _ "poke [c] p" for p])
      (use Cons.prems in \<open>auto simp: parse_step_def step_chars_def addchar_poke poke_def\<close>)
  from emits_append [OF this Cons.IH] Cons.prems show ?case by simp
qed

lemma emits_fmt_text:
  assumes "emits fmt as cs"
  shows "fmt_text fmt as = Some (cs, [])"
proof -
  have l: "\<exists>p. parse_loop fmt (start_parse n (\<lambda>_. 0) as) = Some p \<and> bufptr p = length cs \<and> counts p = [] \<and>
      mem p = poke_mem cs 0 n (\<lambda>_. 0)" for n
    using emitsE [OF assms, of "start_parse n (\<lambda>_. 0) as" "[]" "[]"] by (auto simp: start_parse_def)
  from l [of 0] obtain p where p: "parse_loop fmt (start_parse 0 (\<lambda>_. 0) as) = Some p" "bufptr p = length cs" by blast
  from l [of "length cs"] obtain q where q: "parse_loop fmt (start_parse (length cs) (\<lambda>_. 0) as) = Some q"
    "bufptr q = length cs" "counts q = []" "mem q = poke_mem cs 0 (length cs) (\<lambda>_. 0)" by blast
  have "map (poke_mem cs 0 (length cs) (\<lambda>_. 0)) [0..<length cs] = cs"
    by (rule nth_equalityI) (simp_all add: poke_mem_def)
  then show ?thesis using p q by (simp add: fmt_text_def)
qed

lemma tty_printf_emits:
  assumes "emits fmt as cs" "length cs < 8192" "0 \<notin> set cs"
  shows "tty_printf tid fmt as stack s = Some (int (length cs), tty_print tid cs s)"
proof -
  have t: "takeWhile (\<lambda>c. c \<noteq> 0) cs = cs" 
    unfolding takeWhile_eq_all_conv using assms(3) by blast
  show ?thesis unfolding tty_printf_prints_text [OF emits_fmt_text [OF assms(1)] assms(2)] t ..
qed

section \<open>Conversions\<close>

text \<open>The characters of an integer conversion with flags \<open>fl\<close>, width \<open>w\<close> and base \<open>b\<close>, and of a
  string conversion.\<close>

definition fmt_state :: "u32 \<Rightarrow> int \<Rightarrow> int \<Rightarrow> u64 \<Rightarrow> parse" where
  "fmt_state fl w pr b = \<lparr>bufptr = 0, bufterm = 0, mem = (\<lambda>_. 0), pstate = STATE_CHARS, flags = fl, width = w,
     precision = pr, datalen = DATALEN_INT, base = b, args = [], counts = []\<rparr>"

definition int_text :: "u32 \<Rightarrow> int \<Rightarrow> u64 \<Rightarrow> u64 \<Rightarrow> u8 list" where
  "int_text fl w b v = int_chars v (fmt_state fl w (-1) b)"

definition str_text :: "u32 \<Rightarrow> int \<Rightarrow> int \<Rightarrow> u8 list \<Rightarrow> u8 list" where
  "str_text fl w pr cs = string_chars (Some cs) (fmt_state fl w pr 0)"

lemma int_chars_text:
  "precision p = -1 \<Longrightarrow> int_chars v p = int_text (flags p) (width p) (base p) v"
proof -
  assume pr: "precision p = -1"
  let ?q = "fmt_state (flags p) (width p) (-1) (base p)"
  have f: "has_flag f ?q = has_flag f p" "flags ?q = flags p" "width ?q = width p" "precision ?q = precision p"
    "base ?q = base p" for f
    by (simp_all add: fmt_state_def has_flag_def pr)
  have m: "int_minus v ?q = int_minus v p" by (simp only: int_minus_def f)
  have a: "int_abs v ?q = int_abs v p" by (simp only: int_abs_def m)
  have r: "int_prec v ?q = int_prec v p" by (simp only: int_prec_def f a)
  have n: "int_ndigits v ?q = int_ndigits v p" by (simp only: int_ndigits_def f a r)
  have x: "int_prefix v ?q = int_prefix v p" by (simp only: int_prefix_def f m)
  have c: "int_nchars v ?q = int_nchars v p" by (simp only: int_nchars_def f m n)
  show ?thesis by (simp only: int_text_def int_chars_def f m a r n x c)
qed

lemma string_chars_text:
  "string_chars (Some cs) p = str_text (flags p) (width p) (precision p) cs"
  by (simp add: str_text_def string_chars_def has_flag_def fmt_state_def)

lemma emits_intI:
  assumes "\<And>p rest bs. pstate p = STATE_CHARS \<Longrightarrow> args p = a # bs \<Longrightarrow>
      \<exists>q. parse_loop (fmt @ rest) p = parse_loop rest ((addint v q)\<lparr>pstate := STATE_CHARS\<rparr>) \<and> args q = bs \<and>
        counts q = counts p \<and> bufptr q = bufptr p \<and> bufterm q = bufterm p \<and> mem q = mem p \<and>
        flags q = fl \<and> width q = w \<and> precision q = -1 \<and> base q = b"
  shows "emits fmt [a] (int_text fl w b v)"
proof (rule emitsI)
  fix p :: parse and rest bs assume p: "pstate p = STATE_CHARS" "args p = [a] @ bs"
  then obtain q where q: "parse_loop (fmt @ rest) p = parse_loop rest ((addint v q)\<lparr>pstate := STATE_CHARS\<rparr>)" "args q = bs"
    "counts q = counts p" "bufptr q = bufptr p" "bufterm q = bufterm p" "mem q = mem p"
    "flags q = fl" "width q = w" "precision q = -1" "base q = b"
    using assms by (metis append_Cons append_Nil)
  show "\<exists>p'. parse_loop (fmt @ rest) p = parse_loop rest p' \<and> pstate p' = STATE_CHARS \<and> args p' = bs \<and>
      counts p' = counts p \<and> bufptr p' = bufptr p + length (int_text fl w b v) \<and> bufterm p' = bufterm p \<and>
      mem p' = poke_mem (int_text fl w b v) (bufptr p) (bufterm p) (mem p)"
    by (rule exI [of _ "(addint v q)\<lparr>pstate := STATE_CHARS\<rparr>"])
      (simp add: q addint_poke int_chars_text, simp add: poke_def q)
qed

lemma emits_strI:
  assumes "\<And>p rest bs. pstate p = STATE_CHARS \<Longrightarrow> args p = a # bs \<Longrightarrow>
      \<exists>q. parse_loop (fmt @ rest) p = parse_loop rest ((addstring (Some cs) q)\<lparr>pstate := STATE_CHARS\<rparr>) \<and> args q = bs \<and>
        counts q = counts p \<and> bufptr q = bufptr p \<and> bufterm q = bufterm p \<and> mem q = mem p \<and>
        flags q = fl \<and> width q = w \<and> precision q = pr"
  shows "emits fmt [a] (str_text fl w pr cs)"
proof (rule emitsI)
  fix p :: parse and rest bs assume p: "pstate p = STATE_CHARS" "args p = [a] @ bs"
  then obtain q where q: "parse_loop (fmt @ rest) p = parse_loop rest ((addstring (Some cs) q)\<lparr>pstate := STATE_CHARS\<rparr>)"
    "args q = bs" "counts q = counts p" "bufptr q = bufptr p" "bufterm q = bufterm p" "mem q = mem p"
    "flags q = fl" "width q = w" "precision q = pr"
    using assms by (metis append_Cons append_Nil)
  show "\<exists>p'. parse_loop (fmt @ rest) p = parse_loop rest p' \<and> pstate p' = STATE_CHARS \<and> args p' = bs \<and>
      counts p' = counts p \<and> bufptr p' = bufptr p + length (str_text fl w pr cs) \<and> bufterm p' = bufterm p \<and>
      mem p' = poke_mem (str_text fl w pr cs) (bufptr p) (bufterm p) (mem p)"
    by (rule exI [of _ "(addstring (Some cs) q)\<lparr>pstate := STATE_CHARS\<rparr>"])
      (simp add: q addstring_poke string_chars_text, simp add: poke_def q)
qed

lemmas conv_defs = parse_step_def step_chars_def step_flags_def step_width_def step_precision_def step_datalen_def
  step_datatype_def add_unsigned_def add_signed_def set_flag_def isdigit_def

lemma emits_u: "emits (asc ''%u'') [ArgInt v] (int_text 0 0 10 (ucast v))"
  by (rule emits_intI) (simp add: conv_defs, rule exI, rule conjI, rule refl, simp)

lemma emits_02x: "emits (asc ''%02x'') [ArgInt v] (int_text FLAG_ZERO 2 16 (ucast v))"
  by (rule emits_intI) (simp add: conv_defs, rule exI, rule conjI, rule refl, simp)

lemma emits_04x: "emits (asc ''%04x'') [ArgInt v] (int_text FLAG_ZERO 4 16 (ucast v))"
  by (rule emits_intI) (simp add: conv_defs, rule exI, rule conjI, rule refl, simp)

lemma emits_08x: "emits (asc ''%08x'') [ArgInt v] (int_text FLAG_ZERO 8 16 (ucast v))"
  by (rule emits_intI) (simp add: conv_defs, rule exI, rule conjI, rule refl, simp)

lemma emits_016lx: "emits (asc ''%016lx'') [ArgLong v] (int_text FLAG_ZERO 16 16 v)"
  by (rule emits_intI) (simp add: conv_defs, rule exI, rule conjI, rule refl, simp)

lemma emits_hash_x: "emits (asc ''%#x'') [ArgInt v] (int_text FLAG_HASH 0 16 (ucast v))"
  by (rule emits_intI) (simp add: conv_defs, rule exI, rule conjI, rule refl, simp)

lemma emits_hash_lx: "emits (asc ''%#lx'') [ArgLong v] (int_text FLAG_HASH 0 16 v)"
  by (rule emits_intI) (simp add: conv_defs, rule exI, rule conjI, rule refl, simp)

lemma emits_minus_2u: "emits (asc ''%-2u'') [ArgInt v] (int_text FLAG_MINUS 2 10 (ucast v))"
  by (rule emits_intI) (simp add: conv_defs, rule exI, rule conjI, rule refl, simp)

lemma emits_d: "emits (asc ''%d'') [ArgInt v] (int_text FLAG_SIGNED 0 10 (scast v))"
  by (rule emits_intI) (simp add: conv_defs, rule exI, rule conjI, rule refl, simp)

lemma emits_s: "emits (asc ''%s'') [ArgStr (Some cs)] (str_text 0 0 (-1) cs)"
  by (rule emits_strI) (simp add: conv_defs, rule exI, rule conjI, rule refl, simp)

lemma emits_minus_8s: "emits (asc ''%-8s'') [ArgStr (Some cs)] (str_text FLAG_MINUS 8 (-1) cs)"
  by (rule emits_strI) (simp add: conv_defs, rule exI, rule conjI, rule refl, simp)

lemma emits_dot_4s: "emits (asc ''%.4s'') [ArgStr (Some cs)] (str_text 0 0 4 cs)"
  by (rule emits_strI) (simp add: conv_defs, rule exI, rule conjI, rule refl, simp)

lemma emits_dot_6s: "emits (asc ''%.6s'') [ArgStr (Some cs)] (str_text 0 0 6 cs)"
  by (rule emits_strI) (simp add: conv_defs, rule exI, rule conjI, rule refl, simp)

lemma emits_dot_8s: "emits (asc ''%.8s'') [ArgStr (Some cs)] (str_text 0 0 8 cs)"
  by (rule emits_strI) (simp add: conv_defs, rule exI, rule conjI, rule refl, simp)

lemma emits_c: "emits (asc ''%c'') [ArgInt v] (str_text 0 0 (-1) (if (ucast v :: u8) = 0 then [] else [ucast v]))"
  by (cases "(ucast v :: u8) = 0"; (rule emits_strI, simp add: conv_defs, rule exI, rule conjI, rule refl, simp))

section \<open>Length and characters\<close>

lemma count_digits_64:
  assumes "1 < b"
  shows "count_digits b v \<le> 64"
proof (cases "v = 0")
  case False
  have b: "2 \<le> unat b" using assms by (simp add: word_less_nat_alt)
  have "2 ^ (count_digits b v - 1) \<le> unat b ^ (count_digits b v - 1)" using b by (rule power_mono) simp
  also have "\<dots> \<le> unat v" by (rule count_digits_lower [OF assms False])
  also have "\<dots> < 2 ^ 64" using unsigned_less [of v] by simp
  finally have "(2 :: nat) ^ (count_digits b v - 1) < 2 ^ 64" .
  then have "count_digits b v - 1 < 64" by (rule power_less_imp_less_exp [rotated]) simp
  then show ?thesis by simp
qed simp

lemma int_text_length:
  assumes "1 < b" "b \<noteq> 8"
  shows "length (int_text fl w b v) \<le> 67 + nat w"
proof -
  let ?q = "fmt_state fl w (-1) b"
  have q: "precision ?q = -1" "base ?q = b" "width ?q = w" by (simp_all add: fmt_state_def)
  have c: "count_digits b (int_abs v ?q) \<le> 64" by (rule count_digits_64 [OF assms(1)])
  have n: "0 \<le> int_ndigits v ?q" "int_ndigits v ?q \<le> 64"
    using c by (auto simp: int_ndigits_def int_prec_def q assms(2))
  have "length (int_prefix v ?q) \<le> 3" by (auto simp: int_prefix_def)
  moreover have "nat (w - int_nchars v ?q) \<le> nat w" using n(1) by (auto simp: int_nchars_def intro: nat_mono)
  moreover have "nat (int_ndigits v ?q) \<le> 64" using n(2) by simp
  moreover have "has_flag FLAG_MINUS ?q \<Longrightarrow> has_flag (FLAG_MINUS OR FLAG_ZERO) ?q" by (simp add: flag_or)
  moreover have "flags ?q AND (FLAG_MINUS OR FLAG_ZERO) = FLAG_ZERO \<Longrightarrow> \<not> has_flag FLAG_MINUS ?q \<and> has_flag (FLAG_MINUS OR FLAG_ZERO) ?q"
    by (simp add: only_zero_flag flag_or)
  ultimately show ?thesis unfolding int_text_def int_chars_def Let_def q by simp
qed

lemma digits_nonzero: "k < 16 \<Longrightarrow> digits_lower ! k \<noteq> 0 \<and> digits_upper ! k \<noteq> 0"
proof -
  have "\<forall>k \<in> set [0..<16]. digits_lower ! k \<noteq> 0 \<and> digits_upper ! k \<noteq> 0" by code_simp
  then show "k < 16 \<Longrightarrow> digits_lower ! k \<noteq> 0 \<and> digits_upper ! k \<noteq> 0" by simp
qed

lemma low_digits_nonzero:
  assumes "1 < b" "b \<le> (16 :: u64)" "ds = digits_lower \<or> ds = digits_upper"
  shows "0 \<notin> set (low_digits n ds b v)"
  using assms(3) by (induction n arbitrary: v) (use digits_nonzero [OF unat_mod_base [OF assms(1,2)]] in auto)

lemma int_text_nonzero:
  assumes "1 < b" "b \<le> 16"
  shows "0 \<notin> set (int_text fl w b v)"
  using low_digits_nonzero [OF assms]
  by (simp add: int_text_def int_chars_def Let_def int_prefix_def fmt_state_def)

lemma str_text_length: "length (str_text fl w pr cs) \<le> nat w + length cs"
  by (auto simp: str_text_def string_chars_def Let_def fmt_state_def nat_diff_distrib' intro: nat_mono add_mono)

lemma str_text_nonzero: "0 \<notin> set cs \<Longrightarrow> 0 \<notin> set (str_text fl w pr cs)"
  by (auto simp: str_text_def string_chars_def Let_def fmt_state_def dest: in_set_takeD)

end
