(* ===== verification/Pci.thy ===== *)
theory Pci
  imports Format
begin

text \<open>
  The PCI probe (\<^verbatim>\<open>kernel/device/pci.c\<close>): reads of configuration registers through the address
  and data ports, the scan of a device's functions and of a bus, and the recursion over bridges.
  What the data port returns after an address was written is the machine's: the function
  \<open>cfg\<close> from addresses to values.  A recursion over bridges that never ends is \<open>None\<close>.
  \<open>finds cfg b x\<close> is the specification: the function \<open>x\<close> is on bus \<open>b\<close> or behind a bridge there.
\<close>

section \<open>Reading the configuration registers\<close>

definition PCI_CONFIG_ADDR :: u16 where "PCI_CONFIG_ADDR = 0x0cf8"
definition PCI_CONFIG_DATA :: u16 where "PCI_CONFIG_DATA = 0x0cfc"

type_synonym pci_config = "u32 \<Rightarrow> u32"

definition pci_addr :: "u32 \<Rightarrow> u32 \<Rightarrow> u32 \<Rightarrow> u32 \<Rightarrow> u32" where
  "pci_addr bus device func offset =
     push_bit 31 1 OR push_bit 16 bus OR push_bit 11 device OR push_bit 8 func OR offset"

definition pci_read :: "pci_config \<Rightarrow> u32 \<Rightarrow> u32 \<Rightarrow> u32 \<Rightarrow> u32 \<Rightarrow> tty_state \<Rightarrow> u32 \<times> tty_state" where
  "pci_read cfg bus device func offset s =
     (let addr = pci_addr bus device func offset
      in (cfg addr, s\<lparr>tty_io := tty_io s @ [OutD PCI_CONFIG_ADDR addr, InD PCI_CONFIG_DATA (cfg addr)]\<rparr>))"

definition read_hdrtype :: "pci_config \<Rightarrow> u32 \<Rightarrow> u32 \<Rightarrow> u32 \<Rightarrow> tty_state \<Rightarrow> u32 \<times> tty_state" where
  "read_hdrtype cfg bus device func s =
     (let (value, s) = pci_read cfg bus device func 0x0c s in (drop_bit 16 value AND 0xff, s))"

definition read_deviceid :: "pci_config \<Rightarrow> u32 \<Rightarrow> u32 \<Rightarrow> u32 \<Rightarrow> tty_state \<Rightarrow> u32 \<times> tty_state" where
  "read_deviceid cfg bus device func s =
     (let (value, s) = pci_read cfg bus device func 0x00 s in (drop_bit 16 value AND 0xffff, s))"

definition read_vendor :: "pci_config \<Rightarrow> u32 \<Rightarrow> u32 \<Rightarrow> u32 \<Rightarrow> tty_state \<Rightarrow> u32 \<times> tty_state" where
  "read_vendor cfg bus device func s =
     (let (value, s) = pci_read cfg bus device func 0x00 s in (value AND 0xffff, s))"

definition read_class :: "pci_config \<Rightarrow> u32 \<Rightarrow> u32 \<Rightarrow> u32 \<Rightarrow> tty_state \<Rightarrow> u32 \<times> tty_state" where
  "read_class cfg bus device func s =
     (let (value, s) = pci_read cfg bus device func 0x08 s in (drop_bit 24 value, s))"

definition read_subclass :: "pci_config \<Rightarrow> u32 \<Rightarrow> u32 \<Rightarrow> u32 \<Rightarrow> tty_state \<Rightarrow> u32 \<times> tty_state" where
  "read_subclass cfg bus device func s =
     (let (value, s) = pci_read cfg bus device func 0x08 s in (drop_bit 16 value AND 0xff, s))"

definition read_secondary_bus :: "pci_config \<Rightarrow> u32 \<Rightarrow> u32 \<Rightarrow> u32 \<Rightarrow> tty_state \<Rightarrow> u32 \<times> tty_state" where
  "read_secondary_bus cfg bus device func s =
     (let (value, s) = pci_read cfg bus device func 0x18 s in (drop_bit 8 value AND 0xff, s))"

section \<open>The probe\<close>

definition pci_format :: "u8 list" where
  "pci_format = asc ''[pci] %u/%u/%u vendor=0x%04x devid=0x%04x class=%02x subclass=%02x'' @ [0x0a]"

text \<open>\<open>probe\<close> stands for \<open>probe_bus\<close>, which is declared before and defined after its callers.\<close>

definition probe_function :: "(u32 \<Rightarrow> tty_state \<Rightarrow> tty_state option) \<Rightarrow> pci_config \<Rightarrow> (nat \<Rightarrow> u8)
    \<Rightarrow> u32 \<Rightarrow> u32 \<Rightarrow> u32 \<Rightarrow> tty_state \<Rightarrow> (bool \<times> tty_state) option" where
  "probe_function probe cfg stack bus device func s =
     (let (vendor, s) = read_vendor cfg bus device func s in
      if vendor = 0xffff then Some (False, s)
      else
        let (cls, s) = read_class cfg bus device func s;
            (subclass, s) = read_subclass cfg bus device func s
        in if cls = 6 \<and> subclass = 4
           then
             let (bus2, s) = read_secondary_bus cfg bus device func s
             in do { s \<leftarrow> probe bus2 s; Some (True, s) }
           else
             let (devid, s) = read_deviceid cfg bus device func s
             in do {
               (n, s) \<leftarrow> tty_printf 0 pci_format
                 [ArgInt bus, ArgInt device, ArgInt func, ArgInt vendor, ArgInt devid, ArgInt cls, ArgInt subclass] stack s;
               Some (True, s)
             })"

definition probe_device :: "(u32 \<Rightarrow> tty_state \<Rightarrow> tty_state option) \<Rightarrow> pci_config \<Rightarrow> (nat \<Rightarrow> u8)
    \<Rightarrow> u32 \<Rightarrow> u32 \<Rightarrow> tty_state \<Rightarrow> tty_state option" where
  "probe_device probe cfg stack bus device s = do {
     (found, s) \<leftarrow> probe_function probe cfg stack bus device 0 s;
     if \<not> found then Some s
     else
       let (hdrtype, s) = read_hdrtype cfg bus device 0 s
       in if hdrtype AND 0x80 \<noteq> 0
          then foldM (\<lambda>func s. map_option snd (probe_function probe cfg stack bus device func s)) [1, 2, 3, 4, 5, 6, 7] s
          else Some s
   }"

lemma probe_function_mono [partial_function_mono]:
  assumes "\<And>b s. mono_option (\<lambda>f. P f b s)"
  shows "mono_option (\<lambda>f. probe_function (\<lambda>b s. P f b s) cfg stack bus device func s)"
  unfolding probe_function_def Let_def split_beta
  by (intro partial_function_mono assms)

lemma probe_device_mono [partial_function_mono]:
  assumes "\<And>b s. mono_option (\<lambda>f. P f b s)"
  shows "mono_option (\<lambda>f. probe_device (\<lambda>b s. P f b s) cfg stack bus device s)"
  unfolding probe_device_def Let_def split_beta
  by (intro partial_function_mono assms)

partial_function (option) probe_bus :: "pci_config \<Rightarrow> (nat \<Rightarrow> u8) \<Rightarrow> u32 \<Rightarrow> tty_state \<Rightarrow> tty_state option" where
  "probe_bus cfg stack bus s =
     foldM (\<lambda>device s. probe_device (\<lambda>bus s. probe_bus cfg stack bus s) cfg stack bus device s) (map of_nat [0..<32]) s"

declare probe_bus.simps [code]

definition pci_init :: "pci_config \<Rightarrow> (nat \<Rightarrow> u8) \<Rightarrow> tty_state \<Rightarrow> tty_state option" where
  "pci_init cfg stack s = do {
     s \<leftarrow> probe_bus cfg stack 0 s;
     let (hdrtype, s) = read_hdrtype cfg 0 0 0 s;
     if hdrtype AND 0x80 \<noteq> 0
     then foldM (\<lambda>bus s.
            let (vendor, s) = read_vendor cfg 0 0 bus s
            in if vendor \<noteq> 0xffff then probe_bus cfg stack bus s else Some s) [1, 2, 3, 4, 5, 6, 7] s
     else Some s
   }"

section \<open>What there is to find\<close>

text \<open>The fields of the configuration registers, without the port events.\<close>

definition vendor_of :: "pci_config \<Rightarrow> u32 \<Rightarrow> u32 \<Rightarrow> u32 \<Rightarrow> u32" where
  "vendor_of cfg b d f = cfg (pci_addr b d f 0) AND 0xffff"

definition devid_of :: "pci_config \<Rightarrow> u32 \<Rightarrow> u32 \<Rightarrow> u32 \<Rightarrow> u32" where
  "devid_of cfg b d f = drop_bit 16 (cfg (pci_addr b d f 0)) AND 0xffff"

definition class_of :: "pci_config \<Rightarrow> u32 \<Rightarrow> u32 \<Rightarrow> u32 \<Rightarrow> u32 \<times> u32" where
  "class_of cfg b d f =
     (drop_bit 24 (cfg (pci_addr b d f 8)), drop_bit 16 (cfg (pci_addr b d f 8)) AND 0xff)"

definition multi_function :: "pci_config \<Rightarrow> u32 \<Rightarrow> u32 \<Rightarrow> bool" where
  "multi_function cfg b d \<longleftrightarrow> bit (cfg (pci_addr b d 0 0xc)) 23"

definition secondary_bus :: "pci_config \<Rightarrow> u32 \<Rightarrow> u32 \<Rightarrow> u32 \<Rightarrow> u32" where
  "secondary_bus cfg b d f = drop_bit 8 (cfg (pci_addr b d f 0x18)) AND 0xff"

definition is_bridge :: "pci_config \<Rightarrow> u32 \<Rightarrow> u32 \<Rightarrow> u32 \<Rightarrow> bool" where
  "is_bridge cfg b d f \<longleftrightarrow> class_of cfg b d f = (6, 4)"

text \<open>A function answers when its device has a function 0 and it is function 0 or the device has
  several functions.\<close>

definition responds :: "pci_config \<Rightarrow> u32 \<Rightarrow> u32 \<Rightarrow> u32 \<Rightarrow> bool" where
  "responds cfg b d f \<longleftrightarrow> d < 32 \<and> f < 8 \<and> vendor_of cfg b d 0 \<noteq> 0xffff \<and>
     (f = 0 \<or> multi_function cfg b d \<and> vendor_of cfg b d f \<noteq> 0xffff)"

inductive finds :: "pci_config \<Rightarrow> u32 \<Rightarrow> u32 \<times> u32 \<times> u32 \<Rightarrow> bool" for cfg where
  here: "responds cfg b d f \<Longrightarrow> \<not> is_bridge cfg b d f \<Longrightarrow> finds cfg b (b, d, f)"
| behind: "responds cfg b d f \<Longrightarrow> is_bridge cfg b d f \<Longrightarrow> finds cfg (secondary_bus cfg b d f) x \<Longrightarrow> finds cfg b x"

definition finds_all :: "pci_config \<Rightarrow> u32 \<times> u32 \<times> u32 \<Rightarrow> bool" where
  "finds_all cfg x \<longleftrightarrow> finds cfg 0 x \<or>
     (multi_function cfg 0 0 \<and> (\<exists>b. 0 < b \<and> b < 8 \<and> vendor_of cfg 0 0 b \<noteq> 0xffff \<and> finds cfg b x))"

text \<open>The line printed for a function.\<close>

definition pci_line :: "pci_config \<Rightarrow> u32 \<times> u32 \<times> u32 \<Rightarrow> u8 list" where
  "pci_line cfg = (\<lambda>(b, d, f).
     asc ''[pci] '' @ int_text 0 0 10 (ucast b) @ asc ''/'' @ int_text 0 0 10 (ucast d) @ asc ''/'' @
     int_text 0 0 10 (ucast f) @ asc '' vendor=0x'' @ int_text FLAG_ZERO 4 16 (ucast (vendor_of cfg b d f)) @
     asc '' devid=0x'' @ int_text FLAG_ZERO 4 16 (ucast (devid_of cfg b d f)) @
     asc '' class='' @ int_text FLAG_ZERO 2 16 (ucast (fst (class_of cfg b d f))) @
     asc '' subclass='' @ int_text FLAG_ZERO 2 16 (ucast (snd (class_of cfg b d f))) @ [0x0a])"

lemma pci_format_emits:
  "emits pci_format [ArgInt b, ArgInt d, ArgInt f, ArgInt (vendor_of cfg b d f), ArgInt (devid_of cfg b d f),
     ArgInt (fst (class_of cfg b d f)), ArgInt (snd (class_of cfg b d f))] (pci_line cfg (b, d, f))"
proof -
  have e: "emits (asc ''[pci] '' @ asc ''%u'' @ asc ''/'' @ asc ''%u'' @ asc ''/'' @ asc ''%u'' @ asc '' vendor=0x'' @
      asc ''%04x'' @ asc '' devid=0x'' @ asc ''%04x'' @ asc '' class='' @ asc ''%02x'' @ asc '' subclass='' @
      asc ''%02x'' @ [0x0a])
    ([] @ [ArgInt b] @ [] @ [ArgInt d] @ [] @ [ArgInt f] @ [] @ [ArgInt (vendor_of cfg b d f)] @ [] @
      [ArgInt (devid_of cfg b d f)] @ [] @ [ArgInt (fst (class_of cfg b d f))] @ [] @ [ArgInt (snd (class_of cfg b d f))] @ [])
    (pci_line cfg (b, d, f))"
    unfolding pci_line_def prod.case
    by (intro emits_append emits_u emits_04x emits_02x emits_plain) simp_all
  then show ?thesis by (simp add: pci_format_def)
qed

lemma pci_line_chars: "length (pci_line cfg x) < 8192" "0 \<notin> set (pci_line cfg x)"
proof -
  obtain b d f where x: "x = (b, d, f)" by (cases x)
  note l = int_text_length [of 10 0 0] int_text_length [of 16 FLAG_ZERO 4] int_text_length [of 16 FLAG_ZERO 2]
  show "length (pci_line cfg x) < 8192"
    using l(1) [of "ucast b"] l(1) [of "ucast d"] l(1) [of "ucast f"] l(2) [of "ucast (vendor_of cfg b d f)"]
      l(2) [of "ucast (devid_of cfg b d f)"] l(3) [of "ucast (fst (class_of cfg b d f))"]
      l(3) [of "ucast (snd (class_of cfg b d f))"]
    by (simp add: pci_line_def x)
  show "0 \<notin> set (pci_line cfg x)" by (simp add: pci_line_def x int_text_nonzero)
qed


section \<open>What the probe reports\<close>

text \<open>\<open>reports cfg m X\<close>: the step \<open>m\<close> returns and prints the lines of the functions in \<open>X\<close>, in some
  order, and nothing else on console 0.\<close>

definition print_lines :: "pci_config \<Rightarrow> (u32 \<times> u32 \<times> u32) list \<Rightarrow> terminal \<Rightarrow> terminal" where
  "print_lines cfg = fold (\<lambda>x. term_chars (pci_line cfg x))"

definition reports :: "pci_config \<Rightarrow> (tty_state \<Rightarrow> tty_state option) \<Rightarrow> (u32 \<times> u32 \<times> u32) set \<Rightarrow> bool" where
  "reports cfg m X \<longleftrightarrow> (\<forall>s T. shows_term 0 s T \<longrightarrow>
     (\<exists>s' fs. m s = Some s' \<and> set fs = X \<and> shows_term 0 s' (print_lines cfg fs T)))"

lemma reportsE:
  assumes "reports cfg m X" "shows_term 0 s T"
  obtains s' fs where "m s = Some s'" "set fs = X" "shows_term 0 s' (print_lines cfg fs T)"
  using assms unfolding reports_def by blast

lemma print_lines_append: "print_lines cfg (fs @ gs) T = print_lines cfg gs (print_lines cfg fs T)"
  by (simp add: print_lines_def)

lemma reports_none: "reports cfg Some {}"
  unfolding reports_def by (auto simp: print_lines_def intro!: exI [of _ "[]"])

lemma reports_seq:
  assumes "reports cfg m X" "reports cfg n Y"
  shows "reports cfg (\<lambda>s. do { s \<leftarrow> m s; n s }) (X \<union> Y)"
  unfolding reports_def
proof (intro allI impI)
  fix s T assume s: "shows_term 0 s T"
  obtain s' fs where m: "m s = Some s'" "set fs = X" "shows_term 0 s' (print_lines cfg fs T)"
    using reportsE [OF assms(1) s] .
  obtain s'' gs where n: "n s' = Some s''" "set gs = Y" "shows_term 0 s'' (print_lines cfg gs (print_lines cfg fs T))"
    using reportsE [OF assms(2) m(3)] .
  show "\<exists>s' fs. (do { s \<leftarrow> m s; n s }) = Some s' \<and> set fs = X \<union> Y \<and> shows_term 0 s' (print_lines cfg fs T)"
    by (rule exI [of _ s''], rule exI [of _ "fs @ gs"]) (simp add: m n print_lines_append)
qed

lemma reports_foldM:
  assumes "\<And>x. x \<in> set xs \<Longrightarrow> reports cfg (f x) (F x)"
  shows "reports cfg (foldM f xs) (\<Union>x \<in> set xs. F x)"
  using assms
proof (induction xs)
  case (Cons x xs)
  have "reports cfg (\<lambda>s. do { s \<leftarrow> f x s; foldM f xs s }) (F x \<union> (\<Union>x \<in> set xs. F x))"
    by (rule reports_seq) (use Cons in auto)
  then show ?case by (simp add: reports_def)
next
  case Nil
  then show ?case using reports_none by (simp add: reports_def)
qed

text \<open>The register reads.\<close>

lemma read_values [simp]:
  "fst (read_vendor cfg b d f s) = vendor_of cfg b d f"
  "fst (read_deviceid cfg b d f s) = devid_of cfg b d f"
  "(fst (read_class cfg b d f s), fst (read_subclass cfg b d f t)) = class_of cfg b d f"
  "fst (read_secondary_bus cfg b d f s) = secondary_bus cfg b d f"
  by (simp_all add: read_vendor_def read_deviceid_def read_class_def read_subclass_def read_secondary_bus_def
      vendor_of_def devid_of_def class_of_def secondary_bus_def pci_read_def Let_def)

lemma read_class_values [simp]:
  "fst (read_class cfg b d f s) = fst (class_of cfg b d f)"
  "fst (read_subclass cfg b d f s) = snd (class_of cfg b d f)"
  by (simp_all add: read_class_def read_subclass_def class_of_def pci_read_def Let_def)

lemma io_shows: "shows_term i (s\<lparr>tty_io := x\<rparr>) T = shows_term i s T"
  by (simp add: shows_term_def con_inv_def displays_def)

lemma read_shows [simp]:
  "shows_term i (snd (read_vendor cfg b d f s)) T = shows_term i s T"
  "shows_term i (snd (read_deviceid cfg b d f s)) T = shows_term i s T"
  "shows_term i (snd (read_class cfg b d f s)) T = shows_term i s T"
  "shows_term i (snd (read_subclass cfg b d f s)) T = shows_term i s T"
  "shows_term i (snd (read_secondary_bus cfg b d f s)) T = shows_term i s T"
  "shows_term i (snd (read_hdrtype cfg b d f s)) T = shows_term i s T"
  by (simp_all add: read_vendor_def read_deviceid_def read_class_def read_subclass_def read_secondary_bus_def
      read_hdrtype_def pci_read_def Let_def io_shows)

lemma hdrtype_multi: "fst (read_hdrtype cfg b d 0 s) AND 0x80 \<noteq> 0 \<longleftrightarrow> multi_function cfg b d"
proof -
  have m: "(0xff :: u32) = mask 8" "(0x80 :: u32) = 2 ^ 7" by (simp_all add: mask_eq_exp_minus_1)
  show ?thesis
    unfolding read_hdrtype_def pci_read_def Let_def prod.case fst_conv m and_exp_eq_0_iff_not_bit multi_function_def
    by (simp add: bit_and_iff bit_mask_iff bit_drop_bit_eq)
qed

section \<open>The recursion\<close>

definition fn_set :: "pci_config \<Rightarrow> u32 \<Rightarrow> u32 \<Rightarrow> u32 \<Rightarrow> (u32 \<times> u32 \<times> u32) set" where
  "fn_set cfg b d f =
     (if vendor_of cfg b d f = 0xffff then {}
      else if is_bridge cfg b d f then {x. finds cfg (secondary_bus cfg b d f) x} else {(b, d, f)})"

lemma probe_function_reports:
  assumes "vendor_of cfg b d f \<noteq> 0xffff \<Longrightarrow> is_bridge cfg b d f \<Longrightarrow> reports cfg (probe (secondary_bus cfg b d f)) {x. finds cfg (secondary_bus cfg b d f) x}"
    and s: "shows_term 0 s T"
  shows "\<exists>s' fs. probe_function probe cfg stack b d f s = Some (vendor_of cfg b d f \<noteq> 0xffff, s') \<and>
    set fs = fn_set cfg b d f \<and> shows_term 0 s' (print_lines cfg fs T)"
proof -
  consider (none) "vendor_of cfg b d f = 0xffff"
    | (bridge) "vendor_of cfg b d f \<noteq> 0xffff" "is_bridge cfg b d f"
    | (fn) "vendor_of cfg b d f \<noteq> 0xffff" "\<not> is_bridge cfg b d f" by blast
  then show ?thesis
  proof cases
    case none
    then show ?thesis using s
      by (auto simp: probe_function_def fn_set_def split_beta print_lines_def intro!: exI [of _ "[]"])
  next
    case bridge
    define t where "t = snd (read_secondary_bus cfg b d f
      (snd (read_subclass cfg b d f (snd (read_class cfg b d f (snd (read_vendor cfg b d f s)))))))"
    have "shows_term 0 t T" using s by (simp add: t_def)
    then obtain s' fs where p: "probe (secondary_bus cfg b d f) t = Some s'"
      "set fs = {x. finds cfg (secondary_bus cfg b d f) x}" "shows_term 0 s' (print_lines cfg fs T)"
      by (rule reportsE [OF assms(1) [OF bridge]])
    have c: "fst (class_of cfg b d f) = 6" "snd (class_of cfg b d f) = 4" using bridge(2) by (simp_all add: is_bridge_def)
    show ?thesis
      by (rule exI [of _ s'], rule exI [of _ fs])
        (use p bridge in \<open>simp add: probe_function_def fn_set_def split_beta c t_def [symmetric]\<close>)
  next
    case fn
    define t where "t = snd (read_deviceid cfg b d f
      (snd (read_subclass cfg b d f (snd (read_class cfg b d f (snd (read_vendor cfg b d f s)))))))"
    have t: "shows_term 0 t T" using s by (simp add: t_def)
    have "shows_term 0 (tty_print 0 (pci_line cfg (b, d, f)) t) (term_chars (pci_line cfg (b, d, f)) T)"
      using print_shows [of 0 t T "pci_line cfg (b, d, f)"] t by (simp add: tty_id_def MAX_TTYS_def)
    moreover have "\<not> (fst (class_of cfg b d f) = 6 \<and> snd (class_of cfg b d f) = 4)"
      using fn(2) by (auto simp: is_bridge_def prod_eq_iff)
    ultimately show ?thesis
      by (intro exI [of _ "tty_print 0 (pci_line cfg (b, d, f)) t"] exI [of _ "[(b, d, f)]"])
        (use fn in \<open>auto simp: probe_function_def fn_set_def split_beta t_def [symmetric] print_lines_def
           tty_printf_emits [OF pci_format_emits pci_line_chars]\<close>)
  qed
qed

lemma probe_device_reports:
  assumes d: "d < 32"
    and probe: "\<And>f. responds cfg b d f \<Longrightarrow> is_bridge cfg b d f \<Longrightarrow> reports cfg (probe (secondary_bus cfg b d f)) {x. finds cfg (secondary_bus cfg b d f) x}"
  shows "reports cfg (probe_device probe cfg stack b d)
    (if vendor_of cfg b d 0 = 0xffff then {}
     else fn_set cfg b d 0 \<union> (if multi_function cfg b d then \<Union>f \<in> {1, 2, 3, 4, 5, 6, 7}. fn_set cfg b d f else {}))"
  (is "reports _ _ ?X")
proof -
  let ?fn = "\<lambda>func s. map_option snd (probe_function probe cfg stack b d func s)"
  have f0: "\<exists>s' fs. probe_function probe cfg stack b d func s = Some (vendor_of cfg b d func \<noteq> 0xffff, s') \<and>
      set fs = fn_set cfg b d func \<and> shows_term 0 s' (print_lines cfg fs T)"
    if "shows_term 0 s T" "func = 0 \<or> func < 8 \<and> multi_function cfg b d \<and> vendor_of cfg b d 0 \<noteq> 0xffff" for func s T
    by (rule probe_function_reports [OF _ that(1)], rule probe) (use d that(2) in \<open>auto simp: responds_def\<close>)
  have l: "reports cfg (foldM ?fn [1, 2, 3, 4, 5, 6, 7]) (\<Union>f \<in> {1, 2, 3, 4, 5, 6, 7}. fn_set cfg b d f)"
    if "multi_function cfg b d" "vendor_of cfg b d 0 \<noteq> 0xffff"
  proof -
    have "reports cfg (?fn func) (fn_set cfg b d func)" if "func \<in> set [1, 2, 3, 4, 5, 6, 7]" for func
    proof -
      have "func < 8" using that by auto
      then show ?thesis unfolding reports_def
        using f0 [of _ _ func] \<open>multi_function cfg b d\<close> \<open>vendor_of cfg b d 0 \<noteq> 0xffff\<close> by fastforce
    qed
    from reports_foldM [of "[1, 2, 3, 4, 5, 6, 7]", OF this] show ?thesis by (simp only: list.set)
  qed
  show ?thesis
    unfolding reports_def
  proof (intro allI impI)
    fix s T assume s: "shows_term 0 s T"
    obtain s' fs where p: "probe_function probe cfg stack b d 0 s = Some (vendor_of cfg b d 0 \<noteq> 0xffff, s')"
      "set fs = fn_set cfg b d 0" "shows_term 0 s' (print_lines cfg fs T)"
      using f0 [OF s, of 0] by blast
    let ?t = "snd (read_hdrtype cfg b d 0 s')"
    have t: "shows_term 0 ?t (print_lines cfg fs T)" using p(3) by simp
    consider (none) "vendor_of cfg b d 0 = 0xffff"
      | (multi) "vendor_of cfg b d 0 \<noteq> 0xffff" "multi_function cfg b d"
      | (single) "vendor_of cfg b d 0 \<noteq> 0xffff" "\<not> multi_function cfg b d" by blast
    then show "\<exists>s' fs. probe_device probe cfg stack b d s = Some s' \<and> set fs = ?X \<and> shows_term 0 s' (print_lines cfg fs T)"
    proof cases
      case none
      then show ?thesis using p by (auto simp: probe_device_def fn_set_def)
    next
      case multi
      obtain s'' gs where q: "foldM ?fn [1, 2, 3, 4, 5, 6, 7] ?t = Some s''"
        "set gs = (\<Union>f \<in> {1, 2, 3, 4, 5, 6, 7}. fn_set cfg b d f)" "shows_term 0 s'' (print_lines cfg gs (print_lines cfg fs T))"
        using reportsE [OF l [OF multi(2,1)] t] .
      then show ?thesis using p multi
        by (intro exI [of _ s''] exI [of _ "fs @ gs"])
          (simp add: probe_device_def split_beta hdrtype_multi print_lines_append del: foldM.simps)
    next
      case single
      then show ?thesis using p
        by (intro exI [of _ ?t] exI [of _ fs]) (simp add: probe_device_def split_beta hdrtype_multi)
    qed
  qed
qed


text \<open>The words below a bound.\<close>

lemma word_upt:
  assumes "n < 2 ^ 32"
  shows "set (map of_nat [0..<n]) = {d :: u32. d < of_nat n}"
proof -
  have n: "unat (of_nat n :: u32) = n" using assms by (simp add: unat_of_nat)
  have "d < of_nat n \<longleftrightarrow> unat d < n" for d :: u32 by (simp only: word_less_nat_alt n)
  moreover have "d \<in> of_nat ` {0..<n} \<longleftrightarrow> unat d < n" for d :: u32
  proof
    assume "d \<in> of_nat ` {0..<n}"
    then obtain k where "k < n" "d = of_nat k" by auto
    moreover have "unat (of_nat k :: u32) = k" if "k < n" for k using that assms by (simp add: unat_of_nat)
    ultimately show "unat d < n" by simp
  next
    assume "unat d < n"
    then show "d \<in> of_nat ` {0..<n}" by (intro image_eqI [of _ _ "unat d"]) simp_all
  qed
  ultimately show ?thesis by auto
qed

lemma devices: "set (map of_nat [0..<32]) = {d :: u32. d < 32}"
proof -
  have "(32 :: nat) < 2 ^ 32" by simp
  from word_upt [OF this] show ?thesis by (simp only: of_nat_numeral)
qed

lemma fn_numbers: "(f :: u32) < 8 \<longleftrightarrow> f \<in> {0, 1, 2, 3, 4, 5, 6, 7}"
proof -
  have "{0 :: u32, 1, 2, 3, 4, 5, 6, 7} = set (map of_nat [0..<8])" by (simp add: upt_rec)
  then show ?thesis using word_upt [of 8] by auto
qed

lemma finds_bus:
  "{x. finds cfg b x} = (\<Union>d \<in> {d. d < 32}.
     if vendor_of cfg b d 0 = 0xffff then {}
     else fn_set cfg b d 0 \<union> (if multi_function cfg b d then \<Union>f \<in> {1, 2, 3, 4, 5, 6, 7}. fn_set cfg b d f else {}))"
  (is "_ = (\<Union>d \<in> _. ?D d)")
proof -
  have S: "{1, 2, 3, 4, 5, 6, 7} = {f :: u32. f < 8 \<and> f \<noteq> 0}"
    unfolding fn_numbers by auto
  have n: "vendor_of cfg b d f \<noteq> 0xffff" if "x \<in> fn_set cfg b d f" for x d f
    using that by (simp add: fn_set_def split: if_splits)
  have D: "x \<in> ?D d \<longleftrightarrow> (\<exists>f. responds cfg b d f \<and> x \<in> fn_set cfg b d f)" if d: "d < 32" for x d
  proof (cases "vendor_of cfg b d 0 \<noteq> 0xffff \<and> multi_function cfg b d")
    case True
    have "x \<in> ?D d \<longleftrightarrow> x \<in> fn_set cfg b d 0 \<or> (\<exists>f. f < 8 \<and> f \<noteq> 0 \<and> x \<in> fn_set cfg b d f)"
      unfolding S using True by auto
    also have "\<dots> \<longleftrightarrow> (\<exists>f. f < 8 \<and> x \<in> fn_set cfg b d f)" using fn_numbers [of 0] by blast
    also have "\<dots> \<longleftrightarrow> (\<exists>f. responds cfg b d f \<and> x \<in> fn_set cfg b d f)"
      using n [of x d] True d unfolding responds_def by blast
    finally show ?thesis .
  next
    case False
    then show ?thesis using d fn_numbers [of 0] by (auto simp: responds_def)
  qed
  have v: "vendor_of cfg b d f \<noteq> 0xffff" if "responds cfg b d f" for d f using that by (auto simp: responds_def)
  have l: "d < 32" if "responds cfg b d f" for d f using that by (simp add: responds_def)
  have "finds cfg b x \<longleftrightarrow> (\<exists>d f. responds cfg b d f \<and> x \<in> fn_set cfg b d f)" for x
    by (subst finds.simps) (use v in \<open>auto simp: fn_set_def\<close>)
  then have "x \<in> {x. finds cfg b x} \<longleftrightarrow> x \<in> (\<Union>d \<in> {d. d < 32}. ?D d)" for x
    unfolding UN_iff mem_Collect_eq using D l by blast
  then show ?thesis by (rule set_eqI)
qed

lemma secondary_bus_bound: "unat (secondary_bus cfg b d f) < 256"
proof -
  have "secondary_bus cfg b d f = take_bit 8 (drop_bit 8 (cfg (pci_addr b d f 0x18)))"
    by (simp add: secondary_bus_def take_bit_eq_mask mask_eq_exp_minus_1)
  then show ?thesis using take_bit_nat_less_exp [of 8] by (simp add: unsigned_take_bit_eq)
qed

lemma probe_bus_reports:
  assumes up: "\<And>b d f. b < 256 \<Longrightarrow> responds cfg b d f \<Longrightarrow> is_bridge cfg b d f \<Longrightarrow> b < secondary_bus cfg b d f"
  shows "unat b < 256 \<Longrightarrow> reports cfg (probe_bus cfg stack b) {x. finds cfg b x}"
proof (induction "256 - unat b" arbitrary: b rule: less_induct)
  case less
  let ?D = "\<lambda>d. if vendor_of cfg b d 0 = 0xffff then {}
     else fn_set cfg b d 0 \<union> (if multi_function cfg b d then \<Union>f \<in> {1, 2, 3, 4, 5, 6, 7}. fn_set cfg b d f else {})"
  have IH: "reports cfg (probe_bus cfg stack c) {x. finds cfg c x}" if "b < c" "unat c < 256" for c
    using less(1) [of c] that less(2) by (simp add: word_less_nat_alt)
  have "reports cfg (probe_device (\<lambda>bus s. probe_bus cfg stack bus s) cfg stack b d) (?D d)"
    if "d \<in> set (map of_nat [0..<32])" for d
  proof (rule probe_device_reports)
    show "d < 32" using that unfolding devices by simp
    show "reports cfg (probe_bus cfg stack (secondary_bus cfg b d f)) {x. finds cfg (secondary_bus cfg b d f) x}"
      if "responds cfg b d f" "is_bridge cfg b d f" for f
      using IH [OF up [OF _ that] secondary_bus_bound] less(2) by (simp add: word_less_nat_alt)
  qed
  from reports_foldM [of "map of_nat [0..<32]" cfg _ ?D, OF this]
  have "reports cfg (foldM (probe_device (\<lambda>bus s. probe_bus cfg stack bus s) cfg stack b) (map of_nat [0..<32])) {x. finds cfg b x}"
    unfolding devices finds_bus .
  then show ?case unfolding reports_def probe_bus.simps [of cfg stack b] by blast
qed

lemma pci_init_reports:
  assumes up: "\<And>b d f. b < 256 \<Longrightarrow> responds cfg b d f \<Longrightarrow> is_bridge cfg b d f \<Longrightarrow> b < secondary_bus cfg b d f"
  shows "reports cfg (pci_init cfg stack) {x. finds_all cfg x}"
proof -
  let ?roots = "[1, 2, 3, 4, 5, 6, 7 :: u32]"
  let ?R = "\<lambda>b. if vendor_of cfg 0 0 b \<noteq> 0xffff then {x. finds cfg b x} else {}"
  let ?f = "\<lambda>bus s. let (vendor, s) = read_vendor cfg 0 0 bus s
    in if vendor \<noteq> 0xffff then probe_bus cfg stack bus s else Some s"
  have bus: "reports cfg (probe_bus cfg stack b) {x. finds cfg b x}" if "unat b < 256" for b
    by (rule probe_bus_reports [OF _ that]) (rule up)
  have "reports cfg (?f b) (?R b)" if "b \<in> set ?roots" for b
  proof -
    have "unat b < 256" using that by auto
    then have "reports cfg (probe_bus cfg stack b) {x. finds cfg b x}" by (rule bus)
    then have r: "reports cfg (if vendor_of cfg 0 0 b \<noteq> 0xffff then probe_bus cfg stack b else Some) (?R b)"
      using reports_none by auto
    show ?thesis unfolding reports_def
    proof (intro allI impI)
      fix s T assume "shows_term 0 s T"
      then have "shows_term 0 (snd (read_vendor cfg 0 0 b s)) T" by simp
      then obtain s' fs where q: "(if vendor_of cfg 0 0 b \<noteq> 0xffff then probe_bus cfg stack b else Some)
          (snd (read_vendor cfg 0 0 b s)) = Some s'" "set fs = ?R b" "shows_term 0 s' (print_lines cfg fs T)"
        by (rule reportsE [OF r])
      have "?f b s = Some s'" unfolding q(1) [symmetric] by (simp add: split_beta)
      with q(2,3) show "\<exists>s' fs. ?f b s = Some s' \<and> set fs = ?R b \<and> shows_term 0 s' (print_lines cfg fs T)" by blast
    qed
  qed
  from reports_foldM [of ?roots, OF this]
  have roots: "reports cfg (foldM ?f ?roots) (\<Union>b \<in> set ?roots. ?R b)" .
  have zero: "reports cfg (probe_bus cfg stack 0) {x. finds cfg 0 x}" by (rule bus) simp_all
  show ?thesis unfolding reports_def
  proof (intro allI impI)
    fix s T assume s: "shows_term 0 s T"
    obtain s' fs where p: "probe_bus cfg stack 0 s = Some s'" "set fs = {x. finds cfg 0 x}" "shows_term 0 s' (print_lines cfg fs T)"
      using reportsE [OF zero s] .
    let ?t = "snd (read_hdrtype cfg 0 0 0 s')"
    have t: "shows_term 0 ?t (print_lines cfg fs T)" using p(3) by simp
    show "\<exists>s' fs. pci_init cfg stack s = Some s' \<and> set fs = {x. finds_all cfg x} \<and> shows_term 0 s' (print_lines cfg fs T)"
    proof (cases "multi_function cfg 0 0")
      case True
      obtain s'' gs where q: "foldM ?f ?roots ?t = Some s''" "set gs = (\<Union>b \<in> set ?roots. ?R b)"
        "shows_term 0 s'' (print_lines cfg gs (print_lines cfg fs T))"
        using reportsE [OF roots t] .
      have R: "b \<in> set ?roots \<longleftrightarrow> 0 < b \<and> b < 8" for b using fn_numbers [of b] by (auto simp: word_gt_0)
      have "(\<Union>b \<in> set ?roots. ?R b) = {x. \<exists>b. 0 < b \<and> b < 8 \<and> vendor_of cfg 0 0 b \<noteq> 0xffff \<and> finds cfg b x}"
      proof (rule set_eqI)
        fix x
        have "x \<in> (\<Union>b \<in> set ?roots. ?R b) \<longleftrightarrow> (\<exists>b. b \<in> set ?roots \<and> x \<in> ?R b)" unfolding UN_iff by blast
        also have "\<dots> \<longleftrightarrow> (\<exists>b. 0 < b \<and> b < 8 \<and> vendor_of cfg 0 0 b \<noteq> 0xffff \<and> finds cfg b x)" unfolding R by auto
        finally show "x \<in> (\<Union>b \<in> set ?roots. ?R b) \<longleftrightarrow> x \<in> {x. \<exists>b. 0 < b \<and> b < 8 \<and> vendor_of cfg 0 0 b \<noteq> 0xffff \<and> finds cfg b x}"
          unfolding mem_Collect_eq .
      qed
      then have "set (fs @ gs) = {x. finds_all cfg x}"
        unfolding set_append p(2) q(2) finds_all_def using True by blast
      then show ?thesis using p q True
        by (intro exI [of _ s''] exI [of _ "fs @ gs"])
          (simp add: pci_init_def split_beta hdrtype_multi print_lines_append del: foldM.simps)
    next
      case False
      then show ?thesis using p
        by (intro exI [of _ ?t] exI [of _ fs]) (simp add: pci_init_def split_beta hdrtype_multi finds_all_def)
    qed
  qed
qed


section \<open>Bridges in a circle\<close>

lemma foldM_stuck: "x \<in> set xs \<Longrightarrow> (\<And>s. f x s = None) \<Longrightarrow> foldM f xs s = None"
proof (induction xs arbitrary: s)
  case (Cons y ys)
  then show ?case by (cases "f y s") (auto simp: bind_eq_None_conv)
qed simp

lemma probe_function_stuck:
  assumes "vendor_of cfg b d f \<noteq> 0xffff" "is_bridge cfg b d f" "\<And>s. probe (secondary_bus cfg b d f) s = None"
  shows "probe_function probe cfg stack b d f s = None"
proof -
  have "fst (class_of cfg b d f) = 6" "snd (class_of cfg b d f) = 4" using assms(2) by (simp_all add: is_bridge_def)
  then show ?thesis using assms(1,3) by (simp add: probe_function_def split_beta)
qed

lemma probe_device_stuck:
  assumes r: "responds cfg b d f" and b: "is_bridge cfg b d f" "\<And>s. probe (secondary_bus cfg b d f) s = None"
  shows "probe_device probe cfg stack b d s = None"
proof (cases "f = 0")
  case True
  then have "probe_function probe cfg stack b d 0 s = None"
    using probe_function_stuck [where probe = probe, OF _ b] r by (simp add: responds_def)
  then show ?thesis by (simp add: probe_device_def)
next
  case False
  then have f: "multi_function cfg b d" "vendor_of cfg b d f \<noteq> 0xffff" "f \<in> set [1, 2, 3, 4, 5, 6, 7]"
    using r fn_numbers [of f] by (auto simp: responds_def)
  have "foldM (\<lambda>func s. map_option snd (probe_function probe cfg stack b d func s)) [1, 2, 3, 4, 5, 6, 7] t = None" for t
    by (rule foldM_stuck [OF f(3)]) (simp add: probe_function_stuck [where probe = probe, OF f(2) b])
  moreover have "found" if "probe_function probe cfg stack b d 0 s = Some (found, t)" for found t
    using that r
    by (auto simp: probe_function_def split_beta responds_def bind_eq_Some_conv split: if_splits)
  ultimately show ?thesis using f(1)
    by (cases "probe_function probe cfg stack b d 0 s")
      (auto simp: probe_device_def split_beta hdrtype_multi simp del: foldM.simps)
qed

lemma probe_bus_stuck:
  assumes loop: "\<forall>b \<in> B. \<exists>d f. responds cfg b d f \<and> is_bridge cfg b d f \<and> secondary_bus cfg b d f \<in> B"
  shows "b \<in> B \<Longrightarrow> probe_bus cfg stack b s = None"
proof (rule ccontr)
  assume b: "b \<in> B" and "probe_bus cfg stack b s \<noteq> None"
  then obtain y where "probe_bus cfg stack b s = Some y" by auto
  then have "cfg = cfg \<longrightarrow> b \<notin> B"
  proof (rule probe_bus.raw_induct [where P = "\<lambda>c stack b s y. c = cfg \<longrightarrow> b \<notin> B", rotated])
    fix probe c st b s y
    assume IH: "\<And>c st b s y. probe c st b s = Some y \<Longrightarrow> c = cfg \<longrightarrow> b \<notin> B"
      and run: "foldM (probe_device (probe c st) c st b) (map of_nat [0..<32]) s = Some y"
    show "c = cfg \<longrightarrow> b \<notin> B"
    proof (intro impI notI)
      assume c: "c = cfg" and "b \<in> B"
      then obtain d f where df: "responds cfg b d f" "is_bridge cfg b d f" "secondary_bus cfg b d f \<in> B" using loop by blast
      have "probe cfg st (secondary_bus cfg b d f) s = None" for s
        using IH [of cfg st "secondary_bus cfg b d f" s] df(3) by (cases "probe cfg st (secondary_bus cfg b d f) s") auto
      from probe_device_stuck [of cfg b d f "probe cfg st", OF df(1,2) this]
      have "probe_device (probe cfg st) cfg st b d s = None" for s .
      moreover have "d \<in> set (map of_nat [0..<32])" using df(1) unfolding devices by (simp add: responds_def)
      ultimately have "foldM (probe_device (probe c st) c st b) (map of_nat [0..<32]) s = None"
        using foldM_stuck [of d "map of_nat [0..<32]" "probe_device (probe c st) c st b"] unfolding c by blast
      then show False using run by simp
    qed
  qed
  then show False using b by simp
qed

section \<open>Addresses\<close>

lemma small_bit: "unat (x :: u32) < 2 ^ k \<Longrightarrow> k \<le> i \<Longrightarrow> \<not> bit x i"
proof -
  assume "unat x < 2 ^ k" "k \<le> i"
  then have "take_bit k x = x" by (simp add: word_unat_eq_iff unsigned_take_bit_eq take_bit_nat_eq_self)
  then show "\<not> bit x i" using \<open>k \<le> i\<close> by (metis bit_take_bit_iff not_le)
qed

lemma pci_addr_bit:
  "bit (pci_addr b d f x) n \<longleftrightarrow> n < 32 \<and> (n = 31 \<or> 16 \<le> n \<and> bit b (n - 16) \<or> 11 \<le> n \<and> bit d (n - 11) \<or>
     8 \<le> n \<and> bit f (n - 8) \<or> bit x n)"
  by (auto simp: pci_addr_def bit_simps simp del: push_bit_of_1 dest: bit_imp_le_length)

lemma pci_addr_inject:
  assumes "b < 256" "d < 32" "f < 8" "x < 256" "b' < 256" "d' < 32" "f' < 8" "x' < 256"
    and "pci_addr b d f x = pci_addr b' d' f' x'"
  shows "b = b' \<and> d = d' \<and> f = f' \<and> x = x'"
proof -
  have s: "\<not> bit z i" if "z \<in> {b, x, b', x'}" "8 \<le> i" for z i
    by (rule small_bit [OF _ that(2)]) (use that(1) assms in \<open>auto simp: word_less_nat_alt\<close>)
  have t: "\<not> bit z i" if "z \<in> {d, d'}" "5 \<le> i" for z i
    by (rule small_bit [OF _ that(2)]) (use that(1) assms in \<open>auto simp: word_less_nat_alt\<close>)
  have u: "\<not> bit z i" if "z \<in> {f, f'}" "3 \<le> i" for z i
    by (rule small_bit [OF _ that(2)]) (use that(1) assms in \<open>auto simp: word_less_nat_alt\<close>)
  have e: "bit (pci_addr b d f x) n \<longleftrightarrow> bit (pci_addr b' d' f' x') n" for n using assms(9) by simp
  have "bit b i \<longleftrightarrow> bit b' i" for i
    using e [of "16 + i"] s [of b i] s [of b' i] t [of _ "5 + i"] u [of _ "8 + i"] s [of _ "16 + i"]
    by (cases "i < 8") (auto simp: pci_addr_bit)
  moreover have "bit d i \<longleftrightarrow> bit d' i" for i
    using e [of "11 + i"] t [of d i] t [of d' i] u [of _ "3 + i"] s [of _ "11 + i"]
    by (cases "i < 5") (auto simp: pci_addr_bit)
  moreover have "bit f i \<longleftrightarrow> bit f' i" for i
    using e [of "8 + i"] u [of f i] u [of f' i] s [of _ "8 + i"]
    by (cases "i < 3") (auto simp: pci_addr_bit)
  moreover have "bit x i \<longleftrightarrow> bit x' i" for i
    using e [of i] s [of x i] s [of x' i]
    by (cases "i < 8") (auto simp: pci_addr_bit)
  ultimately show ?thesis by (auto intro: bit_word_eqI)
qed


section \<open>Properties\<close>

text \<open>C24: \<open>pci_init\<close> returns and prints a line for exactly the functions there are.  When
  every bridge leads to a bus with a larger number (as the numbering of a configured PCI
  hierarchy does), the lines printed on console 0 are those of the functions that answer and
  are no bridge, on bus 0 (or on the buses of the further functions of a host controller with
  several functions) or behind the bridges there, and of no others.\<close>

theorem pci_init_reports_functions:
  assumes "\<forall>b d f. b < 256 \<and> responds cfg b d f \<and> is_bridge cfg b d f \<longrightarrow> b < secondary_bus cfg b d f"
    and "shows_term 0 s T"
  shows "\<exists>s' fs. pci_init cfg stack s = Some s' \<and> set fs = {x. finds_all cfg x} \<and>
    shows_term 0 s' (fold (\<lambda>x. term_chars (pci_line cfg x)) fs T)"
proof -
  have "reports cfg (pci_init cfg stack) {x. finds_all cfg x}" by (rule pci_init_reports) (use assms(1) in blast)
  then show ?thesis using assms(2) unfolding reports_def print_lines_def by blast
qed

text \<open>A machine with a network controller on bus 0 and a disk controller behind a bridge.\<close>

definition sample_pci :: pci_config where
  "sample_pci a =
     (if a = pci_addr 0 0 0 0 then 0x12378086 else if a = pci_addr 0 0 0 8 then 0x02000000
      else if a = pci_addr 0 1 0 0 then 0x70008086 else if a = pci_addr 0 1 0 8 then 0x06040000
      else if a = pci_addr 0 1 0 0x18 then 0x100
      else if a = pci_addr 1 0 0 0 then 0x28298086 else if a = pci_addr 1 0 0 8 then 0x01060000
      else 0xffffffff)"

definition first_console :: tty_state where
  "first_console = tty_clear 0 (tty_init \<lparr>ttys = [], active_tty = 0, vram = (\<lambda>_. 0), port_in = (\<lambda>_. 0), port_reads = 0, tty_io = []\<rparr>)"

lemma first_console_shows: "\<exists>T. shows_term 0 first_console T"
proof -
  have "tty_id 0 = 0" by (simp add: tty_id_def MAX_TTYS_def)
  moreover have "0 < length (ttys (tty_init s))" for s by (simp add: tty_init_def)
  ultimately show ?thesis unfolding first_console_def using clear_shows [of 0] by metis
qed

lemma responds_vendor: "responds cfg b d f \<Longrightarrow> vendor_of cfg b d f \<noteq> 0xffff"
  by (auto simp: responds_def)


lemma sample_pci_at:
  assumes "b < 256" "d < 32" "f < 8" "x < 256"
  shows "sample_pci (pci_addr b d f x) =
    (if (b, d, f, x) = (0, 0, 0, 0) then 0x12378086 else if (b, d, f, x) = (0, 0, 0, 8) then 0x02000000
     else if (b, d, f, x) = (0, 1, 0, 0) then 0x70008086 else if (b, d, f, x) = (0, 1, 0, 8) then 0x06040000
     else if (b, d, f, x) = (0, 1, 0, 0x18) then 0x100
     else if (b, d, f, x) = (1, 0, 0, 0) then 0x28298086 else if (b, d, f, x) = (1, 0, 0, 8) then 0x01060000
     else 0xffffffff)"
proof -
  have i: "pci_addr b d f x = pci_addr b' d' f' x' \<longleftrightarrow> (b, d, f, x) = (b', d', f', x')"
    if "b' < 256" "d' < 32" "f' < 8" "x' < 256" for b' d' f' x'
    using pci_addr_inject [OF assms that] by blast
  have j: "pci_addr b d f x = pci_addr 0 0 0 0 \<longleftrightarrow> (b, d, f, x) = (0, 0, 0, 0)"
    "pci_addr b d f x = pci_addr 0 0 0 8 \<longleftrightarrow> (b, d, f, x) = (0, 0, 0, 8)"
    "pci_addr b d f x = pci_addr 0 1 0 0 \<longleftrightarrow> (b, d, f, x) = (0, 1, 0, 0)"
    "pci_addr b d f x = pci_addr 0 1 0 8 \<longleftrightarrow> (b, d, f, x) = (0, 1, 0, 8)"
    "pci_addr b d f x = pci_addr 0 1 0 0x18 \<longleftrightarrow> (b, d, f, x) = (0, 1, 0, 0x18)"
    "pci_addr b d f x = pci_addr 1 0 0 0 \<longleftrightarrow> (b, d, f, x) = (1, 0, 0, 0)"
    "pci_addr b d f x = pci_addr 1 0 0 8 \<longleftrightarrow> (b, d, f, x) = (1, 0, 0, 8)"
    by (rule i; simp)+
  show ?thesis unfolding sample_pci_def j ..
qed

lemma sample_pci_vendor:
  assumes "b < 256" "d < 32" "f < 8"
  shows "vendor_of sample_pci b d f \<noteq> 0xffff \<longleftrightarrow> (b, d, f) \<in> {(0, 0, 0), (0, 1, 0), (1, 0, 0)}"
  unfolding vendor_of_def sample_pci_at [OF assms, of 0, simplified] by auto

lemma sample_pci_responds:
  assumes "b < 256"
  shows "responds sample_pci b d f \<longleftrightarrow> (b, d, f) \<in> {(0, 0, 0), (0, 1, 0), (1, 0, 0)}"
proof (cases "d < 32 \<and> f < 8")
  case True
  then show ?thesis
    using sample_pci_vendor [OF assms, of d f] sample_pci_vendor [OF assms, of d 0] by (auto simp: responds_def)
next
  case False
  then show ?thesis by (auto simp: responds_def)
qed

lemma sample_pci_fields:
  "is_bridge sample_pci 0 1 0" "secondary_bus sample_pci 0 1 0 = 1" "\<not> is_bridge sample_pci 0 0 0"
  "\<not> is_bridge sample_pci 1 0 0"
  by (simp_all add: is_bridge_def class_of_def secondary_bus_def sample_pci_at)

lemma sample_pci_finds: "{x. finds_all sample_pci x} = {(0, 0, 0), (1, 0, 0)}"
proof -
  have one: "finds sample_pci 1 x \<longleftrightarrow> x = (1, 0, 0)" for x
    by (subst finds.simps) (auto simp: sample_pci_responds sample_pci_fields)
  have zero: "finds sample_pci 0 x \<longleftrightarrow> x = (0, 0, 0) \<or> x = (1, 0, 0)" for x
  proof
    assume "finds sample_pci 0 x"
    then show "x = (0, 0, 0) \<or> x = (1, 0, 0)"
      by (cases rule: finds.cases) (auto simp: sample_pci_responds sample_pci_fields one)
  next
    have "finds sample_pci 0 (1, 0, 0)"
      using finds.behind [of sample_pci 0 1 0 "(1, 0, 0)"] by (simp add: sample_pci_responds sample_pci_fields one)
    then show "x = (0, 0, 0) \<or> x = (1, 0, 0) \<Longrightarrow> finds sample_pci 0 x"
      using finds.here [of sample_pci 0 0 0] by (auto simp: sample_pci_responds sample_pci_fields)
  qed
  have "vendor_of sample_pci 0 0 b = 0xffff" if "0 < b" "b < 8" for b
    using sample_pci_vendor [of 0 0 b] that by auto
  then show ?thesis unfolding finds_all_def zero by auto
qed

theorem pci_init_reports_functions_witness:
  "\<exists>s' fs T. pci_init sample_pci (\<lambda>_. 0) first_console = Some s' \<and> set fs = {(0, 0, 0), (1, 0, 0)} \<and>
     shows_term 0 s' (fold (\<lambda>x. term_chars (pci_line sample_pci x)) fs T)"
proof -
  obtain T where T: "shows_term 0 first_console T" using first_console_shows by blast
  have up: "\<forall>b d f. b < 256 \<and> responds sample_pci b d f \<and> is_bridge sample_pci b d f \<longrightarrow> b < secondary_bus sample_pci b d f"
    using sample_pci_responds sample_pci_fields by auto
  show ?thesis using pci_init_reports_functions [OF up T, of "\<lambda>_. 0"] unfolding sample_pci_finds by blast
qed

text \<open>C25: the probe does not notice bridges in a circle.  When bus 0 is one of a set of buses
  each of which has a bridge to a bus of the set (a bridge whose secondary bus was never
  configured and reads as 0 is enough), \<open>pci_init\<close> never returns.\<close>

theorem pci_init_circle:
  assumes "0 \<in> B"
    and "\<forall>b \<in> B. \<exists>d f. responds cfg b d f \<and> is_bridge cfg b d f \<and> secondary_bus cfg b d f \<in> B"
  shows "pci_init cfg stack s = None"
  using probe_bus_stuck [OF assms(2,1)] by (simp add: pci_init_def)

definition unconfigured_pci :: pci_config where
  "unconfigured_pci a =
     (if a = pci_addr 0 1 0 0 then 0x70008086 else if a = pci_addr 0 1 0 8 then 0x06040000
      else if a = pci_addr 0 1 0 0x18 then 0 else 0xffffffff)"

theorem pci_init_circle_witness:
  "pci_init unconfigured_pci (\<lambda>_. 0) first_console = None"
proof (rule pci_init_circle [of "{0}"])
  have "responds unconfigured_pci 0 1 0 \<and> is_bridge unconfigured_pci 0 1 0 \<and> secondary_bus unconfigured_pci 0 1 0 = 0"
    by (simp add: responds_def vendor_of_def is_bridge_def class_of_def secondary_bus_def unconfigured_pci_def pci_addr_def)
  then show "\<forall>b \<in> {0}. \<exists>d f. responds unconfigured_pci b d f \<and> is_bridge unconfigured_pci b d f \<and>
      secondary_bus unconfigured_pci b d f \<in> {0}" by auto
qed simp

end
