(* ===== verification/Acpi.thy ===== *)
theory Acpi
  imports Format Kmem
begin

text \<open>
  The ACPI tables (\<^verbatim>\<open>kernel/mem/acpi.c\<close>, \<^verbatim>\<open>include/kernel/mem/acpi.h\<close>): the search for the root
  pointer, the mapping of the tables in the boot loader's page table, the reading of the tables
  the root table lists, and the iterations over the entries of the MADT and the MCFG.  The
  firmware's memory is a function from addresses to bytes that the code only reads; pointers are
  addresses, \<open>NULL\<close> is 0.  The boot page table is memory of its own: the firmware's tables do not
  lie in the pages the boot loader reserved for it.  \<open>fatal\<close> and loops that never end are \<open>None\<close>.
\<close>

section \<open>Data in memory\<close>

type_synonym ram = "u64 \<Rightarrow> u8"

definition rd16 :: "ram \<Rightarrow> u64 \<Rightarrow> u16" where
  "rd16 m a = ucast (m a) OR push_bit 8 (ucast (m (a + 1)))"

definition rd32 :: "ram \<Rightarrow> u64 \<Rightarrow> u32" where
  "rd32 m a = ucast (rd16 m a) OR push_bit 16 (ucast (rd16 m (a + 2)))"

definition rd64 :: "ram \<Rightarrow> u64 \<Rightarrow> u64" where
  "rd64 m a = ucast (rd32 m a) OR push_bit 32 (ucast (rd32 m (a + 4)))"

definition bytes_at :: "ram \<Rightarrow> u64 \<Rightarrow> nat \<Rightarrow> u8 list" where
  "bytes_at m a n = map (\<lambda>i. m (a + of_nat i)) [0..<n]"

text \<open>The string a \<open>char\<close> pointer stands for: what is before the next zero byte, in the array or
  behind it.\<close>

definition str_at :: "ram \<Rightarrow> u64 \<Rightarrow> u8 list option" where
  "str_at m a = do { n \<leftarrow> strlen (\<lambda>i. m (of_int i)) (uint a); Some (bytes_at m a n) }"

section \<open>The tables\<close>

record acpi_hdr =
  signature :: u32
  hdr_length :: u32
  revision :: u8
  checksum :: u8
  oemid :: "u8 list"
  oemtableid :: "u8 list"
  oemrevision :: u32
  creatorid :: "u8 list"
  creator_revision :: u32

definition acpi_hdr_at :: "ram \<Rightarrow> u64 \<Rightarrow> acpi_hdr" where
  "acpi_hdr_at m a = \<lparr>signature = rd32 m a, hdr_length = rd32 m (a + 4), revision = m (a + 8), checksum = m (a + 9),
     oemid = bytes_at m (a + 10) 6, oemtableid = bytes_at m (a + 16) 8, oemrevision = rd32 m (a + 24),
     creatorid = bytes_at m (a + 28) 4, creator_revision = rd32 m (a + 32)\<rparr>"

definition SIZEOF_HDR :: u64 where "SIZEOF_HDR = 36"

record acpi_rsdp =
  rsdp_signature :: "u8 list"
  rsdp_checksum :: u8
  rsdp_oemid :: "u8 list"
  rsdp_revision :: u8
  ptr_rsdt :: u32
  rsdp_length :: u32
  ptr_xsdt :: u64
  checksum_ex :: u8

definition acpi_rsdp_at :: "ram \<Rightarrow> u64 \<Rightarrow> acpi_rsdp" where
  "acpi_rsdp_at m a = \<lparr>rsdp_signature = bytes_at m a 8, rsdp_checksum = m (a + 8), rsdp_oemid = bytes_at m (a + 9) 6,
     rsdp_revision = m (a + 15), ptr_rsdt = rd32 m (a + 16), rsdp_length = rd32 m (a + 20),
     ptr_xsdt = rd64 m (a + 24), checksum_ex = m (a + 32)\<rparr>"

text \<open>The pointers of the root tables.\<close>

definition rsdt_ptr_table :: "ram \<Rightarrow> u64 \<Rightarrow> u64 \<Rightarrow> u32" where
  "rsdt_ptr_table m rsdt i = rd32 m (rsdt + SIZEOF_HDR + 4 * i)"

definition xsdt_ptr_table :: "ram \<Rightarrow> u64 \<Rightarrow> u64 \<Rightarrow> u64" where
  "xsdt_ptr_table m xsdt i = rd64 m (xsdt + SIZEOF_HDR + 8 * i)"

record acpi_madt =
  madt_hdr :: acpi_hdr
  ptr_local_apic :: u32
  madt_flags :: u32

definition acpi_madt_at :: "ram \<Rightarrow> u64 \<Rightarrow> acpi_madt" where
  "acpi_madt_at m a = \<lparr>madt_hdr = acpi_hdr_at m a, ptr_local_apic = rd32 m (a + 36), madt_flags = rd32 m (a + 40)\<rparr>"

definition SIZEOF_MADT :: u64 where "SIZEOF_MADT = 44"

datatype acpi_madt_type =
  ACPI_MADT_LOCAL_APIC | ACPI_MADT_IO_APIC | ACPI_MADT_ISO | ACPI_MADT_NMIS | ACPI_MADT_LOCAL_NMI
| ACPI_MADT_LOCAL_ADDR | ACPI_MADT_IO_SAPIC | ACPI_MADT_LOCAL_SAPIC | ACPI_MADT_PLATFORM_IS
| ACPI_MADT_LOCAL_X2APIC | ACPI_MADT_X2APIC_NMI | ACPI_MADT_GIC | ACPI_MADT_GICD

primrec madt_type_val :: "acpi_madt_type \<Rightarrow> u8" where
  "madt_type_val ACPI_MADT_LOCAL_APIC = 0"
| "madt_type_val ACPI_MADT_IO_APIC = 1"
| "madt_type_val ACPI_MADT_ISO = 2"
| "madt_type_val ACPI_MADT_NMIS = 3"
| "madt_type_val ACPI_MADT_LOCAL_NMI = 4"
| "madt_type_val ACPI_MADT_LOCAL_ADDR = 5"
| "madt_type_val ACPI_MADT_IO_SAPIC = 6"
| "madt_type_val ACPI_MADT_LOCAL_SAPIC = 7"
| "madt_type_val ACPI_MADT_PLATFORM_IS = 8"
| "madt_type_val ACPI_MADT_LOCAL_X2APIC = 9"
| "madt_type_val ACPI_MADT_X2APIC_NMI = 10"
| "madt_type_val ACPI_MADT_GIC = 11"
| "madt_type_val ACPI_MADT_GICD = 12"

record acpi_madt_hdr =
  mtype :: u8
  mlength :: u8

definition acpi_madt_hdr_at :: "ram \<Rightarrow> u64 \<Rightarrow> acpi_madt_hdr" where
  "acpi_madt_hdr_at m a = \<lparr>mtype = m a, mlength = m (a + 1)\<rparr>"

record acpi_madt_local_apic =
  la_procid :: u8
  la_apicid :: u8
  la_flags :: u32

definition acpi_madt_local_apic_at :: "ram \<Rightarrow> u64 \<Rightarrow> acpi_madt_local_apic" where
  "acpi_madt_local_apic_at m a = \<lparr>la_procid = m (a + 2), la_apicid = m (a + 3), la_flags = rd32 m (a + 4)\<rparr>"

record acpi_madt_io_apic =
  io_apicid :: u8
  ptr_io_apic :: u32
  interrupt_base :: u32

definition acpi_madt_io_apic_at :: "ram \<Rightarrow> u64 \<Rightarrow> acpi_madt_io_apic" where
  "acpi_madt_io_apic_at m a = \<lparr>io_apicid = m (a + 2), ptr_io_apic = rd32 m (a + 4), interrupt_base = rd32 m (a + 8)\<rparr>"

record acpi_madt_iso =
  iso_bus :: u8
  iso_source :: u8
  iso_interrupt :: u32
  iso_flags :: u16

definition acpi_madt_iso_at :: "ram \<Rightarrow> u64 \<Rightarrow> acpi_madt_iso" where
  "acpi_madt_iso_at m a = \<lparr>iso_bus = m (a + 2), iso_source = m (a + 3), iso_interrupt = rd32 m (a + 4),
     iso_flags = rd16 m (a + 8)\<rparr>"

definition SIZEOF_MCFG :: u64 where "SIZEOF_MCFG = 44"

record acpi_mcfg_addr =
  mcfg_base :: u64
  seg_group :: u16
  bus_start :: u8
  bus_end :: u8

definition acpi_mcfg_addr_at :: "ram \<Rightarrow> u64 \<Rightarrow> acpi_mcfg_addr" where
  "acpi_mcfg_addr_at m a = \<lparr>mcfg_base = rd64 m a, seg_group = rd16 m (a + 8), bus_start = m (a + 10), bus_end = m (a + 11)\<rparr>"

definition SIZEOF_MCFG_ADDR :: u64 where "SIZEOF_MCFG_ADDR = 16"

section \<open>The module's state\<close>

record acpi =
  ac_version :: int
  ac_rsdp :: u64
  ac_rsdt :: u64
  ac_xsdt :: u64
  ac_fadt :: u64
  ac_madt :: u64
  ac_mcfg :: u64

definition acpi_boot :: acpi where
  "acpi_boot = \<lparr>ac_version = 0, ac_rsdp = 0, ac_rsdt = 0, ac_xsdt = 0, ac_fadt = 0, ac_madt = 0, ac_mcfg = 0\<rparr>"

definition SIGNATURE_RSDP :: u64 where "SIGNATURE_RSDP = 0x2052545020445352"
definition SIGNATURE_MADT :: u32 where "SIGNATURE_MADT = 0x43495041"
definition SIGNATURE_FADT :: u32 where "SIGNATURE_FADT = 0x50434146"
definition SIGNATURE_MCFG :: u32 where "SIGNATURE_MCFG = 0x4746434d"

definition read_fadt :: "u64 \<Rightarrow> acpi \<Rightarrow> acpi" where "read_fadt hdr ac = ac\<lparr>ac_fadt := hdr\<rparr>"
definition read_madt :: "u64 \<Rightarrow> acpi \<Rightarrow> acpi" where "read_madt hdr ac = ac\<lparr>ac_madt := hdr\<rparr>"
definition read_mcfg :: "u64 \<Rightarrow> acpi \<Rightarrow> acpi" where "read_mcfg hdr ac = ac\<lparr>ac_mcfg := hdr\<rparr>"

definition read_table :: "ram \<Rightarrow> u64 \<Rightarrow> acpi \<Rightarrow> acpi" where
  "read_table m hdr ac =
     (let s = signature (acpi_hdr_at m hdr) in
      if s = SIGNATURE_FADT then read_fadt hdr ac
      else if s = SIGNATURE_MADT then read_madt hdr ac
      else if s = SIGNATURE_MCFG then read_mcfg hdr ac
      else ac)"

section \<open>The boot page table\<close>

definition PAGE_ALIGN_DOWN :: "u64 \<Rightarrow> u64" where "PAGE_ALIGN_DOWN a = a AND NOT (PAGE_SIZE - 1)"
definition PAGE_ALIGN_UP :: "u64 \<Rightarrow> u64" where "PAGE_ALIGN_UP a = (a + PAGE_SIZE - 1) AND NOT (PAGE_SIZE - 1)"

record btable =
  broot :: u64
  next_page :: u64
  term_page :: u64

definition is_mapped :: "btable \<Rightarrow> pmem \<Rightarrow> u64 \<Rightarrow> bool" where
  "is_mapped bt m addr =
     (let pml4t = broot bt in
      if get_entry m pml4t (PML4E addr) = 0 then False
      else let pdpt = PGPTR (get_entry m pml4t (PML4E addr)) in
        if get_entry m pdpt (PDPTE addr) = 0 then False
        else if get_entry m pdpt (PDPTE addr) AND PF_PS \<noteq> 0 then True
        else let pdt = PGPTR (get_entry m pdpt (PDPTE addr)) in
          if get_entry m pdt (PDE addr) = 0 then False
          else if get_entry m pdt (PDE addr) AND PF_PS \<noteq> 0 then True
          else let pt = PGPTR (get_entry m pdt (PDE addr)) in get_entry m pt (PTE addr) \<noteq> 0)"

definition acpi_alloc_page :: "btable \<times> pmem \<Rightarrow> (u64 \<times> btable \<times> pmem) option" where
  "acpi_alloc_page = (\<lambda>(bt, m).
     if next_page bt = term_page bt then None
     else let page = next_page bt
       in Some (page OR PF_PRESENT OR PF_RW, bt\<lparr>next_page := page + PAGE_SIZE\<rparr>, zero_mem page PAGE_SIZE m))"

text \<open>A missing table is allocated and linked; the result is the table the entry refers to.\<close>

definition acpi_table :: "u64 \<Rightarrow> u64 \<Rightarrow> btable \<times> pmem \<Rightarrow> (u64 \<times> btable \<times> pmem) option" where
  "acpi_table page e = (\<lambda>(bt, m).
     if get_entry m page e = 0 then do {
       (v, bt, m) \<leftarrow> acpi_alloc_page (bt, m);
       let m = set_entry page e v m;
       Some (PGPTR (get_entry m page e), bt, m)
     }
     else Some (PGPTR (get_entry m page e), bt, m))"

definition acpi_create_page :: "u64 \<Rightarrow> u64 \<Rightarrow> btable \<times> pmem \<Rightarrow> (btable \<times> pmem) option" where
  "acpi_create_page addr fl s = do {
     (pdpt, s) \<leftarrow> acpi_table (broot (fst s)) (PML4E addr) s;
     (pdt, s) \<leftarrow> acpi_table pdpt (PDPTE addr) s;
     (pt, bt, m) \<leftarrow> acpi_table pdt (PDE addr) s;
     Some (bt, set_entry pt (PTE addr) (addr OR fl) m)
   }"

text \<open>The loop of \<open>map_range\<close>; it does not end when \<open>addr\<close> wraps around below \<open>term\<close>.\<close>

partial_function (option) map_range_loop :: "u64 \<Rightarrow> u64 \<Rightarrow> u64 \<Rightarrow> btable \<times> pmem \<Rightarrow> (btable \<times> pmem) option" where
  "map_range_loop addr end fl s =
     (if addr < end then do {
        s \<leftarrow> (if is_mapped (fst s) (snd s) addr then Some s else acpi_create_page addr fl s);
        map_range_loop (addr + PAGE_SIZE) end fl s
      } else Some s)"

declare map_range_loop.simps [code]

definition map_range :: "u64 \<Rightarrow> u64 \<Rightarrow> u64 \<Rightarrow> btable \<times> pmem \<Rightarrow> (btable \<times> pmem) option" where
  "map_range addr sz fl = map_range_loop (PAGE_ALIGN_DOWN addr) (PAGE_ALIGN_UP (addr + sz)) fl"


section \<open>Reading the tables\<close>

text \<open>What \<open>acpi_init\<close> works on: the firmware's memory, the boot page table, the module's
  variables, the memory map, and the log with the callbacks issued.\<close>

record acpi_machine =
  am_ram :: ram
  am_boot :: "btable \<times> pmem"
  am_acpi :: acpi
  am_pmap :: pmap_state
  am_log :: log_context
  am_calls :: "(log_callback \<times> loglevel \<times> u8 list) list"

definition am_logf :: "loglevel \<Rightarrow> u8 list \<Rightarrow> arg list \<Rightarrow> (nat \<Rightarrow> u8) \<Rightarrow> acpi_machine \<Rightarrow> acpi_machine option" where
  "am_logf lev fmt as stack s = do {
     (lc, calls) \<leftarrow> logf lev fmt as stack (am_log s);
     Some (s\<lparr>am_log := lc, am_calls := am_calls s @ calls\<rparr>)
   }"

definition am_pmap_add :: "u64 \<Rightarrow> u64 \<Rightarrow> pmemtype \<Rightarrow> acpi_machine \<Rightarrow> acpi_machine option" where
  "am_pmap_add addr sz t s = do { p \<leftarrow> pmap_add addr sz t (am_pmap s); Some (s\<lparr>am_pmap := p\<rparr>) }"

definition map_table :: "u64 \<Rightarrow> acpi_machine \<Rightarrow> acpi_machine option" where
  "map_table hdr s = do {
     let fl = PF_PRESENT OR PF_RW;
     b \<leftarrow> map_range hdr SIZEOF_HDR fl (am_boot s);
     let sz = ucast (hdr_length (acpi_hdr_at (am_ram s) hdr));
     b \<leftarrow> map_range hdr sz fl b;
     am_pmap_add (PAGE_ALIGN_DOWN hdr) (PAGE_ALIGN_UP (hdr + sz) - PAGE_ALIGN_DOWN hdr) PMEMTYPE_ACPI (s\<lparr>am_boot := b\<rparr>)
   }"

text \<open>\<open>int tables = (int)(length - sizeof(hdr)) / sizeof(entry)\<close>: the difference is cut to an
  \<open>int\<close>, divided as an unsigned 64-bit number, and cut again.\<close>

definition table_count :: "u32 \<Rightarrow> u64 \<Rightarrow> int" where
  "table_count len sz = sint (ucast ((scast (ucast (ucast len - SIZEOF_HDR) :: u32) :: u64) div sz) :: u32)"

text \<open>The first message of \<open>read_xsdt\<close> and \<open>read_rsdt\<close>, and what they do with one table.\<close>

definition log_root :: "u64 \<Rightarrow> (nat \<Rightarrow> u8) \<Rightarrow> acpi_machine \<Rightarrow> acpi_machine option" where
  "log_root xhdr stack s = do {
     oem \<leftarrow> str_at (am_ram s) (xhdr + 10);
     tbl \<leftarrow> str_at (am_ram s) (xhdr + 16);
     creator \<leftarrow> str_at (am_ram s) (xhdr + 28);
     am_logf LOG_INFO (asc ''[acpi] oem='' @ [0x27] @ asc ''%.6s'' @ [0x27] @ asc '' tbl='' @ [0x27] @ asc ''%.8s'' @ [0x27] @
         asc '' rev=%#x creator='' @ [0x27] @ asc ''%.4s'' @ [0x27])
       [ArgStr (Some oem), ArgStr (Some tbl), ArgInt (oemrevision (acpi_hdr_at (am_ram s) xhdr)), ArgStr (Some creator)] stack s
   }"

definition visit_table :: "u64 \<Rightarrow> (nat \<Rightarrow> u8) \<Rightarrow> acpi_machine \<Rightarrow> acpi_machine option" where
  "visit_table hdr stack s = do {
     s \<leftarrow> map_table hdr s;
     sig \<leftarrow> str_at (am_ram s) hdr;
     s \<leftarrow> am_logf LOG_INFO (asc ''[acpi] Found %.4s table at %#lx.'') [ArgStr (Some sig), ArgLong hdr] stack s;
     Some (s\<lparr>am_acpi := read_table (am_ram s) hdr (am_acpi s)\<rparr>)
   }"

definition read_xsdt :: "(nat \<Rightarrow> u8) \<Rightarrow> acpi_machine \<Rightarrow> acpi_machine option" where
  "read_xsdt stack s = do {
     let xsdt = ac_xsdt (am_acpi s);
     s \<leftarrow> log_root xsdt stack s;
     let tables = table_count (hdr_length (acpi_hdr_at (am_ram s) xsdt)) 8;
     foldM (\<lambda>i s. visit_table (xsdt_ptr_table (am_ram s) xsdt (of_nat i)) stack s) [0..<nat tables] s
   }"

definition read_rsdt :: "(nat \<Rightarrow> u8) \<Rightarrow> acpi_machine \<Rightarrow> acpi_machine option" where
  "read_rsdt stack s = do {
     let rsdt = ac_rsdt (am_acpi s);
     s \<leftarrow> log_root rsdt stack s;
     let tables = table_count (hdr_length (acpi_hdr_at (am_ram s) rsdt)) 4;
     foldM (\<lambda>i s. visit_table (ucast (rsdt_ptr_table (am_ram s) rsdt (of_nat i))) stack s) [0..<nat tables] s
   }"

section \<open>Finding the root pointer\<close>

partial_function (option) find_rsdp_loop :: "ram \<Rightarrow> u64 \<Rightarrow> u64 \<Rightarrow> u64 option" where
  "find_rsdp_loop m ptr end =
     (if ptr < end
      then if rd64 m ptr = SIGNATURE_RSDP then Some ptr else find_rsdp_loop m (ptr + 16) end
      else Some 0)"

declare find_rsdp_loop.simps [code]

definition find_rsdp :: "ram \<Rightarrow> u64 \<Rightarrow> u64 \<Rightarrow> u64 option" where
  "find_rsdp m addr sz = find_rsdp_loop m addr (addr + sz)"

section \<open>The entries of the MADT and the MCFG\<close>

partial_function (option) madt_find_loop :: "ram \<Rightarrow> acpi_madt_type \<Rightarrow> u64 \<Rightarrow> u64 \<Rightarrow> u64 option" where
  "madt_find_loop m ty ptr end =
     (if ptr < end
      then if mtype (acpi_madt_hdr_at m ptr) = madt_type_val ty then Some ptr
           else madt_find_loop m ty (ptr + ucast (mlength (acpi_madt_hdr_at m ptr))) end
      else Some 0)"

declare madt_find_loop.simps [code]

definition madt_find :: "ram \<Rightarrow> acpi \<Rightarrow> acpi_madt_type \<Rightarrow> u64 \<Rightarrow> u64 option" where
  "madt_find m ac ty prev =
     (let madt = ac_madt ac in
      if madt = 0 then Some 0
      else madt_find_loop m ty
        (if prev = 0 then madt + SIZEOF_MADT else prev + ucast (mlength (acpi_madt_hdr_at m prev)))
        (madt + ucast (hdr_length (madt_hdr (acpi_madt_at m madt)))))"

definition acpi_next_local_apic :: "ram \<Rightarrow> acpi \<Rightarrow> u64 \<Rightarrow> u64 option" where
  "acpi_next_local_apic m ac prev = madt_find m ac ACPI_MADT_LOCAL_APIC prev"

definition acpi_next_io_apic :: "ram \<Rightarrow> acpi \<Rightarrow> u64 \<Rightarrow> u64 option" where
  "acpi_next_io_apic m ac prev = madt_find m ac ACPI_MADT_IO_APIC prev"

definition acpi_next_iso :: "ram \<Rightarrow> acpi \<Rightarrow> u64 \<Rightarrow> u64 option" where
  "acpi_next_iso m ac prev = madt_find m ac ACPI_MADT_ISO prev"

definition acpi_next_mcfg_addr :: "ram \<Rightarrow> acpi \<Rightarrow> u64 \<Rightarrow> u64" where
  "acpi_next_mcfg_addr m ac prev =
     (let mcfg = ac_mcfg ac in
      if mcfg = 0 then 0
      else let ptr = (if prev = 0 then mcfg + SIZEOF_MCFG else prev + SIZEOF_MCFG_ADDR);
               end = mcfg + ucast (hdr_length (acpi_hdr_at m mcfg))
        in if ptr < end then ptr else 0)"

definition acpi_version :: "acpi \<Rightarrow> int" where "acpi_version ac = ac_version ac"
definition acpi_fadt :: "acpi \<Rightarrow> u64" where "acpi_fadt ac = ac_fadt ac"
definition acpi_madt_ptr :: "acpi \<Rightarrow> u64" where "acpi_madt_ptr ac = ac_madt ac"

section \<open>Initialization\<close>

definition KMEM_BOOT_PAGETABLE :: u64 where "KMEM_BOOT_PAGETABLE = 0x00010000"
definition KMEM_BOOT_PAGETABLE_LOADED :: u64 where "KMEM_BOOT_PAGETABLE_LOADED = 0x00014000"
definition KMEM_BOOT_PAGETABLE_END :: u64 where "KMEM_BOOT_PAGETABLE_END = 0x00020000"
definition KMEM_EXTENDED_BIOS :: u64 where "KMEM_EXTENDED_BIOS = 0x0009f800"
definition KMEM_EXTENDED_BIOS_SIZE :: u64 where "KMEM_EXTENDED_BIOS_SIZE = 0x00000800"
definition KMEM_SYSTEM_ROM :: u64 where "KMEM_SYSTEM_ROM = 0x000c0000"
definition KMEM_SYSTEM_ROM_SIZE :: u64 where "KMEM_SYSTEM_ROM_SIZE = 0x00040000"

definition locate_rsdp :: "ram \<Rightarrow> u64 option" where
  "locate_rsdp m = do {
     p \<leftarrow> find_rsdp m KMEM_EXTENDED_BIOS KMEM_EXTENDED_BIOS_SIZE;
     if p = 0 then find_rsdp m KMEM_SYSTEM_ROM KMEM_SYSTEM_ROM_SIZE else Some p
   }"

definition set_acpi :: "(acpi \<Rightarrow> acpi) \<Rightarrow> acpi_machine \<Rightarrow> acpi_machine" where
  "set_acpi f s = s\<lparr>am_acpi := f (am_acpi s)\<rparr>"

definition try_xsdt :: "(nat \<Rightarrow> u8) \<Rightarrow> acpi_machine \<Rightarrow> acpi_machine option" where
  "try_xsdt stack s =
     (if ac_version (am_acpi s) > 1 then do {
        let s = set_acpi (\<lambda>ac. ac\<lparr>ac_xsdt := ptr_xsdt (acpi_rsdp_at (am_ram s) (ac_rsdp ac))\<rparr>) s;
        if ac_xsdt (am_acpi s) = 0
        then am_logf LOG_INFO (asc ''[acpi] No XSDT table found.'') [] stack s
        else do {
          s \<leftarrow> am_logf LOG_INFO (asc ''[acpi] Found XSDT table at %#lx.'') [ArgLong (ac_xsdt (am_acpi s))] stack s;
          s \<leftarrow> map_table (ac_xsdt (am_acpi s)) s;
          read_xsdt stack s
        }
      } else Some s)"

definition try_rsdt :: "(nat \<Rightarrow> u8) \<Rightarrow> acpi_machine \<Rightarrow> acpi_machine option" where
  "try_rsdt stack s =
     (if ac_xsdt (am_acpi s) = 0 then do {
        let s = set_acpi (\<lambda>ac. ac\<lparr>ac_rsdt := ucast (ptr_rsdt (acpi_rsdp_at (am_ram s) (ac_rsdp ac)))\<rparr>) s;
        if ac_rsdt (am_acpi s) = 0 then None
        else do {
          s \<leftarrow> am_logf LOG_INFO (asc ''[acpi] Found RSDT table at %#lx.'') [ArgLong (ac_rsdt (am_acpi s))] stack s;
          s \<leftarrow> map_table (ac_rsdt (am_acpi s)) s;
          read_rsdt stack s
        }
      } else Some s)"

definition reserve_local_apic :: "acpi_machine \<Rightarrow> acpi_machine option" where
  "reserve_local_apic s =
     (let madt = ac_madt (am_acpi s) in
      if madt \<noteq> 0
      then am_pmap_add (PAGE_ALIGN_DOWN (ucast (ptr_local_apic (acpi_madt_at (am_ram s) madt)))) PAGE_SIZE PMEMTYPE_UNCACHED s
      else Some s)"

text \<open>\<open>while ((io = acpi_next_io_apic(io)) != NULL)\<close>\<close>

partial_function (option) reserve_io_apics :: "u64 \<Rightarrow> acpi_machine \<Rightarrow> acpi_machine option" where
  "reserve_io_apics io s = do {
     io \<leftarrow> acpi_next_io_apic (am_ram s) (am_acpi s) io;
     if io \<noteq> 0 then do {
       s \<leftarrow> am_pmap_add (PAGE_ALIGN_DOWN (ucast (ptr_io_apic (acpi_madt_io_apic_at (am_ram s) io)))) PAGE_SIZE PMEMTYPE_UNCACHED s;
       reserve_io_apics io s
     } else Some s
   }"

declare reserve_io_apics.simps [code]

definition acpi_init :: "(nat \<Rightarrow> u8) \<Rightarrow> acpi_machine \<Rightarrow> acpi_machine option" where
  "acpi_init stack s = do {
     let s = s\<lparr>am_boot := (\<lparr>broot = KMEM_BOOT_PAGETABLE, next_page = KMEM_BOOT_PAGETABLE_LOADED,
                             term_page = KMEM_BOOT_PAGETABLE_END\<rparr>, snd (am_boot s))\<rparr>;
     rsdp \<leftarrow> locate_rsdp (am_ram s);
     let s = set_acpi (\<lambda>ac. ac\<lparr>ac_rsdp := rsdp\<rparr>) s;
     if rsdp = 0 then None
     else do {
       let s = set_acpi (\<lambda>ac. ac\<lparr>ac_version := uint (rsdp_revision (acpi_rsdp_at (am_ram s) rsdp)) + 1\<rparr>) s;
       s \<leftarrow> am_logf LOG_INFO (asc ''[acpi] ACPI %d.0 RSDP table found at %#lx.'')
              [ArgInt (of_int (ac_version (am_acpi s))), ArgLong rsdp] stack s;
       s \<leftarrow> try_xsdt stack s;
       s \<leftarrow> try_rsdt stack s;
       s \<leftarrow> reserve_local_apic s;
       reserve_io_apics 0 s
     }
   }"


section \<open>Iterating over the MADT\<close>

text \<open>\<open>madt_entries m a end es\<close>: from \<open>a\<close> on up to \<open>end\<close> the entries of the MADT are \<open>es\<close>, each
  given by its address and its type.\<close>

fun madt_entries :: "ram \<Rightarrow> u64 \<Rightarrow> u64 \<Rightarrow> (u64 \<times> u8) list \<Rightarrow> bool" where
  "madt_entries m a term [] \<longleftrightarrow> \<not> a < term"
| "madt_entries m a term ((p, t) # es) \<longleftrightarrow>
     a < term \<and> p = a \<and> t = m a \<and> madt_entries m (a + ucast (m (a + 1))) term es"

definition of_type :: "acpi_madt_type \<Rightarrow> (u64 \<times> u8) list \<Rightarrow> u64 list" where
  "of_type ty es = map fst (filter (\<lambda>e. snd e = madt_type_val ty) es)"

definition madt_start :: "acpi \<Rightarrow> u64" where "madt_start ac = ac_madt ac + SIZEOF_MADT"

definition madt_end :: "ram \<Rightarrow> acpi \<Rightarrow> u64" where
  "madt_end m ac = ac_madt ac + ucast (rd32 m (ac_madt ac + 4))"

text \<open>Calls of an iterator, each with the result of the one before, the first with \<open>NULL\<close>.\<close>

fun visits :: "(u64 \<Rightarrow> u64 option) \<Rightarrow> u64 \<Rightarrow> u64 list \<Rightarrow> bool" where
  "visits nxt prev [] \<longleftrightarrow> nxt prev = Some 0"
| "visits nxt prev (p # ps) \<longleftrightarrow> nxt prev = Some p \<and> p \<noteq> 0 \<and> visits nxt p ps"

lemma madt_find_from:
  assumes "ac_madt ac \<noteq> 0" "prev \<noteq> 0"
  shows "madt_find m ac ty prev = madt_find_loop m ty (prev + ucast (m (prev + 1))) (madt_end m ac)"
  using assms by (simp add: madt_find_def Let_def acpi_madt_hdr_at_def acpi_madt_at_def acpi_hdr_at_def madt_end_def)

lemma madt_find_first:
  assumes "ac_madt ac \<noteq> 0"
  shows "madt_find m ac ty 0 = madt_find_loop m ty (madt_start ac) (madt_end m ac)"
  using assms by (simp add: madt_find_def Let_def acpi_madt_at_def acpi_hdr_at_def madt_end_def madt_start_def)

lemma madt_find_visits:
  assumes ac: "ac_madt ac \<noteq> 0"
  shows "madt_entries m a (madt_end m ac) es \<Longrightarrow> 0 \<notin> fst ` set es \<Longrightarrow>
    madt_find m ac ty prev = madt_find_loop m ty a (madt_end m ac) \<Longrightarrow>
    visits (madt_find m ac ty) prev (of_type ty es)"
proof (induction es arbitrary: a prev)
  case Nil
  then show ?case by (simp add: of_type_def madt_find_loop.simps [of m ty a])
next
  case (Cons e es)
  obtain p t where e: "e = (p, t)" by (cases e)
  let ?b = "a + ucast (m (a + 1))"
  have p: "a < madt_end m ac" "p = a" "t = m a" "madt_entries m ?b (madt_end m ac) es"
    using Cons.prems(1) by (simp_all add: e)
  have nz: "a \<noteq> 0" "0 \<notin> fst ` set es" using Cons.prems(2) by (auto simp: e p)
  show ?case
  proof (cases "t = madt_type_val ty")
    case True
    then have "madt_find m ac ty prev = Some a"
      using Cons.prems(3) p by (simp add: madt_find_loop.simps [of m ty a] acpi_madt_hdr_at_def)
    moreover have "visits (madt_find m ac ty) a (of_type ty es)"
      by (rule Cons.IH [OF p(4) nz(2) madt_find_from [OF ac nz(1)]])
    ultimately show ?thesis using True nz by (simp add: of_type_def e p)
  next
    case False
    then have "madt_find m ac ty prev = madt_find_loop m ty ?b (madt_end m ac)"
      using Cons.prems(3) p by (simp add: madt_find_loop.simps [of m ty a] acpi_madt_hdr_at_def)
    from Cons.IH [OF p(4) nz(2) this] False show ?thesis by (simp add: of_type_def e)
  qed
qed

text \<open>An entry of length 0 that is passed over.\<close>

lemma madt_find_loop_stuck:
  assumes stuck: "a < e" "m a \<noteq> madt_type_val ty" "m (a + 1) = 0"
  shows "madt_find_loop m ty a e = None"
proof (rule ccontr)
  assume "madt_find_loop m ty a e \<noteq> None"
  then obtain y where "madt_find_loop m ty a e = Some y" by auto
  then have "\<not> (m = m \<and> ty = ty \<and> a = a \<and> e = e)"
  proof (rule madt_find_loop.raw_induct [where P = "\<lambda>m' ty' a' e' y. \<not> (m' = m \<and> ty' = ty \<and> a' = a \<and> e' = e)", rotated])
    fix loop m' ty' a' e' y
    assume IH: "\<And>m' ty' a' e' y. loop m' ty' a' e' = Some y \<Longrightarrow> \<not> (m' = m \<and> ty' = ty \<and> a' = a \<and> e' = e)"
      and step: "(if a' < e'
        then if mtype (acpi_madt_hdr_at m' a') = madt_type_val ty' then Some a'
             else loop m' ty' (a' + ucast (mlength (acpi_madt_hdr_at m' a'))) e'
        else Some 0) = Some y"
    show "\<not> (m' = m \<and> ty' = ty \<and> a' = a \<and> e' = e)"
      using IH [of m ty a e y] step stuck by (auto simp: acpi_madt_hdr_at_def)
  qed
  then show False by simp
qed

section \<open>Reserving the interrupt controllers\<close>

definition uncached_page :: "u32 \<Rightarrow> pmapregion" where
  "uncached_page p = \<lparr>reg_addr = PAGE_ALIGN_DOWN (ucast p), reg_size = PAGE_SIZE,
     reg_type = pmemtype_val PMEMTYPE_UNCACHED, reg_flags = 0\<rparr>"

definition add_regions :: "pmapregion list \<Rightarrow> acpi_machine \<Rightarrow> acpi_machine" where
  "add_regions rs s = s\<lparr>am_pmap := (am_pmap s)\<lparr>pm_map := (pm_map (am_pmap s))\<lparr>region := region (pm_map (am_pmap s)) @ rs\<rparr>\<rparr>\<rparr>"

lemma add_regions_simps [simp]:
  "am_ram (add_regions rs s) = am_ram s" "am_acpi (add_regions rs s) = am_acpi s"
  "pm_initialized (am_pmap (add_regions rs s)) = pm_initialized (am_pmap s)"
  "region (pm_map (am_pmap (add_regions rs s))) = region (pm_map (am_pmap s)) @ rs"
  "add_regions ss (add_regions rs s) = add_regions (rs @ ss) s" "add_regions [] s = s"
  by (simp_all add: add_regions_def)

lemma reserve_page:
  assumes "\<not> pm_initialized (am_pmap s)"
  shows "am_pmap_add (PAGE_ALIGN_DOWN (ucast p)) PAGE_SIZE PMEMTYPE_UNCACHED s = Some (add_regions [uncached_page p] s)"
  using assms by (simp add: am_pmap_add_def pmap_add_def add_region_def add_regions_def uncached_page_def)

lemma reserve_io_apics_visits:
  "visits (acpi_next_io_apic (am_ram s) (am_acpi s)) prev ps \<Longrightarrow> \<not> pm_initialized (am_pmap s) \<Longrightarrow>
    reserve_io_apics prev s =
      Some (add_regions (map (\<lambda>p. uncached_page (ptr_io_apic (acpi_madt_io_apic_at (am_ram s) p))) ps) s)"
proof (induction ps arbitrary: prev s)
  case Nil
  then show ?case by (simp add: reserve_io_apics.simps [of prev])
next
  case (Cons p ps)
  let ?s = "add_regions [uncached_page (ptr_io_apic (acpi_madt_io_apic_at (am_ram s) p))] s"
  have n: "acpi_next_io_apic (am_ram s) (am_acpi s) prev = Some p" "p \<noteq> 0"
    and v: "visits (acpi_next_io_apic (am_ram ?s) (am_acpi ?s)) p ps" using Cons.prems(1) by simp_all
  have "reserve_io_apics prev s = reserve_io_apics p ?s"
    using n Cons.prems(2) by (simp add: reserve_io_apics.simps [of prev] reserve_page)
  then show ?case using Cons.IH [OF v] Cons.prems(2) by simp
qed

lemma pmap_init_covers:
  assumes "ok_table (region (pm_map s))" "\<forall>r \<in> set (region (pm_map s)). sint (reg_type r) \<le> 7"
  shows "\<exists>s'. pmap_init s = Some s' \<and> normal_map (pm_map s') \<and>
    (\<forall>r \<in> set (region (pm_map s)). \<forall>a. covers r a \<longrightarrow>
      (\<exists>u. type_at (region (pm_map s')) a = Some u \<and> sint (reg_type r) \<le> u))"
proof -
  let ?m = "add_region 0 0x1000 PMEMTYPE_UNMAPPED
         (add_region 0 KMEM_KERNEL_IMAGE_END PMEMTYPE_RESERVED
           (add_region KMEM_VIDEO KMEM_VIDEO_SIZE PMEMTYPE_UNCACHED (pm_map s)))"
  have rs: "set (region ?m) = set (region (pm_map s)) \<union>
     {\<lparr>reg_addr = KMEM_VIDEO, reg_size = KMEM_VIDEO_SIZE, reg_type = pmemtype_val PMEMTYPE_UNCACHED, reg_flags = 0\<rparr>,
      \<lparr>reg_addr = 0, reg_size = KMEM_KERNEL_IMAGE_END, reg_type = pmemtype_val PMEMTYPE_RESERVED, reg_flags = 0\<rparr>,
      \<lparr>reg_addr = 0, reg_size = 0x1000, reg_type = pmemtype_val PMEMTYPE_UNMAPPED, reg_flags = 0\<rparr>}"
    by (auto simp: add_region_def)
  have ok: "ok_table (region ?m)"
    unfolding rs using assms(1) by (auto simp: ok_region_def rhi_def KMEM_VIDEO_def KMEM_VIDEO_SIZE_def KMEM_KERNEL_IMAGE_END_def)
  have t7: "\<forall>r \<in> set (region ?m). sint (reg_type r) \<le> 7" unfolding rs using assms(2) by auto
  from normalize_table [OF ok] obtain m' where m': "normalize_map ?m = Some m'" "normal_map m'"
    "type_at (region m') = filled_type_at (sint (pmemtype_val PMEMTYPE_RESERVED)) (region ?m)"
    by blast
  have "\<exists>u. type_at (region m') a = Some u \<and> sint (reg_type r) \<le> u"
    if r: "r \<in> set (region (pm_map s))" and c: "covers r a" for r a
  proof -
    have r': "ok_region r" "r \<in> set (region ?m)" using r assms(1) rs by auto
    show ?thesis using covered_type_between [OF r' c t7] m'(3) by (auto intro: filled_type_covered)
  qed
  then show ?thesis using m'(1,2) by (simp add: pmap_init_def)
qed

lemma unat_align_down: "unat (PAGE_ALIGN_DOWN a) = 4096 * (unat a div 4096)"
proof -
  have m: "PAGE_SIZE - 1 = mask 12" by (simp add: PAGE_SIZE_def mask_eq_exp_minus_1)
  have "a AND NOT (mask 12) = push_bit 12 (drop_bit 12 a)" by (rule bit_word_eqI) (auto simp: bit_simps)
  then have p: "PAGE_ALIGN_DOWN a = push_bit 12 (drop_bit 12 a)" by (simp add: PAGE_ALIGN_DOWN_def m)
  have "4096 * (unat a div 4096) < 2 ^ 64"
    by (rule order_le_less_trans [OF times_div_less_eq_dividend]) simp
  then show ?thesis
    unfolding p unsigned_push_bit_eq unat_drop_bit_eq
    by (simp add: push_bit_eq_mult drop_bit_eq_div take_bit_nat_eq_self mult.commute)
qed

lemma unat_ucast_32 [simp]: "unat (ucast (p :: u32) :: u64) = unat p"
proof -
  have "unat p < 2 ^ 32" using unsigned_less [of p] by simp
  then have "unat p < 2 ^ 64" by simp
  then show ?thesis by (simp add: unsigned_ucast_eq take_bit_nat_eq_self)
qed

lemma uncached_page_ok: "ok_region (uncached_page p)" "sint (reg_type (uncached_page p)) = 6"
proof -
  have "unat p < 2 ^ 32" using unsigned_less [of p] by simp
  moreover have "unat (PAGE_ALIGN_DOWN (ucast p)) \<le> unat p" by (simp add: unat_align_down)
  ultimately show "ok_region (uncached_page p)"
    by (simp add: ok_region_def rhi_def uncached_page_def PAGE_SIZE_def)
qed (simp add: uncached_page_def)

lemma uncached_page_covers:
  assumes "a div 4096 = unat p div 4096"
  shows "covers (uncached_page p) a"
proof -
  have "rlo (uncached_page p) = 4096 * (a div 4096)"
    by (simp add: rlo_def uncached_page_def unat_align_down assms)
  moreover have "rhi (uncached_page p) = rlo (uncached_page p) + 4096"
    by (simp add: rlo_def rhi_def uncached_page_def PAGE_SIZE_def)
  moreover have "a = 4096 * (a div 4096) + a mod 4096" "a mod 4096 < 4096" by simp_all
  ultimately show ?thesis unfolding covers_def by linarith
qed

section \<open>What initialization leaves\<close>

text \<open>The tables the firmware lists, read off its memory: the root table the root pointer names
  (the XSDT, from version 2 on and if there is one, else the RSDT) and the tables it lists; the
  pages mapped for a table and the region added to the memory map for it.\<close>

definition xsdt_tables :: "ram \<Rightarrow> u64 \<Rightarrow> u64 list" where
  "xsdt_tables m x = map (\<lambda>i. xsdt_ptr_table m x (of_nat i)) [0..<nat (table_count (hdr_length (acpi_hdr_at m x)) 8)]"

definition rsdt_tables :: "ram \<Rightarrow> u64 \<Rightarrow> u64 list" where
  "rsdt_tables m x = map (\<lambda>i. ucast (rsdt_ptr_table m x (of_nat i))) [0..<nat (table_count (hdr_length (acpi_hdr_at m x)) 4)]"

definition root_tables :: "ram \<Rightarrow> u64 \<Rightarrow> u64 \<times> u64 list" where
  "root_tables m rsdp =
     (let r = acpi_rsdp_at m rsdp; x = ptr_xsdt r; y = ucast (ptr_rsdt r)
      in if rsdp_revision r \<noteq> 0 \<and> x \<noteq> 0 then (x, xsdt_tables m x) else (y, rsdt_tables m y))"

definition map_table_pages :: "ram \<Rightarrow> u64 \<Rightarrow> btable \<times> pmem \<Rightarrow> (btable \<times> pmem) option" where
  "map_table_pages m hdr b = do {
     b \<leftarrow> map_range hdr SIZEOF_HDR (PF_PRESENT OR PF_RW) b;
     map_range hdr (ucast (hdr_length (acpi_hdr_at m hdr))) (PF_PRESENT OR PF_RW) b
   }"

definition acpi_region :: "ram \<Rightarrow> u64 \<Rightarrow> pmapregion" where
  "acpi_region m hdr = \<lparr>reg_addr = PAGE_ALIGN_DOWN hdr,
     reg_size = PAGE_ALIGN_UP (hdr + ucast (hdr_length (acpi_hdr_at m hdr))) - PAGE_ALIGN_DOWN hdr,
     reg_type = pmemtype_val PMEMTYPE_ACPI, reg_flags = 0\<rparr>"

text \<open>A table that is not empty and does not run over the end of the address space.\<close>

definition table_fits :: "ram \<Rightarrow> u64 \<Rightarrow> bool" where
  "table_fits m hdr \<longleftrightarrow> (let len = unat (hdr_length (acpi_hdr_at m hdr)) in 0 < len \<and> unat hdr + len + 4095 < 2 ^ 64)"

definition boot_table :: btable where
  "boot_table = \<lparr>broot = KMEM_BOOT_PAGETABLE, next_page = KMEM_BOOT_PAGETABLE_LOADED, term_page = KMEM_BOOT_PAGETABLE_END\<rparr>"

text \<open>The state \<open>t\<close> that \<open>s\<close> becomes when the tables \<open>hs\<close> have been mapped and the module's
  variables changed by \<open>f\<close>; the log may hold more messages.\<close>

definition tables_done :: "u64 list \<Rightarrow> (acpi \<Rightarrow> acpi) \<Rightarrow> acpi_machine \<Rightarrow> acpi_machine \<Rightarrow> bool" where
  "tables_done hs f s t \<longleftrightarrow> am_ram t = am_ram s \<and> foldM (map_table_pages (am_ram s)) hs (am_boot s) = Some (am_boot t) \<and>
     am_acpi t = f (am_acpi s) \<and> am_pmap t = am_pmap (add_regions (map (acpi_region (am_ram s)) hs) s) \<and>
     (\<exists>es. log_rep (am_log t) es)"

text \<open>A step that is ready to run: before \<open>pmap_init\<close>, with a well-formed log, a zero byte to end
  every string, and room in the boot page table for the tables \<open>hs\<close>.\<close>

definition ready :: "u64 list \<Rightarrow> acpi_machine \<Rightarrow> bool" where
  "ready hs s \<longleftrightarrow> \<not> pm_initialized (am_pmap s) \<and> (\<exists>es. log_rep (am_log s) es) \<and> 0 \<in> range (am_ram s) \<and>
     foldM (map_table_pages (am_ram s)) hs (am_boot s) \<noteq> None"

lemma tables_done_trans:
  "tables_done hs f s t \<Longrightarrow> tables_done gs g t u \<Longrightarrow> tables_done (hs @ gs) (\<lambda>ac. g (f ac)) s u"
  by (simp add: tables_done_def foldM_append add_regions_def)

lemma ready_done: "ready (hs @ gs) s \<Longrightarrow> tables_done hs f s t \<Longrightarrow> ready gs t"
  by (simp add: ready_def tables_done_def foldM_append)

lemma ready_split: "ready (hs @ gs) s \<Longrightarrow> ready hs s"
  by (cases "foldM (map_table_pages (am_ram s)) hs (am_boot s)") (simp_all add: ready_def foldM_append)

lemma ready_Nil: "ready hs s \<Longrightarrow> ready [] s"
  by (simp add: ready_def)

lemma str_at_returns:
  assumes "0 \<in> range m"
  shows "\<exists>cs. str_at m a = Some cs"
proof -
  have r: "f (str + int (len + k)) = 0 \<Longrightarrow> \<exists>n. strlen_from f str len = Some n" for f str len k
  proof (induction k arbitrary: len)
    case 0
    then show ?case by (simp add: strlen_from.simps [of f str len])
  next
    case (Suc k)
    have "f (str + int (Suc len + k)) = 0" using Suc.prems by simp
    from Suc.IH [OF this] show ?case by (subst strlen_from.simps) auto
  qed
  obtain z where z: "m z = 0" using assms by auto
  have "m (of_int (uint a + int (0 + unat (z - a)))) = 0" using z by simp
  from r [of "\<lambda>i. m (of_int i)", OF this] show ?thesis by (auto simp: str_at_def strlen_def)
qed

lemma am_logf_done:
  assumes "ready hs s" "emits fmt as cs" "length cs < 1024"
  obtains t where "am_logf lev fmt as stack s = Some t" "tables_done [] (\<lambda>ac. ac) s t"
proof -
  obtain es where "log_rep (am_log s) es" using assms(1) by (auto simp: ready_def)
  moreover have "length (takeWhile (\<lambda>c. c \<noteq> 0) cs) < 65536"
    using assms(3) length_takeWhile_le [of "\<lambda>c. c \<noteq> 0" cs] by linarith
  moreover have "0 \<notin> set (takeWhile (\<lambda>c. c \<noteq> 0) cs)" by (auto dest: set_takeWhileD)
  ultimately obtain lc calls es' where "log lev (takeWhile (\<lambda>c. c \<noteq> 0) cs) (am_log s) = Some (lc, calls)" "log_rep lc es'"
    using log_rep_step by blast
  then show thesis
    using logf_logs_text [OF emits_fmt_text [OF assms(2)] assms(3)]
    by (intro that [of "s\<lparr>am_log := lc, am_calls := am_calls s @ calls\<rparr>"])
      (auto simp: am_logf_def tables_done_def add_regions_def)
qed

lemma map_table_done:
  assumes "ready [hdr] s"
  obtains t where "map_table hdr s = Some t" "tables_done [hdr] (\<lambda>ac. ac) s t"
proof -
  obtain b0 b where b: "map_range hdr SIZEOF_HDR (PF_PRESENT OR PF_RW) (am_boot s) = Some b0"
    "map_range hdr (ucast (hdr_length (acpi_hdr_at (am_ram s) hdr))) (PF_PRESENT OR PF_RW) b0 = Some b"
    using assms by (auto simp: ready_def map_table_pages_def bind_eq_Some_conv)
  show thesis
    by (rule that [of "add_regions [acpi_region (am_ram s) hdr] (s\<lparr>am_boot := b\<rparr>)"])
      (use assms b in \<open>simp_all add: map_table_def am_pmap_add_def pmap_add_def add_region_def add_regions_def
         acpi_region_def ready_def tables_done_def map_table_pages_def\<close>)
qed

lemma str_text_prec: "0 \<le> pr \<Longrightarrow> length (str_text 0 0 pr cs) \<le> nat pr"
  by (auto simp: str_text_def string_chars_def Let_def fmt_state_def)

lemma log_texts:
  "\<exists>cs. emits (asc ''[acpi] Found %.4s table at %#lx.'') [ArgStr (Some sig), ArgLong v] cs \<and> length cs < 1024"
  "\<exists>cs. emits (asc ''[acpi] Found XSDT table at %#lx.'') [ArgLong v] cs \<and> length cs < 1024"
  "\<exists>cs. emits (asc ''[acpi] Found RSDT table at %#lx.'') [ArgLong v] cs \<and> length cs < 1024"
  "\<exists>cs. emits (asc ''[acpi] ACPI %d.0 RSDP table found at %#lx.'') [ArgInt k, ArgLong v] cs \<and> length cs < 1024"
  "\<exists>cs. emits (asc ''[acpi] No XSDT table found.'') [] cs \<and> length cs < 1024"
proof -
  have x: "length (int_text FLAG_HASH 0 16 v) \<le> 67" using int_text_length [of 16 FLAG_HASH 0 v] by simp
  have d: "length (int_text FLAG_SIGNED 0 10 (scast k)) \<le> 67" using int_text_length [of 10 FLAG_SIGNED 0] by simp
  have "emits (asc ''[acpi] Found '' @ asc ''%.4s'' @ asc '' table at '' @ asc ''%#lx'' @ asc ''.'')
      ([] @ [ArgStr (Some sig)] @ [] @ [ArgLong v] @ [])
      (asc ''[acpi] Found '' @ str_text 0 0 4 sig @ asc '' table at '' @ int_text FLAG_HASH 0 16 v @ asc ''.'')"
    by (intro emits_append emits_dot_4s emits_hash_lx emits_plain) simp_all
  then show "\<exists>cs. emits (asc ''[acpi] Found %.4s table at %#lx.'') [ArgStr (Some sig), ArgLong v] cs \<and> length cs < 1024"
    by (intro exI conjI) (simp, use x str_text_prec [of 4 sig] in simp)
  have f: "emits (p @ asc ''%#lx'' @ asc ''.'') ([] @ [ArgLong v] @ []) (p @ int_text FLAG_HASH 0 16 v @ asc ''.'')"
    if "c8 CHR ''%'' \<notin> set p" for p
    using that by (intro emits_append emits_hash_lx emits_plain) simp_all
  show "\<exists>cs. emits (asc ''[acpi] Found XSDT table at %#lx.'') [ArgLong v] cs \<and> length cs < 1024"
    by (rule exI, rule conjI, use f [of "asc ''[acpi] Found XSDT table at ''"] in simp, use x in simp)
  show "\<exists>cs. emits (asc ''[acpi] Found RSDT table at %#lx.'') [ArgLong v] cs \<and> length cs < 1024"
    by (rule exI, rule conjI, use f [of "asc ''[acpi] Found RSDT table at ''"] in simp, use x in simp)
  have "emits (asc ''[acpi] ACPI '' @ asc ''%d'' @ asc ''.0 RSDP table found at '' @ asc ''%#lx'' @ asc ''.'')
      ([] @ [ArgInt k] @ [] @ [ArgLong v] @ [])
      (asc ''[acpi] ACPI '' @ int_text FLAG_SIGNED 0 10 (scast k) @ asc ''.0 RSDP table found at '' @
       int_text FLAG_HASH 0 16 v @ asc ''.'')"
    by (intro emits_append emits_d emits_hash_lx emits_plain) simp_all
  then show "\<exists>cs. emits (asc ''[acpi] ACPI %d.0 RSDP table found at %#lx.'') [ArgInt k, ArgLong v] cs \<and> length cs < 1024"
    by (intro exI conjI) (simp, use x d in simp)
  show "\<exists>cs. emits (asc ''[acpi] No XSDT table found.'') [] cs \<and> length cs < 1024"
    by (rule exI, rule conjI, rule emits_plain) simp_all
qed

lemma log_root_done:
  assumes "ready hs s"
  obtains t where "log_root x stack s = Some t" "tables_done [] (\<lambda>ac. ac) s t"
proof -
  have z: "0 \<in> range (am_ram s)" using assms by (simp add: ready_def)
  obtain o' tb cr where str: "str_at (am_ram s) (x + 10) = Some o'" "str_at (am_ram s) (x + 16) = Some tb"
    "str_at (am_ram s) (x + 28) = Some cr"
    using str_at_returns [OF z] by metis
  let ?v = "oemrevision (acpi_hdr_at (am_ram s) x)"
  have "emits (asc ''[acpi] oem='' @ [0x27] @ asc ''%.6s'' @ [0x27] @ asc '' tbl='' @ [0x27] @ asc ''%.8s'' @ [0x27] @
         asc '' rev='' @ asc ''%#x'' @ asc '' creator='' @ [0x27] @ asc ''%.4s'' @ [0x27])
      ([] @ [] @ [ArgStr (Some o')] @ [] @ [] @ [] @ [ArgStr (Some tb)] @ [] @ [] @ [ArgInt ?v] @ [] @ [] @ [ArgStr (Some cr)] @ [])
      (asc ''[acpi] oem='' @ [0x27] @ str_text 0 0 6 o' @ [0x27] @ asc '' tbl='' @ [0x27] @ str_text 0 0 8 tb @ [0x27] @
         asc '' rev='' @ int_text FLAG_HASH 0 16 (ucast ?v) @ asc '' creator='' @ [0x27] @ str_text 0 0 4 cr @ [0x27])"
    (is "emits _ _ ?cs")
    by (intro emits_append emits_dot_6s emits_dot_8s emits_dot_4s emits_hash_x emits_plain) simp_all
  then have e: "emits (asc ''[acpi] oem='' @ [0x27] @ asc ''%.6s'' @ [0x27] @ asc '' tbl='' @ [0x27] @ asc ''%.8s'' @ [0x27] @
         asc '' rev=%#x creator='' @ [0x27] @ asc ''%.4s'' @ [0x27])
      [ArgStr (Some o'), ArgStr (Some tb), ArgInt ?v, ArgStr (Some cr)] ?cs" by simp
  have l: "length ?cs < 1024"
    using int_text_length [of 16 FLAG_HASH 0 "ucast ?v"] str_text_prec [of 6 o'] str_text_prec [of 8 tb] str_text_prec [of 4 cr]
    by simp
  obtain t where "am_logf LOG_INFO (asc ''[acpi] oem='' @ [0x27] @ asc ''%.6s'' @ [0x27] @ asc '' tbl='' @ [0x27] @ asc ''%.8s'' @ [0x27] @
         asc '' rev=%#x creator='' @ [0x27] @ asc ''%.4s'' @ [0x27])
      [ArgStr (Some o'), ArgStr (Some tb), ArgInt ?v, ArgStr (Some cr)] stack s = Some t" "tables_done [] (\<lambda>ac. ac) s t"
    by (rule am_logf_done [OF assms e l])
  then show thesis by (intro that) (simp_all only: log_root_def str bind.bind_lunit)
qed

lemma visit_table_done:
  assumes r: "ready [hdr] s"
  obtains t where "visit_table hdr stack s = Some t" "tables_done [hdr] (read_table (am_ram s) hdr) s t"
proof -
  obtain s1 where s1: "map_table hdr s = Some s1" "tables_done [hdr] (\<lambda>ac. ac) s s1" by (rule map_table_done [OF r])
  have r1: "ready [] s1" by (rule ready_done [OF _ s1(2)]) (simp add: r)
  obtain sig where sig: "str_at (am_ram s1) hdr = Some sig"
    using r1 str_at_returns [of "am_ram s1" hdr] by (auto simp: ready_def)
  obtain cs where cs: "emits (asc ''[acpi] Found %.4s table at %#lx.'') [ArgStr (Some sig), ArgLong hdr] cs" "length cs < 1024"
    using log_texts(1) by blast
  obtain s2 where s2: "am_logf LOG_INFO (asc ''[acpi] Found %.4s table at %#lx.'') [ArgStr (Some sig), ArgLong hdr] stack s1 = Some s2"
    "tables_done [] (\<lambda>ac. ac) s1 s2" by (rule am_logf_done [OF r1 cs])
  show thesis
    by (rule that [of "s2\<lparr>am_acpi := read_table (am_ram s2) hdr (am_acpi s2)\<rparr>"])
      (use s1 s2(2) in \<open>simp_all only: visit_table_def s1(1) sig s2(1) bind.bind_lunit\<close>, auto simp: tables_done_def add_regions_def)
qed

lemma visit_tables_done:
  assumes "ready (map (g (am_ram s)) xs) s"
  obtains t where "foldM (\<lambda>i s. visit_table (g (am_ram s) i) stack s) xs s = Some t"
    "tables_done (map (g (am_ram s)) xs) (fold (read_table (am_ram s)) (map (g (am_ram s)) xs)) s t"
  using assms
proof (induction xs arbitrary: s thesis)
  case Nil
  then show ?case by (auto simp: tables_done_def ready_def add_regions_def)
next
  case (Cons x xs)
  let ?h = "g (am_ram s) x" and ?hs = "map (g (am_ram s)) xs"
  have r: "ready ([?h] @ ?hs) s" using Cons.prems(2) by simp
  obtain s1 where s1: "visit_table ?h stack s = Some s1" "tables_done [?h] (read_table (am_ram s) ?h) s s1"
    by (rule visit_table_done [OF ready_split [OF r]])
  have m: "am_ram s1 = am_ram s" using s1(2) by (simp add: tables_done_def)
  have "ready (map (g (am_ram s1)) xs) s1" using ready_done [OF r s1(2)] m by simp
  then obtain t where t: "foldM (\<lambda>i s. visit_table (g (am_ram s) i) stack s) xs s1 = Some t"
    "tables_done ?hs (fold (read_table (am_ram s)) ?hs) s1 t"
    using Cons.IH [of s1] unfolding m by blast
  show ?case
    by (rule Cons.prems(1) [of t]) (use s1(1) t(1) tables_done_trans [OF s1(2) t(2)] in \<open>simp_all add: comp_def\<close>)
qed

text \<open>A root table: the message, its mapping, and its tables.\<close>

lemma read_root_done:
  assumes x: "px (am_acpi s) = x" and hs: "map (g (am_ram s) x) (ns (am_ram s) x) = hs" and r: "ready (x # hs) s"
    and msg: "emits fmt as cs" "length cs < 1024"
  obtains t where "do { s \<leftarrow> am_logf lev fmt as stack s; s \<leftarrow> map_table (px (am_acpi s)) s; let x = px (am_acpi s);
       s \<leftarrow> log_root x stack s; foldM (\<lambda>i s. visit_table (g (am_ram s) x i) stack s) (ns (am_ram s) x) s } = Some t"
    "tables_done (x # hs) (fold (read_table (am_ram s)) hs) s t"
proof -
  obtain s1 where s1: "am_logf lev fmt as stack s = Some s1" "tables_done [] (\<lambda>ac. ac) s s1"
    by (rule am_logf_done [OF r msg])
  have r1: "ready ([x] @ hs) s1" by (rule ready_done [OF _ s1(2)]) (simp add: r)
  obtain s2 where s2: "map_table x s1 = Some s2" "tables_done [x] (\<lambda>ac. ac) s1 s2"
    by (rule map_table_done [OF ready_split [OF r1]])
  have r2: "ready hs s2" by (rule ready_done [OF r1 s2(2)])
  obtain s3 where s3: "log_root x stack s2 = Some s3" "tables_done [] (\<lambda>ac. ac) s2 s3" by (rule log_root_done [OF r2])
  have d: "tables_done [x] (\<lambda>ac. ac) s s3"
    using tables_done_trans [OF s1(2) tables_done_trans [OF s2(2) s3(2)]] by simp
  have m: "am_ram s3 = am_ram s" using d by (simp add: tables_done_def)
  have px: "px (am_acpi s1) = x" "px (am_acpi s2) = x" using s1(2) s2(2) x by (simp_all add: tables_done_def)
  have "ready (map (g (am_ram s3) x) (ns (am_ram s3) x)) s3" using ready_done [of "[]" hs, OF _ s3(2)] r2 m hs by simp
  then obtain t where t: "foldM (\<lambda>i s. visit_table (g (am_ram s) x i) stack s) (ns (am_ram s) x) s3 = Some t"
    "tables_done hs (fold (read_table (am_ram s)) hs) s3 t"
    by (rule visit_tables_done [of "\<lambda>m. g m x"]) (unfold m hs, rule that)
  show thesis
    by (rule that [of t]) (use s1(1) s2(1) s3(1) t(1) tables_done_trans [OF d t(2)] px m in \<open>simp_all add: Let_def\<close>)
qed

text \<open>The variables after reading the tables: the root tables and the version stay, the MADT is the
  last table listed with its signature.\<close>

lemma read_tables_keep:
  "ac_xsdt (fold (read_table m) hs ac) = ac_xsdt ac"
  by (induction hs arbitrary: ac)
    (simp_all add: read_table_def read_fadt_def read_madt_def read_mcfg_def Let_def)

lemma read_tables_madt:
  "ac_madt (fold (read_table m) hs ac) =
    (case filter (\<lambda>h. rd32 m h = SIGNATURE_MADT) hs of [] \<Rightarrow> ac_madt ac | h # hs' \<Rightarrow> last (h # hs'))"
  by (induction hs arbitrary: ac)
    (auto simp: read_table_def read_fadt_def read_madt_def read_mcfg_def Let_def acpi_hdr_at_def SIGNATURE_MADT_def
      SIGNATURE_FADT_def SIGNATURE_MCFG_def split: list.split)

lemma tables_done_set:
  "tables_done hs (fold (read_table (am_ram (set_acpi g s))) gs) (set_acpi g s) t \<longleftrightarrow>
   tables_done hs (\<lambda>ac. fold (read_table (am_ram s)) gs (g ac)) s t"
  by (simp add: tables_done_def set_acpi_def add_regions_def)

lemma try_xsdt_done:
  assumes v: "ac_version (am_acpi s) > 1"
    and x: "x = ptr_xsdt (acpi_rsdp_at (am_ram s) (ac_rsdp (am_acpi s)))" "x \<noteq> 0" and r: "ready (x # xsdt_tables (am_ram s) x) s"
  obtains t where "try_xsdt stack s = Some t"
    "tables_done (x # xsdt_tables (am_ram s) x) (\<lambda>ac. fold (read_table (am_ram s)) (xsdt_tables (am_ram s) x) (ac\<lparr>ac_xsdt := x\<rparr>)) s t"
proof -
  let ?s = "set_acpi (\<lambda>ac. ac\<lparr>ac_xsdt := x\<rparr>) s"
  obtain cs where cs: "emits (asc ''[acpi] Found XSDT table at %#lx.'') [ArgLong x] cs" "length cs < 1024"
    using log_texts(2) by blast
  have r': "ready (x # xsdt_tables (am_ram s) x) ?s" using r by (simp add: ready_def set_acpi_def)
  obtain t where t: "do { s \<leftarrow> am_logf LOG_INFO (asc ''[acpi] Found XSDT table at %#lx.'') [ArgLong x] stack ?s;
      s \<leftarrow> map_table (ac_xsdt (am_acpi s)) s; let x = ac_xsdt (am_acpi s);
      s \<leftarrow> log_root x stack s; foldM (\<lambda>i s. visit_table (xsdt_ptr_table (am_ram s) x (of_nat i)) stack s)
        [0..<nat (table_count (hdr_length (acpi_hdr_at (am_ram s) x)) 8)] s } = Some t"
    "tables_done (x # xsdt_tables (am_ram s) x) (fold (read_table (am_ram ?s)) (xsdt_tables (am_ram s) x)) ?s t"
    by (rule read_root_done [of ac_xsdt ?s x "\<lambda>m x i. xsdt_ptr_table m x (of_nat i)"
        "\<lambda>m x. [0..<nat (table_count (hdr_length (acpi_hdr_at m x)) 8)]", OF _ _ r' cs])
      (simp_all add: xsdt_tables_def set_acpi_def)
  have "try_xsdt stack s = Some t"
    using t(1) v x unfolding try_xsdt_def read_xsdt_def by (simp add: set_acpi_def Let_def)
  moreover note t(2) [unfolded tables_done_set]
  ultimately show thesis by (rule that)
qed

lemma try_xsdt_none:
  assumes "ac_version (am_acpi s) > 1 \<longrightarrow> ptr_xsdt (acpi_rsdp_at (am_ram s) (ac_rsdp (am_acpi s))) = 0"
    and "ac_xsdt (am_acpi s) = 0" and "ready hs s"
  obtains t where "try_xsdt stack s = Some t" "tables_done [] (\<lambda>ac. ac) s t"
proof (cases "ac_version (am_acpi s) > 1")
  case True
  have s: "set_acpi (\<lambda>ac. ac\<lparr>ac_xsdt := ptr_xsdt (acpi_rsdp_at (am_ram s) (ac_rsdp ac))\<rparr>) s = s"
    using True assms(1,2) by (simp add: set_acpi_def)
  obtain cs where "emits (asc ''[acpi] No XSDT table found.'') [] cs" "length cs < 1024" using log_texts(5) by blast
  then obtain t where "am_logf LOG_INFO (asc ''[acpi] No XSDT table found.'') [] stack s = Some t" "tables_done [] (\<lambda>ac. ac) s t"
    by (rule am_logf_done [OF assms(3)])
  then show thesis using True assms(1,2) s by (intro that) (simp_all add: try_xsdt_def Let_def)
next
  case False
  then show thesis using assms(3) by (intro that [of s]) (auto simp: try_xsdt_def ready_def tables_done_def)
qed

lemma try_rsdt_done:
  assumes z: "ac_xsdt (am_acpi s) = 0"
    and x: "x = ucast (ptr_rsdt (acpi_rsdp_at (am_ram s) (ac_rsdp (am_acpi s))))" "x \<noteq> 0"
    and r: "ready (x # rsdt_tables (am_ram s) x) s"
  obtains t where "try_rsdt stack s = Some t"
    "tables_done (x # rsdt_tables (am_ram s) x) (\<lambda>ac. fold (read_table (am_ram s)) (rsdt_tables (am_ram s) x) (ac\<lparr>ac_rsdt := x\<rparr>)) s t"
proof -
  let ?s = "set_acpi (\<lambda>ac. ac\<lparr>ac_rsdt := x\<rparr>) s"
  obtain cs where cs: "emits (asc ''[acpi] Found RSDT table at %#lx.'') [ArgLong x] cs" "length cs < 1024"
    using log_texts(3) by blast
  have r': "ready (x # rsdt_tables (am_ram s) x) ?s" using r by (simp add: ready_def set_acpi_def)
  obtain t where t: "do { s \<leftarrow> am_logf LOG_INFO (asc ''[acpi] Found RSDT table at %#lx.'') [ArgLong x] stack ?s;
      s \<leftarrow> map_table (ac_rsdt (am_acpi s)) s; let x = ac_rsdt (am_acpi s);
      s \<leftarrow> log_root x stack s; foldM (\<lambda>i s. visit_table (ucast (rsdt_ptr_table (am_ram s) x (of_nat i))) stack s)
        [0..<nat (table_count (hdr_length (acpi_hdr_at (am_ram s) x)) 4)] s } = Some t"
    "tables_done (x # rsdt_tables (am_ram s) x) (fold (read_table (am_ram ?s)) (rsdt_tables (am_ram s) x)) ?s t"
    by (rule read_root_done [of ac_rsdt ?s x "\<lambda>m x i. ucast (rsdt_ptr_table m x (of_nat i))"
        "\<lambda>m x. [0..<nat (table_count (hdr_length (acpi_hdr_at m x)) 4)]", OF _ _ r' cs])
      (simp_all add: rsdt_tables_def set_acpi_def)
  have "try_rsdt stack s = Some t"
    using t(1) z x unfolding try_rsdt_def read_rsdt_def by (simp add: set_acpi_def Let_def)
  moreover note t(2) [unfolded tables_done_set]
  ultimately show thesis by (rule that)
qed

text \<open>Both root tables together: the tables read are those of \<open>root_tables\<close>.\<close>

lemma try_tables_done:
  assumes rt: "root_tables (am_ram s) (ac_rsdp (am_acpi s)) = (root, tables)" "root \<noteq> 0"
    and ac: "ac_xsdt (am_acpi s) = 0" "ac_madt (am_acpi s) = 0"
      "ac_version (am_acpi s) = uint (rsdp_revision (acpi_rsdp_at (am_ram s) (ac_rsdp (am_acpi s)))) + 1"
    and r: "ready (root # tables) s"
    and madt: "filter (\<lambda>h. rd32 (am_ram s) h = SIGNATURE_MADT) tables = ts @ [madt]"
  obtains t f where "try_xsdt stack s \<bind> try_rsdt stack = Some t" "tables_done (root # tables) f s t"
    "ac_madt (am_acpi t) = madt"
proof -
  let ?r = "acpi_rsdp_at (am_ram s) (ac_rsdp (am_acpi s))"
  have l: "ac_madt (fold (read_table (am_ram s)) tables ac) = madt" for ac
    unfolding read_tables_madt madt by (cases ts) simp_all
  have v: "ac_version (am_acpi s) > 1 \<longleftrightarrow> rsdp_revision ?r \<noteq> 0"
    unfolding ac(3) by (simp add: word_uint_eq_iff order_less_le)
  show thesis
  proof (cases "rsdp_revision ?r \<noteq> 0 \<and> ptr_xsdt ?r \<noteq> 0")
    case True
    then have x: "root = ptr_xsdt ?r" "tables = xsdt_tables (am_ram s) root" using rt(1) by (auto simp: root_tables_def Let_def)
    obtain t where t: "try_xsdt stack s = Some t"
      "tables_done (root # tables) (\<lambda>ac. fold (read_table (am_ram s)) tables (ac\<lparr>ac_xsdt := root\<rparr>)) s t"
      unfolding x(2) by (rule try_xsdt_done [OF _ x(1) rt(2)]) (use True v r x(2) in simp_all)
    have a: "am_acpi t = fold (read_table (am_ram s)) tables (am_acpi s\<lparr>ac_xsdt := root\<rparr>)" using t(2) by (simp add: tables_done_def)
    then have "try_rsdt stack t = Some t" using rt(2) by (simp add: try_rsdt_def read_tables_keep)
    moreover have "ac_madt (am_acpi t) = madt" unfolding a by (rule l)
    ultimately show thesis using t(1) by (intro that [OF _ t(2)]) simp_all
  next
    case False
    then have x: "root = ucast (ptr_rsdt ?r)" "tables = rsdt_tables (am_ram s) root"
      using rt(1) by (auto simp: root_tables_def Let_def split: if_splits)
    obtain s1 where s1: "try_xsdt stack s = Some s1" "tables_done [] (\<lambda>ac. ac) s s1"
      by (rule try_xsdt_none [OF _ ac(1) r]) (use False v in auto)
    have m: "am_ram s1 = am_ram s" "am_acpi s1 = am_acpi s" using s1(2) by (simp_all add: tables_done_def)
    have r1: "ready (root # tables) s1" by (rule ready_done [OF _ s1(2)]) (simp add: r)
    obtain t where t: "try_rsdt stack s1 = Some t"
      "tables_done (root # tables) (\<lambda>ac. fold (read_table (am_ram s)) tables (ac\<lparr>ac_rsdt := root\<rparr>)) s1 t"
      by (rule try_rsdt_done [of s1 root, unfolded m, OF ac(1) x(1) rt(2)]) (use r1 x(2) in simp_all)
    have d: "tables_done (root # tables) (\<lambda>ac. fold (read_table (am_ram s)) tables (ac\<lparr>ac_rsdt := root\<rparr>)) s t"
      using tables_done_trans [OF s1(2) t(2)] by simp
    have "ac_madt (am_acpi t) = madt" using d l by (simp add: tables_done_def)
    then show thesis using s1(1) t(1) by (intro that [OF _ d]) simp_all
  qed
qed

text \<open>\<open>acpi_init\<close> from boot: it comes to its last two steps with the tables' regions added.\<close>

lemma acpi_init_tables:
  assumes boot: "am_acpi s = acpi_boot" "\<not> pm_initialized (am_pmap s)" "log_rep (am_log s) msgs" "0 \<in> range (am_ram s)"
    and root: "locate_rsdp (am_ram s) = Some rsdp" "rsdp \<noteq> 0" "root_tables (am_ram s) rsdp = (root, tables)" "root \<noteq> 0"
    and pages: "foldM (map_table_pages (am_ram s)) (root # tables) (boot_table, snd (am_boot s)) \<noteq> None"
    and madt: "filter (\<lambda>h. rd32 (am_ram s) h = SIGNATURE_MADT) tables = ts @ [madt]"
  obtains t where "acpi_init stack s = reserve_local_apic t \<bind> reserve_io_apics 0" "am_ram t = am_ram s"
    "am_pmap t = am_pmap (add_regions (map (acpi_region (am_ram s)) (root # tables)) s)" "ac_madt (am_acpi t) = madt"
proof -
  let ?ver = "uint (rsdp_revision (acpi_rsdp_at (am_ram s) rsdp)) + 1"
  let ?s = "s\<lparr>am_boot := (boot_table, snd (am_boot s)), am_acpi := acpi_boot\<lparr>ac_rsdp := rsdp, ac_version := ?ver\<rparr>\<rparr>"
  have r: "ready (root # tables) ?s" using boot(2-4) pages by (auto simp: ready_def)
  obtain cs where cs: "emits (asc ''[acpi] ACPI %d.0 RSDP table found at %#lx.'') [ArgInt (of_int ?ver), ArgLong rsdp] cs"
    "length cs < 1024" using log_texts(4) by blast
  obtain s1 where s1: "am_logf LOG_INFO (asc ''[acpi] ACPI %d.0 RSDP table found at %#lx.'')
      [ArgInt (of_int ?ver), ArgLong rsdp] stack ?s = Some s1" "tables_done [] (\<lambda>ac. ac) ?s s1"
    by (rule am_logf_done [OF r cs])
  have m: "am_ram s1 = am_ram s" "am_acpi s1 = acpi_boot\<lparr>ac_rsdp := rsdp, ac_version := ?ver\<rparr>"
    using s1(2) by (simp_all add: tables_done_def)
  have r1: "ready (root # tables) s1" by (rule ready_done [OF _ s1(2)]) (simp add: r)
  obtain t f where t: "try_xsdt stack s1 \<bind> try_rsdt stack = Some t" "tables_done (root # tables) f s1 t"
    "ac_madt (am_acpi t) = madt"
    by (rule try_tables_done [of s1, OF _ root(4) _ _ _ r1]) (use root(3) madt in \<open>simp_all add: m acpi_boot_def\<close>)
  have "acpi_init stack s = do { s \<leftarrow> am_logf LOG_INFO (asc ''[acpi] ACPI %d.0 RSDP table found at %#lx.'')
      [ArgInt (of_int ?ver), ArgLong rsdp] stack ?s; s \<leftarrow> try_xsdt stack s; s \<leftarrow> try_rsdt stack s;
      s \<leftarrow> reserve_local_apic s; reserve_io_apics 0 s }"
    by (simp add: acpi_init_def Let_def root(1,2) set_acpi_def boot(1) boot_table_def)
  also have "\<dots> = (try_xsdt stack s1 \<bind> try_rsdt stack) \<bind> (\<lambda>s. reserve_local_apic s \<bind> reserve_io_apics 0)"
    by (simp only: s1(1) bind.bind_lunit bind_assoc)
  finally have "acpi_init stack s = reserve_local_apic t \<bind> reserve_io_apics 0" by (simp add: t(1))
  moreover have "am_pmap t = am_pmap (add_regions (map (acpi_region (am_ram s)) (root # tables)) s)"
    using tables_done_trans [OF s1(2) t(2)] by (simp add: tables_done_def add_regions_def)
  moreover have "am_ram t = am_ram s" using t(2) m(1) by (simp add: tables_done_def)
  ultimately show thesis using t(3) by (intro that)
qed

lemma align_up: "PAGE_ALIGN_UP a = PAGE_ALIGN_DOWN (a + 4095)"
  by (simp add: PAGE_ALIGN_UP_def PAGE_ALIGN_DOWN_def PAGE_SIZE_def add.commute)

lemma acpi_region_ok:
  assumes "table_fits m h"
  shows "ok_region (acpi_region m h)" "sint (reg_type (acpi_region m h)) \<le> 7"
proof -
  let ?l = "hdr_length (acpi_hdr_at m h)"
  have b: "0 < unat ?l" "unat h + unat ?l + 4095 < 2 ^ 64" using assms by (simp_all add: table_fits_def Let_def)
  have "unat (h + ucast ?l + 4095) = unat h + unat ?l + 4095"
    using b(2) by (simp add: unat_word_ariths)
  then have u: "unat (PAGE_ALIGN_UP (h + ucast ?l)) = 4096 * ((unat h + unat ?l + 4095) div 4096)"
    by (simp add: align_up unat_align_down)
  have le: "unat (PAGE_ALIGN_DOWN h) < unat (PAGE_ALIGN_UP (h + ucast ?l))" unfolding u unat_align_down using b(1) by auto
  then have s: "unat (PAGE_ALIGN_UP (h + ucast ?l) - PAGE_ALIGN_DOWN h) =
      unat (PAGE_ALIGN_UP (h + ucast ?l)) - unat (PAGE_ALIGN_DOWN h)"
    by (intro unat_sub) (simp add: word_le_nat_alt)
  have "reg_size (acpi_region m h) \<noteq> 0" using s le by (auto simp: acpi_region_def)
  moreover have "rhi (acpi_region m h) = unat (PAGE_ALIGN_UP (h + ucast ?l))"
    using s le by (simp add: rhi_def acpi_region_def)
  ultimately show "ok_region (acpi_region m h)" by (simp add: ok_region_def)
qed (simp add: acpi_region_def)

lemma reserved_apics:
  assumes "ac_madt (am_acpi s) \<noteq> 0" and "\<not> pm_initialized (am_pmap s)"
    and "\<forall>r \<in> set (region (pm_map (am_pmap s))). ok_region r \<and> sint (reg_type r) \<le> 7"
    and "madt_entries (am_ram s) (madt_start (am_acpi s)) (madt_end (am_ram s) (am_acpi s)) es" and "0 \<notin> fst ` set es"
  shows "\<exists>s' p. reserve_local_apic s \<bind> reserve_io_apics 0 = Some s' \<and> pmap_init (am_pmap s') = Some p \<and>
    (\<forall>a. a div 4096 = unat (ptr_local_apic (acpi_madt_at (am_ram s) (ac_madt (am_acpi s)))) div 4096 \<longrightarrow>
       (\<exists>u. type_at (region (pm_map p)) a = Some u \<and> 6 \<le> u)) \<and>
    (\<forall>x \<in> set (of_type ACPI_MADT_IO_APIC es). \<forall>a. a div 4096 = unat (ptr_io_apic (acpi_madt_io_apic_at (am_ram s) x)) div 4096 \<longrightarrow>
       (\<exists>u. type_at (region (pm_map p)) a = Some u \<and> 6 \<le> u))"
proof -
  let ?local = "ptr_local_apic (acpi_madt_at (am_ram s) (ac_madt (am_acpi s)))"
  let ?io = "\<lambda>x. ptr_io_apic (acpi_madt_io_apic_at (am_ram s) x)"
  let ?rs = "uncached_page ?local # map (\<lambda>x. uncached_page (?io x)) (of_type ACPI_MADT_IO_APIC es)"
  let ?s = "add_regions ?rs s"
  have l: "reserve_local_apic s = Some (add_regions [uncached_page ?local] s)"
    using assms(1,2) by (simp add: reserve_local_apic_def reserve_page)
  have "visits (acpi_next_io_apic (am_ram s) (am_acpi s)) 0 (of_type ACPI_MADT_IO_APIC es)"
    using madt_find_visits [OF assms(1,4,5) madt_find_first [OF assms(1)]] unfolding acpi_next_io_apic_def [abs_def] .
  then have i: "reserve_local_apic s \<bind> reserve_io_apics 0 = Some ?s"
    using reserve_io_apics_visits [of "add_regions [uncached_page ?local] s" 0] assms(2) by (simp add: l)
  have rs: "set (region (pm_map (am_pmap ?s))) = set (region (pm_map (am_pmap s))) \<union> set ?rs" by simp
  have "ok_table (region (pm_map (am_pmap ?s)))" unfolding rs using assms(3) uncached_page_ok(1) by auto
  moreover have "\<forall>r \<in> set (region (pm_map (am_pmap ?s))). sint (reg_type r) \<le> 7"
    unfolding rs using assms(3) by (auto simp: uncached_page_ok(2))
  ultimately obtain p where p: "pmap_init (am_pmap ?s) = Some p"
    "\<forall>r \<in> set (region (pm_map (am_pmap ?s))). \<forall>a. covers r a \<longrightarrow>
      (\<exists>u. type_at (region (pm_map p)) a = Some u \<and> sint (reg_type r) \<le> u)"
    using pmap_init_covers by blast
  have c: "\<exists>u. type_at (region (pm_map p)) a = Some u \<and> 6 \<le> u"
    if "uncached_page x \<in> set ?rs" "a div 4096 = unat x div 4096" for x a
    using p(2) rs that(1) uncached_page_covers [OF that(2)] uncached_page_ok(2) [of x] by fastforce
  show ?thesis by (rule exI [of _ ?s], rule exI [of _ p]) (use i p(1) c in \<open>auto simp del: reserve_io_apics.simps\<close>)
qed

section \<open>Properties\<close>

text \<open>C27: the iterators over the MADT visit its entries.  When the bytes of the table behind its
  header are a sequence of entries up to its end, the calls of \<open>madt_find\<close> with the result of
  the call before, from \<open>NULL\<close> on, return the addresses of the entries of the type asked for, in
  the order of the table, and then \<open>NULL\<close>.\<close>

theorem madt_find_iterates:
  assumes "ac_madt ac \<noteq> 0" and "madt_entries m (madt_start ac) (madt_end m ac) es" and "0 \<notin> fst ` set es"
  shows "visits (madt_find m ac ty) 0 (of_type ty es)"
  by (rule madt_find_visits [OF assms madt_find_first [OF assms(1)]])

text \<open>A MADT at 0x1000 with a local APIC, an I/O APIC at 0xfec00000 and an interrupt override.\<close>

definition sample_madt :: "u8 list" where
  "sample_madt =
     [0x41, 0x50, 0x49, 0x43, 74, 0, 0, 0, 1, 0] @ replicate 26 0x20 @ [0, 0, 0xe0, 0xfe, 1, 0, 0, 0] @
     [0, 8, 0, 0, 1, 0, 0, 0] @ [1, 12, 2, 0, 0, 0, 0xc0, 0xfe, 0, 0, 0, 0] @ [2, 10, 0, 0, 2, 0, 0, 0, 0, 0]"

definition sample_ram :: ram where
  "sample_ram a = (if 0x1000 \<le> a \<and> a < 0x104a then sample_madt ! unat (a - 0x1000) else 0)"

definition sample_acpi :: acpi where "sample_acpi = acpi_boot\<lparr>ac_madt := 0x1000\<rparr>"

definition sample_entries :: "(u64 \<times> u8) list" where
  "sample_entries = [(0x102c, 0), (0x1034, 1), (0x1040, 2)]"

lemma sample_madt_entries:
  "madt_entries sample_ram (madt_start sample_acpi) (madt_end sample_ram sample_acpi) sample_entries"
  by code_simp

theorem madt_find_iterates_witness:
  "visits (madt_find sample_ram sample_acpi ACPI_MADT_IO_APIC) 0 [0x1034]"
proof -
  have "of_type ACPI_MADT_IO_APIC sample_entries = [0x1034]" by code_simp
  with madt_find_iterates [OF _ sample_madt_entries, of ACPI_MADT_IO_APIC] show ?thesis
    by (simp add: sample_acpi_def acpi_boot_def sample_entries_def)
qed

text \<open>C26: after \<open>acpi_init\<close> the pages of the interrupt controllers end up uncached.  Run once from
  boot, before the memory map is initialized, on a machine whose root pointer is found and whose
  root table lists a MADT, \<open>acpi_init\<close> returns, and once \<open>pmap_init\<close> has cleaned the memory map it
  leaves, every address of the page of the local APIC and of the page of every I/O APIC in the
  MADT (the last one listed) has at least the type of uncached memory, whatever the BIOS said about
  it.  The hypotheses: the BIOS's regions are not empty, do not wrap around and have types up to 7;
  the tables are not empty and do not wrap around; the boot page table has room to map them; memory
  holds a zero byte that ends the strings logged, and the log is well formed.\<close>

theorem apics_stay_uncached:
  assumes boot: "am_acpi s = acpi_boot" "\<not> pm_initialized (am_pmap s)" "log_rep (am_log s) msgs" "0 \<in> range (am_ram s)"
    and bios: "\<forall>r \<in> set (region (pm_map (am_pmap s))). ok_region r \<and> sint (reg_type r) \<le> 7"
    and root: "locate_rsdp (am_ram s) = Some rsdp" "rsdp \<noteq> 0" "root_tables (am_ram s) rsdp = (root, tables)" "root \<noteq> 0"
    and fits: "\<forall>h \<in> set (root # tables). table_fits (am_ram s) h"
    and pages: "foldM (map_table_pages (am_ram s)) (root # tables) (boot_table, snd (am_boot s)) \<noteq> None"
    and madt: "filter (\<lambda>h. rd32 (am_ram s) h = SIGNATURE_MADT) tables = ts @ [madt]" "madt \<noteq> 0"
    and entries: "madt_entries (am_ram s) (madt + SIZEOF_MADT) (madt + ucast (rd32 (am_ram s) (madt + 4))) es" "0 \<notin> fst ` set es"
  shows "\<exists>s' p. acpi_init stack s = Some s' \<and> pmap_init (am_pmap s') = Some p \<and>
    (\<forall>a. a div 4096 = unat (ptr_local_apic (acpi_madt_at (am_ram s) madt)) div 4096 \<longrightarrow>
       (\<exists>u. type_at (region (pm_map p)) a = Some u \<and> 6 \<le> u)) \<and>
    (\<forall>x \<in> set (of_type ACPI_MADT_IO_APIC es). \<forall>a. a div 4096 = unat (ptr_io_apic (acpi_madt_io_apic_at (am_ram s) x)) div 4096 \<longrightarrow>
       (\<exists>u. type_at (region (pm_map p)) a = Some u \<and> 6 \<le> u))"
proof -
  obtain t where t: "acpi_init stack s = reserve_local_apic t \<bind> reserve_io_apics 0" "am_ram t = am_ram s"
    "am_pmap t = am_pmap (add_regions (map (acpi_region (am_ram s)) (root # tables)) s)" "ac_madt (am_acpi t) = madt"
    by (rule acpi_init_tables [OF boot root pages madt(1)])
  have rs: "set (region (pm_map (am_pmap t))) = set (region (pm_map (am_pmap s))) \<union> acpi_region (am_ram s) ` set (root # tables)"
    unfolding t(3) by simp
  have "\<forall>r \<in> set (region (pm_map (am_pmap t))). ok_region r \<and> sint (reg_type r) \<le> 7"
    unfolding rs using bios fits acpi_region_ok by blast
  moreover have "ac_madt (am_acpi t) \<noteq> 0" "\<not> pm_initialized (am_pmap t)" using madt(2) boot(2) t(3,4) by simp_all
  moreover have "madt_entries (am_ram t) (madt_start (am_acpi t)) (madt_end (am_ram t) (am_acpi t)) es"
    using entries(1) by (simp add: madt_start_def madt_end_def t(2,4))
  ultimately show ?thesis using reserved_apics [of t es] entries(2) unfolding t(1,2,4) by blast
qed

text \<open>The machine whose BIOS area holds a root pointer of version 1, for an RSDT at 0x2000 with this
  MADT; the boot page table maps the first GB.\<close>

definition sample_rsdp :: "u8 list" where
  "sample_rsdp = [0x52, 0x53, 0x44, 0x20, 0x50, 0x54, 0x52, 0x20, 0, 0x20, 0x20, 0x20, 0x20, 0x20, 0x20, 0, 0, 0x20, 0, 0]"

definition sample_rsdt :: "u8 list" where
  "sample_rsdt = [0x52, 0x53, 0x44, 0x54, 40, 0, 0, 0, 1, 0] @ replicate 26 0x20 @ [0, 0x10, 0, 0]"

definition root_ram :: ram where
  "root_ram a = (if 0x9f800 \<le> a \<and> a < 0x9f814 then sample_rsdp ! unat (a - 0x9f800)
     else if 0x2000 \<le> a \<and> a < 0x2028 then sample_rsdt ! unat (a - 0x2000) else sample_ram a)"

definition boot_memory :: pmem where
  "boot_memory = (\<lambda>_. 0)(0x10000 := 0x11003, 0x11000 := 0x83)"

definition root_machine :: acpi_machine where
  "root_machine = \<lparr>am_ram = root_ram, am_boot = (boot_table, boot_memory), am_acpi = acpi_boot,
     am_pmap = \<lparr>pm_map = sample_map, pm_initialized = False\<rparr>, am_log = log_boot, am_calls = []\<rparr>"

lemma map_range_mapped:
  assumes "is_mapped (fst b) (snd b) (PAGE_ALIGN_DOWN a)" "PAGE_ALIGN_UP (a + sz) = PAGE_ALIGN_DOWN a + 4096"
    "PAGE_ALIGN_DOWN a < PAGE_ALIGN_DOWN a + 4096"
  shows "map_range a sz fl b = Some b"
  using assms by (simp add: map_range_def map_range_loop.simps [of "PAGE_ALIGN_DOWN a"]
    map_range_loop.simps [of "PAGE_ALIGN_DOWN a + 4096"] PAGE_SIZE_def)

lemma root_ram_facts:
  "rd64 root_ram 0x9f800 = SIGNATURE_RSDP" "root_ram 0x9f80f = 0" "rd32 root_ram 0x9f810 = 0x2000"
  "rd32 root_ram 0x2004 = 40" "rd32 root_ram 0x2024 = 0x1000" "rd32 root_ram 0x1000 = SIGNATURE_MADT"
  "rd32 root_ram 0x1004 = 74" "rd32 root_ram 0x1024 = 0xfee00000" "rd32 root_ram 0x1038 = 0xfec00000" "root_ram 0 = 0"
  by code_simp+

lemma root_ram_tables:
  "locate_rsdp root_ram = Some 0x9f800" "root_tables root_ram 0x9f800 = (0x2000, [0x1000])"
  "hdr_length (acpi_hdr_at root_ram 0x2000) = 40" "hdr_length (acpi_hdr_at root_ram 0x1000) = 74"
  "table_fits root_ram 0x2000" "table_fits root_ram 0x1000"
proof -
  note f = root_ram_facts
  show l: "hdr_length (acpi_hdr_at root_ram 0x2000) = 40" "hdr_length (acpi_hdr_at root_ram 0x1000) = 74"
    by (simp_all add: acpi_hdr_at_def f)
  then show "table_fits root_ram 0x2000" "table_fits root_ram 0x1000" by (simp_all add: table_fits_def)
  show "locate_rsdp root_ram = Some 0x9f800"
    by (simp add: locate_rsdp_def find_rsdp_def find_rsdp_loop.simps [of root_ram] KMEM_EXTENDED_BIOS_def
      KMEM_EXTENDED_BIOS_SIZE_def f)
  have "table_count 40 4 = 1" by code_simp
  then have "rsdt_tables root_ram 0x2000 = [0x1000]" by (simp add: rsdt_tables_def l rsdt_ptr_table_def SIZEOF_HDR_def f)
  then show "root_tables root_ram 0x9f800 = (0x2000, [0x1000])"
    by (simp add: root_tables_def acpi_rsdp_at_def f)
qed

lemma root_ram_madt:
  "madt_entries root_ram (0x1000 + SIZEOF_MADT) (0x1000 + ucast (rd32 root_ram (0x1000 + 4))) sample_entries"
  by code_simp

lemma boot_pages:
  "foldM (map_table_pages root_ram) [0x2000, 0x1000] (boot_table, boot_memory) = Some (boot_table, boot_memory)"
proof -
  have m: "is_mapped boot_table boot_memory 0x2000" "is_mapped boot_table boot_memory 0x1000" by code_simp+
  have d: "PAGE_ALIGN_DOWN 0x2000 = 0x2000" "PAGE_ALIGN_DOWN 0x1000 = 0x1000"
    "PAGE_ALIGN_UP (0x2000 + SIZEOF_HDR) = 0x3000" "PAGE_ALIGN_UP (0x1000 + SIZEOF_HDR) = 0x2000"
    "PAGE_ALIGN_UP (0x2000 + 40) = 0x3000" "PAGE_ALIGN_UP (0x1000 + 74) = 0x2000" by code_simp+
  show ?thesis using m d by (simp add: map_table_pages_def root_ram_tables map_range_mapped)
qed

theorem apics_stay_uncached_witness:
  "\<forall>stk. \<exists>s' p. acpi_init stk root_machine = Some s' \<and> pmap_init (am_pmap s') = Some p \<and>
    (\<exists>u. type_at (region (pm_map p)) 0xfee00020 = Some u \<and> 6 \<le> u) \<and>
    (\<exists>u. type_at (region (pm_map p)) 0xfec00010 = Some u \<and> 6 \<le> u)"
proof
  fix stk
  have s: "am_ram root_machine = root_ram" "am_acpi root_machine = acpi_boot"
    "pm_map (am_pmap root_machine) = sample_map" "\<not> pm_initialized (am_pmap root_machine)"
    "snd (am_boot root_machine) = boot_memory" "am_log root_machine = log_boot"
    by (simp_all add: root_machine_def)
  have e: "of_type ACPI_MADT_IO_APIC sample_entries = [0x1034]" by code_simp
  have ram: "unat (ptr_local_apic (acpi_madt_at root_ram 0x1000)) = 0xfee00000"
    "unat (ptr_io_apic (acpi_madt_io_apic_at root_ram 0x1034)) = 0xfec00000"
    by (simp_all add: acpi_madt_at_def acpi_madt_io_apic_at_def root_ram_facts)
  have t: "\<forall>r \<in> set (region sample_map). ok_region r \<and> sint (reg_type r) \<le> 7"
    using sample_map_ok by (auto simp: sample_map_def)
  have z: "0 \<notin> fst ` set sample_entries" "0 \<in> range root_ram"
    using root_ram_facts(10) by (simp_all add: sample_entries_def)
  have nz: "(0x9f800 :: u64) \<noteq> 0" "(0x2000 :: u64) \<noteq> 0" "(0x1000 :: u64) \<noteq> 0" by simp_all
  have fits: "\<forall>h \<in> set [0x2000, 0x1000]. table_fits root_ram h" using root_ram_tables(5,6) by simp
  have pages: "foldM (map_table_pages root_ram) [0x2000, 0x1000] (boot_table, boot_memory) \<noteq> None" unfolding boot_pages by simp
  have madt: "filter (\<lambda>h. rd32 root_ram h = SIGNATURE_MADT) [0x1000] = [] @ [0x1000]" using root_ram_facts(6) by simp
  obtain s' p where q: "acpi_init stk root_machine = Some s'" "pmap_init (am_pmap s') = Some p"
    "\<forall>a. a div 4096 = unat (ptr_local_apic (acpi_madt_at root_ram 0x1000)) div 4096 \<longrightarrow>
       (\<exists>u. type_at (region (pm_map p)) a = Some u \<and> 6 \<le> u)"
    "\<forall>x \<in> set [0x1034]. \<forall>a. a div 4096 = unat (ptr_io_apic (acpi_madt_io_apic_at root_ram x)) div 4096 \<longrightarrow>
       (\<exists>u. type_at (region (pm_map p)) a = Some u \<and> 6 \<le> u)"
    using apics_stay_uncached [of root_machine "[]" "0x9f800" "0x2000" "[0x1000]" "[]" "0x1000" sample_entries stk, unfolded s e,
      OF refl s(4) log_boot_rep z(2) t root_ram_tables(1) nz(1) root_ram_tables(2) nz(2) fits pages madt nz(3) root_ram_madt z(1)]
    by (elim exE conjE) (rule that)
  show "\<exists>s' p. acpi_init stk root_machine = Some s' \<and> pmap_init (am_pmap s') = Some p \<and>
    (\<exists>u. type_at (region (pm_map p)) 0xfee00020 = Some u \<and> 6 \<le> u) \<and>
    (\<exists>u. type_at (region (pm_map p)) 0xfec00010 = Some u \<and> 6 \<le> u)"
    using q(1,2) q(3) [rule_format, of "0xfee00020"] q(4) [rule_format, of "0x1034" "0xfec00010"] by (simp add: ram)
qed

definition sample_machine :: acpi_machine where
  "sample_machine = \<lparr>am_ram = sample_ram, am_boot = (\<lparr>broot = KMEM_BOOT_PAGETABLE, next_page = KMEM_BOOT_PAGETABLE_LOADED,
       term_page = KMEM_BOOT_PAGETABLE_END\<rparr>, \<lambda>_. 0), am_acpi = sample_acpi,
     am_pmap = \<lparr>pm_map = sample_map, pm_initialized = False\<rparr>, am_log = log_boot, am_calls = []\<rparr>"

text \<open>C28: an entry of length 0 in the MADT hangs the kernel.  When the entry an iteration comes to
  is of another type and has length 0, the search steps from it to itself: \<open>madt_find\<close> never
  returns, nor does the loop of \<open>acpi_init\<close> over the I/O APICs.\<close>

theorem madt_zero_length_hangs:
  assumes "ac_madt (am_acpi s) \<noteq> 0"
    and "a = (if prev = 0 then madt_start (am_acpi s) else prev + ucast (am_ram s (prev + 1)))"
    and "a < madt_end (am_ram s) (am_acpi s)" and "am_ram s a \<noteq> madt_type_val ty" and "am_ram s (a + 1) = 0"
  shows "madt_find (am_ram s) (am_acpi s) ty prev = None \<and>
    (ty = ACPI_MADT_IO_APIC \<longrightarrow> reserve_io_apics prev s = None)"
proof -
  have "madt_find (am_ram s) (am_acpi s) ty prev = madt_find_loop (am_ram s) ty a (madt_end (am_ram s) (am_acpi s))"
    using madt_find_first [OF assms(1)] madt_find_from [OF assms(1)] assms(2) by auto
  then have "madt_find (am_ram s) (am_acpi s) ty prev = None"
    using madt_find_loop_stuck [of a "madt_end (am_ram s) (am_acpi s)" "am_ram s" ty, OF assms(3-5)] by simp
  then show ?thesis by (auto simp: reserve_io_apics.simps [of prev] acpi_next_io_apic_def)
qed

theorem madt_zero_length_hangs_witness:
  "reserve_io_apics 0 (sample_machine\<lparr>am_ram := sample_ram(0x102d := 0)\<rparr>) = None"
proof -
  have "madt_start sample_acpi = 0x102c" "0x102c < madt_end (sample_ram(0x102d := 0)) sample_acpi"
    "(sample_ram(0x102d := 0)) 0x102c = 0" "(sample_ram(0x102d := 0)) 0x102d = 0" by code_simp+
  then show ?thesis
    using madt_zero_length_hangs [of "sample_machine\<lparr>am_ram := sample_ram(0x102d := 0)\<rparr>" "0x102c" "0" ACPI_MADT_IO_APIC]
    by (simp add: sample_machine_def sample_acpi_def acpi_boot_def)
qed

end
