(* ===== verification/Dump.thy ===== *)
theory Dump
  imports Format
begin

text \<open>
  Dumps of registers, flags and memory into a buffer (\<^verbatim>\<open>kernel/debug/dump.c\<close>).  The buffer is
  memory from offset 0 on, as for \<open>vsnprintf\<close>; the memory dumped is a list of bytes and its
  address.  Every piece of a memory dump is written only when it fits, but always counted; the
  specification \<open>dump_text\<close> is the text of all pieces.  A 64-bit argument that \<open>vsnprintf\<close>
  fetches as an \<open>int\<close> is read as its low half, as the calling convention of x86-64 has it.
\<close>

section \<open>Registers and flags\<close>

record registers =
  rax :: u64
  rbx :: u64
  rcx :: u64
  rdx :: u64
  rsi :: u64
  rdi :: u64
  rbp :: u64
  r8 :: u64
  r9 :: u64
  r10 :: u64
  r11 :: u64
  r12 :: u64
  r13 :: u64
  r14 :: u64
  r15 :: u64

definition registers_format :: "u8 list" where
  "registers_format =
     asc ''RAX: %016lx    RSI: %016lx    R11: %016lx'' @ [0x0a] @
     asc ''RBX: %016lx    RDI: %016lx    R12: %016lx'' @ [0x0a] @
     asc ''RCX: %016lx     R8: %016lx    R13: %016lx'' @ [0x0a] @
     asc ''RDX: %016lx     R9: %016lx    R14: %016lx'' @ [0x0a] @
     asc ''RBP: %016lx    R10: %016lx    R15: %016lx'' @ [0x0a]"

definition dump_registers :: "(nat \<Rightarrow> u8) \<Rightarrow> nat \<Rightarrow> registers \<Rightarrow> (int \<times> (nat \<Rightarrow> u8) \<times> int list) option" where
  "dump_registers buf bufsize regs = snprintf buf bufsize registers_format
     [ArgLong (rax regs), ArgLong (rsi regs), ArgLong (r11 regs),
      ArgLong (rbx regs), ArgLong (rdi regs), ArgLong (r12 regs),
      ArgLong (rcx regs), ArgLong (r8 regs), ArgLong (r13 regs),
      ArgLong (rdx regs), ArgLong (r9 regs), ArgLong (r14 regs),
      ArgLong (rbp regs), ArgLong (r10 regs), ArgLong (r15 regs)]"

definition CPU_EFLAGS_CARRY :: u64 where "CPU_EFLAGS_CARRY = 2 ^ 0"
definition CPU_EFLAGS_PARITY :: u64 where "CPU_EFLAGS_PARITY = 2 ^ 2"
definition CPU_EFLAGS_ADJUST :: u64 where "CPU_EFLAGS_ADJUST = 2 ^ 4"
definition CPU_EFLAGS_ZERO :: u64 where "CPU_EFLAGS_ZERO = 2 ^ 6"
definition CPU_EFLAGS_SIGN :: u64 where "CPU_EFLAGS_SIGN = 2 ^ 7"
definition CPU_EFLAGS_TRAP :: u64 where "CPU_EFLAGS_TRAP = 2 ^ 8"
definition CPU_EFLAGS_INTERRUPT :: u64 where "CPU_EFLAGS_INTERRUPT = 2 ^ 9"
definition CPU_EFLAGS_DIRECTION :: u64 where "CPU_EFLAGS_DIRECTION = 2 ^ 10"
definition CPU_EFLAGS_OVERFLOW :: u64 where "CPU_EFLAGS_OVERFLOW = 2 ^ 11"

definition flag_bit :: "u64 \<Rightarrow> u64 \<Rightarrow> u32" where
  "flag_bit rflags f = (if rflags AND f \<noteq> 0 then 1 else 0)"

definition cpuflags_format :: "u8 list" where
  "cpuflags_format = asc ''CF=%u   PF=%u   AF=%u   ZF=%u   SF=%u   '' @
     asc ''TF=%u   IF=%u   DF=%u   OF=%u   IOPL=%u'' @ [0x0a]"

definition dump_cpuflags :: "(nat \<Rightarrow> u8) \<Rightarrow> nat \<Rightarrow> u64 \<Rightarrow> (int \<times> (nat \<Rightarrow> u8) \<times> int list) option" where
  "dump_cpuflags buf bufsize rflags = snprintf buf bufsize cpuflags_format
     [ArgInt (flag_bit rflags CPU_EFLAGS_CARRY), ArgInt (flag_bit rflags CPU_EFLAGS_PARITY),
      ArgInt (flag_bit rflags CPU_EFLAGS_ADJUST), ArgInt (flag_bit rflags CPU_EFLAGS_ZERO),
      ArgInt (flag_bit rflags CPU_EFLAGS_SIGN), ArgInt (flag_bit rflags CPU_EFLAGS_TRAP),
      ArgInt (flag_bit rflags CPU_EFLAGS_INTERRUPT), ArgInt (flag_bit rflags CPU_EFLAGS_DIRECTION),
      ArgInt (flag_bit rflags CPU_EFLAGS_OVERFLOW), ArgInt (ucast (drop_bit 12 rflags AND 3))]"

section \<open>Memory\<close>

datatype dumpstyle = DUMPSTYLE_NOADDR | DUMPSTYLE_ADDR | DUMPSTYLE_OFFSET

definition digit :: "u8 list" where "digit = asc ''0123456789abcdef''"

text \<open>The loops that write digits from the last to the first: the digits and what is left of the
  value.\<close>

fun put_hex :: "nat \<Rightarrow> u64 \<Rightarrow> u8 list \<times> u64" where
  "put_hex 0 v = ([], v)"
| "put_hex (Suc n) v =
     (let (ds, rest) = put_hex n (drop_bit 4 v) in (ds @ [digit ! unat (v AND 0xf)], rest))"

text \<open>\<open>if (b + n < bt) { ... } b += n;\<close> for a piece of \<open>n\<close> characters.\<close>

definition dump_put :: "nat \<Rightarrow> u8 list \<Rightarrow> nat \<times> (nat \<Rightarrow> u8) \<Rightarrow> nat \<times> (nat \<Rightarrow> u8)" where
  "dump_put bt cs = (\<lambda>(b, mm).
     (b + length cs, if b + length cs < bt then (\<lambda>i. if b \<le> i \<and> i < b + length cs then cs ! (i - b) else mm i) else mm))"

definition offset_piece :: "nat \<Rightarrow> u8 list" where
  "offset_piece m = (let (ds, rest) = put_hex 8 (of_nat m) in ds @ asc '':  '')"

definition addr_piece :: "u64 \<Rightarrow> u8 list" where
  "addr_piece a = (let (lo, a) = put_hex 8 a; (hi, a) = put_hex 8 a in hi @ [0x60] @ lo @ asc '':  '')"

definition hex_piece :: "u8 list \<Rightarrow> nat \<Rightarrow> u8 list" where
  "hex_piece mm k =
     (if k < length mm then [digit ! unat (drop_bit 4 (mm ! k)), digit ! unat (mm ! k AND 0xf)] else [0x20, 0x20])"

definition ascii_piece :: "u8 list \<Rightarrow> nat \<Rightarrow> u8 list" where
  "ascii_piece mm k =
     (if k < length mm then [if mm ! k < 32 \<or> mm ! k > 126 then 0x2e else mm ! k] else [0x20])"

definition dump_head :: "dumpstyle \<Rightarrow> u64 \<Rightarrow> nat \<Rightarrow> nat \<Rightarrow> nat \<times> (nat \<Rightarrow> u8) \<Rightarrow> nat \<times> (nat \<Rightarrow> u8)" where
  "dump_head style addr bt m s =
     (case style of
        DUMPSTYLE_OFFSET \<Rightarrow> dump_put bt (offset_piece m) s
      | DUMPSTYLE_ADDR \<Rightarrow> dump_put bt (addr_piece (addr + of_nat m)) s
      | DUMPSTYLE_NOADDR \<Rightarrow> s)"

definition dump_hex :: "nat \<Rightarrow> u8 list \<Rightarrow> nat \<Rightarrow> nat \<times> (nat \<Rightarrow> u8) \<Rightarrow> nat \<times> (nat \<Rightarrow> u8)" where
  "dump_hex bt mm m = fold (\<lambda>j s.
     let s = dump_put bt (hex_piece mm (m + j)) s
     in if (j + 1) mod 4 = 0 then dump_put bt [0x20] s else s) [0..<16]"

definition dump_ascii :: "nat \<Rightarrow> u8 list \<Rightarrow> nat \<Rightarrow> nat \<times> (nat \<Rightarrow> u8) \<Rightarrow> nat \<times> (nat \<Rightarrow> u8)" where
  "dump_ascii bt mm m = fold (\<lambda>j s.
     let s = dump_put bt (ascii_piece mm (m + j)) s
     in if j = 7 then dump_put bt [0x20] s else s) [0..<16]"

definition dump_line :: "dumpstyle \<Rightarrow> u64 \<Rightarrow> u8 list \<Rightarrow> nat \<Rightarrow> nat \<Rightarrow> nat \<times> (nat \<Rightarrow> u8) \<Rightarrow> nat \<times> (nat \<Rightarrow> u8)" where
  "dump_line style addr mm bt m s =
     (let s = dump_head style addr bt m s;
          s = dump_hex bt mm m s;
          s = dump_put bt [0x20] s;
          s = dump_ascii bt mm m s
      in dump_put bt [0x0a] s)"

function dump_loop :: "dumpstyle \<Rightarrow> u64 \<Rightarrow> u8 list \<Rightarrow> nat \<Rightarrow> nat \<Rightarrow> nat \<times> (nat \<Rightarrow> u8) \<Rightarrow> nat \<times> (nat \<Rightarrow> u8)" where
  "dump_loop style addr mm bt m s =
     (if fst s < bt \<and> m < length mm
      then dump_loop style addr mm bt (m + 16) (dump_line style addr mm bt m s) else s)"
  by pat_completeness auto
termination
  by (relation "measure (\<lambda>(style, addr, mm, bt, m, s). length mm - m)") auto

declare dump_loop.simps [simp del]

definition dump_memory :: "(nat \<Rightarrow> u8) \<Rightarrow> nat \<Rightarrow> u64 \<Rightarrow> u8 list \<Rightarrow> dumpstyle \<Rightarrow> int \<times> (nat \<Rightarrow> u8)" where
  "dump_memory buf bufsize addr mm style =
     (let (b, buf) = dump_loop style addr mm bufsize 0 (0, buf);
          buf = (if b < bufsize then buf(b := 0)
                 else if bufsize > 0 then buf(b + (bufsize - 1) := 0) else buf)
      in (sint (of_nat b :: u32), buf))"

section \<open>The text of a dump\<close>

definition head_text :: "dumpstyle \<Rightarrow> u64 \<Rightarrow> nat \<Rightarrow> u8 list" where
  "head_text style addr m =
     (case style of DUMPSTYLE_OFFSET \<Rightarrow> offset_piece m | DUMPSTYLE_ADDR \<Rightarrow> addr_piece (addr + of_nat m)
      | DUMPSTYLE_NOADDR \<Rightarrow> [])"

definition line_text :: "dumpstyle \<Rightarrow> u64 \<Rightarrow> u8 list \<Rightarrow> nat \<Rightarrow> u8 list" where
  "line_text style addr mm m = head_text style addr m @
     concat (map (\<lambda>j. hex_piece mm (m + j) @ (if (j + 1) mod 4 = 0 then [0x20] else [])) [0..<16]) @ [0x20] @
     concat (map (\<lambda>j. ascii_piece mm (m + j) @ (if j = 7 then [0x20] else [])) [0..<16]) @ [0x0a]"

definition dump_text :: "dumpstyle \<Rightarrow> u64 \<Rightarrow> u8 list \<Rightarrow> u8 list" where
  "dump_text style addr mm = concat (map (\<lambda>k. line_text style addr mm (16 * k)) [0..<(length mm + 15) div 16])"

text \<open>\<open>lays bt f cs\<close>: the step \<open>f\<close> adds the characters \<open>cs\<close>; they are in the buffer when it has room
  for them and one more, and nothing is written outside the buffer or before the place reached.\<close>

definition lays :: "nat \<Rightarrow> (nat \<times> (nat \<Rightarrow> u8) \<Rightarrow> nat \<times> (nat \<Rightarrow> u8)) \<Rightarrow> u8 list \<Rightarrow> bool" where
  "lays bt f cs \<longleftrightarrow> (\<forall>b mm. fst (f (b, mm)) = b + length cs \<and>
     (b + length cs < bt \<longrightarrow> snd (f (b, mm)) = poke_mem cs b bt mm) \<and>
     (\<forall>i. i < b \<or> bt \<le> i + 1 \<longrightarrow> snd (f (b, mm)) i = mm i))"

lemma lays_put: "lays bt (dump_put bt cs) cs"
  by (auto simp: lays_def dump_put_def poke_mem_def)

lemma lays_id: "lays bt (\<lambda>s. s) []"
  by (simp add: lays_def)

lemma lays_seq:
  assumes f: "lays bt f cs" and g: "lays bt g ds"
  shows "lays bt (\<lambda>s. g (f s)) (cs @ ds)"
  unfolding lays_def
proof (intro allI)
  fix b mm
  obtain b' mm' where s: "f (b, mm) = (b', mm')" by fastforce
  have f': "b' = b + length cs" "b + length cs < bt \<Longrightarrow> mm' = poke_mem cs b bt mm"
    "i < b \<or> bt \<le> i + 1 \<Longrightarrow> mm' i = mm i" for i
    using f [unfolded lays_def, rule_format, of b mm] by (auto simp: s)
  note g' = g [unfolded lays_def, rule_format, of b' mm']
  show "fst (g (f (b, mm))) = b + length (cs @ ds) \<and>
     (b + length (cs @ ds) < bt \<longrightarrow> snd (g (f (b, mm))) = poke_mem (cs @ ds) b bt mm) \<and>
     (\<forall>i. i < b \<or> bt \<le> i + 1 \<longrightarrow> snd (g (f (b, mm))) i = mm i)"
    using g' f' poke_mem_append [of ds b cs bt mm] by (auto simp: s)
qed

lemma lays_fold:
  assumes "\<And>j. j \<in> set js \<Longrightarrow> lays bt (f j) (cs j)"
  shows "lays bt (fold f js) (concat (map cs js))"
  using assms
proof (induction js)
  case Nil
  then show ?case by (simp add: lays_def)
next
  case (Cons j js)
  have "lays bt (\<lambda>s. fold f js (f j s)) (cs j @ concat (map cs js))" by (rule lays_seq) (use Cons in auto)
  then show ?case by (simp add: lays_def)
qed

lemma lays_line: "lays bt (dump_line style addr mm bt m) (line_text style addr mm m)"
proof -
  have h: "lays bt (dump_head style addr bt m) (head_text style addr m)"
    using lays_put lays_id by (cases style) (simp_all add: dump_head_def [abs_def] head_text_def)
  have x: "lays bt (dump_hex bt mm m)
      (concat (map (\<lambda>j. hex_piece mm (m + j) @ (if (j + 1) mod 4 = 0 then [0x20] else [])) [0..<16]))"
    unfolding dump_hex_def
  proof (rule lays_fold)
    fix j
    show "lays bt (\<lambda>s. let s = dump_put bt (hex_piece mm (m + j)) s in if (j + 1) mod 4 = 0 then dump_put bt [0x20] s else s)
        (hex_piece mm (m + j) @ (if (j + 1) mod 4 = 0 then [0x20] else []))"
      using lays_seq [OF lays_put lays_put] lays_put by (cases "(j + 1) mod 4 = 0") (simp_all add: Let_def)
  qed
  have a: "lays bt (dump_ascii bt mm m)
      (concat (map (\<lambda>j. ascii_piece mm (m + j) @ (if j = 7 then [0x20] else [])) [0..<16]))"
    unfolding dump_ascii_def
  proof (rule lays_fold)
    fix j
    show "lays bt (\<lambda>s. let s = dump_put bt (ascii_piece mm (m + j)) s in if j = 7 then dump_put bt [0x20] s else s)
        (ascii_piece mm (m + j) @ (if j = 7 then [0x20] else []))"
      using lays_seq [OF lays_put lays_put] lays_put by (cases "j = 7") (simp_all add: Let_def)
  qed
  show ?thesis
    using lays_seq [OF lays_seq [OF lays_seq [OF lays_seq [OF h x] lays_put [of bt "[0x20]"]] a] lays_put [of bt "[0x0a]"]]
    by (simp add: dump_line_def [abs_def] line_text_def Let_def)
qed


section \<open>All lines\<close>

definition lines_from :: "dumpstyle \<Rightarrow> u64 \<Rightarrow> u8 list \<Rightarrow> nat \<Rightarrow> u8 list" where
  "lines_from style addr mm m = concat (map (\<lambda>k. line_text style addr mm (m + 16 * k)) [0..<(length mm - m + 15) div 16])"

lemma lines_from_end: "length mm \<le> m \<Longrightarrow> lines_from style addr mm m = []"
  by (simp add: lines_from_def)

lemma lines_from_step:
  assumes "m < length mm"
  shows "lines_from style addr mm m = line_text style addr mm m @ lines_from style addr mm (m + 16)"
proof -
  have n: "(length mm - m + 15) div 16 = Suc ((length mm - (m + 16) + 15) div 16)"
  proof (cases "16 \<le> length mm - m")
    case True
    then obtain k where "length mm - m = 16 + k" by (auto simp: le_iff_add)
    moreover from this have "length mm - (m + 16) = k" by linarith
    ultimately show ?thesis by simp
  next
    case False
    then have "(length mm - m + 15) div 16 = 1" "length mm - (m + 16) = 0"
      using assms by (auto intro: div_nat_eqI)
    then show ?thesis by simp
  qed
  have "[0..<Suc n] = 0 # map Suc [0..<n]" for n by (simp add: map_Suc_upt upt_conv_Cons del: upt_Suc)
  then show ?thesis unfolding lines_from_def n by (simp add: comp_def add.assoc)
qed

lemma dump_loop_lays:
  "fst s \<le> fst (dump_loop style addr mm bt m s) \<and>
   fst (dump_loop style addr mm bt m s) \<le> fst s + length (lines_from style addr mm m) \<and>
   (fst (dump_loop style addr mm bt m s) < bt \<or> fst s + length (lines_from style addr mm m) < bt \<longrightarrow>
      dump_loop style addr mm bt m s =
        (fst s + length (lines_from style addr mm m), poke_mem (lines_from style addr mm m) (fst s) bt (snd s))) \<and>
   (\<forall>i. i < fst s \<or> bt \<le> i + 1 \<longrightarrow> snd (dump_loop style addr mm bt m s) i = snd s i)"
proof (induction style addr mm bt m s rule: dump_loop.induct)
  case (1 style addr mm bt m s)
  obtain b buf where s: "s = (b, buf)" by (cases s)
  show ?case
  proof (cases "b < bt \<and> m < length mm")
    case True
    let ?l = "line_text style addr mm m" and ?r = "lines_from style addr mm (m + 16)"
    define t where "t = dump_line style addr mm bt m s"
    define u where "u = dump_loop style addr mm bt (m + 16) t"
    have l: "dump_loop style addr mm bt m s = u"
      using True by (simp add: dump_loop.simps [of _ _ _ _ m] s t_def u_def)
    have t: "fst t = b + length ?l" "b + length ?l < bt \<Longrightarrow> snd t = poke_mem ?l b bt buf"
      "i < b \<or> bt \<le> i + 1 \<Longrightarrow> snd t i = buf i" for i
      using lays_line [of bt style addr mm m, unfolded lays_def, rule_format, of b buf] by (auto simp: t_def s)
    have p: "fst s < bt \<and> m < length mm" using True by (simp add: s)
    note ih = 1 [OF p, folded t_def, folded u_def]
    note IH = ih [THEN conjunct1] ih [THEN conjunct2, THEN conjunct1]
      ih [THEN conjunct2, THEN conjunct2, THEN conjunct1, THEN mp]
      ih [THEN conjunct2, THEN conjunct2, THEN conjunct2]
    have e: "lines_from style addr mm m = ?l @ ?r"
      by (rule lines_from_step) (use True in simp)
    have "u = (b + length (?l @ ?r), poke_mem (?l @ ?r) b bt buf)" if "fst u < bt \<or> b + length (?l @ ?r) < bt"
    proof -
      have f: "fst u < bt \<or> fst t + length ?r < bt" using that t(1) by (simp add: add.assoc)
      then have "fst t < bt" using IH(1) by linarith
      then have "snd t = poke_mem ?l b bt buf" using t(1,2) by simp
      then show ?thesis using IH(3) [OF f] t(1) by (simp add: poke_mem_append add.assoc)
    qed
    moreover have "snd u i = buf i" if "i < b \<or> bt \<le> i + 1" for i
    proof -
      have "i < fst t \<or> bt \<le> i + 1" using that t(1) by linarith
      then show ?thesis using IH(4) [rule_format, of i] t(3) [OF that] by simp
    qed
    ultimately show ?thesis unfolding l unfolding e s fst_conv snd_conv using IH(1,2) t(1) by simp
  next
    case False
    then have d: "dump_loop style addr mm bt m s = s" by (auto simp: dump_loop.simps [of _ _ _ _ m] s)
    have "lines_from style addr mm m = []" if "b < bt" using False that by (simp add: lines_from_end)
    then show ?thesis unfolding d unfolding s by auto
  qed
qed

lemma dump_text_lines: "dump_text style addr mm = lines_from style addr mm 0"
  by (simp add: dump_text_def lines_from_def)

text \<open>The length of a line depends on the style only.\<close>

definition line_width :: "dumpstyle \<Rightarrow> nat" where
  "line_width style =
     (case style of DUMPSTYLE_OFFSET \<Rightarrow> 66 | DUMPSTYLE_ADDR \<Rightarrow> 75 | DUMPSTYLE_NOADDR \<Rightarrow> 55)"

lemma length_put_hex: "length (fst (put_hex n v)) = n"
  by (induction n arbitrary: v) (simp_all add: case_prod_beta)

lemma length_head_text:
  "length (head_text style addr m) + 55 = line_width style"
  by (cases style) (simp_all add: head_text_def line_width_def offset_piece_def addr_piece_def asc_def
      length_put_hex case_prod_beta)

lemma length_line_text: "length (line_text style addr mm m) = line_width style"
proof -
  have h: "length (hex_piece mm k) = 2" "length (ascii_piece mm k) = 1" for k
    by (simp_all add: hex_piece_def ascii_piece_def)
  have u: "[0..<16] = [0, 1, 2, 3, 4, 5, 6, 7, 8, 9, 10, 11, 12, 13, 14, 15]" by code_simp
  have "length (concat (map (\<lambda>j. hex_piece mm (m + j) @ (if (j + 1) mod 4 = 0 then [0x20] else [])) [0..<16])) = 36"
    "length (concat (map (\<lambda>j. ascii_piece mm (m + j) @ (if j = 7 then [0x20] else [])) [0..<16])) = 17"
    unfolding u by (simp_all add: h)
  then show ?thesis using length_head_text [of style addr m] by (simp add: line_text_def)
qed

lemma length_dump_text: "length (dump_text style addr mm) = line_width style * ((length mm + 15) div 16)"
proof -
  have "length (concat (map (\<lambda>k. line_text style addr mm (16 * k)) [0..<n])) = line_width style * n" for n
    by (induction n) (simp_all add: length_line_text)
  then show ?thesis by (simp add: dump_text_def)
qed

lemma dump_memory_fits:
  assumes "length (dump_text style addr mm) < bufsize" and "bufsize < 2 ^ 31"
  shows "dump_memory buf bufsize addr mm style =
    (int (length (dump_text style addr mm)), written (dump_text style addr mm) bufsize buf)"
proof -
  let ?t = "dump_text style addr mm"
  have l: "dump_loop style addr mm bufsize 0 (0, buf) = (length ?t, poke_mem ?t 0 bufsize buf)"
    using dump_loop_lays [of "(0, buf)" style addr mm bufsize 0, THEN conjunct2, THEN conjunct2, THEN conjunct1] assms(1)
    unfolding dump_text_lines fst_conv snd_conv add_0 by blast
  have n: "sint (of_nat (length ?t) :: u32) = int (length ?t)"
    using assms by (intro sint_of_nat_32) simp
  show ?thesis unfolding dump_memory_def l prod.case Let_def n written_def using assms(1) by auto
qed

section \<open>Properties\<close>

text \<open>C20: a dump that fits its buffer.  When the text of the dump and a terminator fit, the buffer
  holds the text and the terminator afterwards, nothing else is changed, and the length of the
  text is returned.\<close>

theorem dump_memory_text:
  assumes "length (dump_text style addr mm) < bufsize" and "bufsize < 2 ^ 31"
  shows "dump_memory buf bufsize addr mm style =
    (int (length (dump_text style addr mm)), written (dump_text style addr mm) bufsize buf)"
  by (rule dump_memory_fits [OF assms])

theorem dump_memory_text_witness:
  "dump_memory (\<lambda>_. 0xff) 100 0x1000 [0x41, 0x42] DUMPSTYLE_NOADDR =
    (55, written (dump_text DUMPSTYLE_NOADDR 0x1000 [0x41, 0x42]) 100 (\<lambda>_. 0xff))"
  using dump_memory_text [of DUMPSTYLE_NOADDR "0x1000" "[0x41, 0x42]" 100 "\<lambda>_. 0xff"]
  by (simp add: length_dump_text line_width_def)

text \<open>A dump that does not fit.  The characters written stay inside the buffer, but the
  terminator does not: it goes \<open>bufsize - 1\<close> bytes behind the place the text would have reached,
  at least \<open>2 * bufsize - 1\<close> bytes behind the start of the buffer, and the last byte of the buffer
  keeps its old value.\<close>

lemma dump_memory_overflow:
  assumes "0 < bufsize" and "bufsize \<le> length (dump_text style addr mm)"
  shows "\<exists>b. bufsize \<le> b \<and> b \<le> length (dump_text style addr mm) \<and>
    (\<forall>i. bufsize \<le> i + 1 \<longrightarrow>
       snd (dump_memory buf bufsize addr mm style) i = (if i = b + (bufsize - 1) then 0 else buf i))"
proof -
  let ?t = "dump_text style addr mm"
  obtain b buf' where l: "dump_loop style addr mm bufsize 0 (0, buf) = (b, buf')" by fastforce
  have d: "b \<le> length ?t" "b < bufsize \<Longrightarrow> b = length ?t" "bufsize \<le> i + 1 \<Longrightarrow> buf' i = buf i" for i
    using dump_loop_lays [of "(0, buf)" style addr mm bufsize 0] unfolding l by (auto simp: dump_text_lines)
  then have b: "bufsize \<le> b" using assms(2) by linarith
  show ?thesis
    by (rule exI [of _ b]) (use b d assms(1) in \<open>simp add: dump_memory_def l\<close>)
qed

end
