(* ===== verification/Exception.thy ===== *)
theory Exception
  imports Dump "HOL-Library.Stream"
begin

text \<open>
  The handlers of processor exceptions (\<^verbatim>\<open>kernel/interrupt/exception.c\<close>).  A fatal exception
  prints the state of the processor on console 0 and hangs: its result is the state of the
  consoles and the endless stream of what the processor does from then on.  The memory at the
  interrupted stack pointer is a function of the address; \<open>frame\<close> is what the local buffer of
  \<open>dump_context\<close> holds at first, \<open>stack\<close> what the buffers of \<open>tty_printf\<close> hold.  Arguments of 64
  bits for \<open>%02x\<close>, \<open>%04x\<close> and \<open>%08x\<close> are read as their low halves.
\<close>

section \<open>The code\<close>

definition EXCEPTION_BREAKPOINT :: nat where "EXCEPTION_BREAKPOINT = 0x03"

definition exceptionstr :: "u8 list list" where
  "exceptionstr = map asc
    [''#DE: Divide by zero exception'',
     ''#DB: Debug exception'',
     ''Non-maskable interrupt'',
     ''#BP: Breakpoint exception'',
     ''#OF: Overflow exception'',
     ''#BR: BOUND Range exceeded exception'',
     ''#UD: Invalid opcode exception'',
     ''#NM: Device not available exception'',
     ''#DF: Double fault exception'',
     ''Coprocessor segment overrun'',
     ''#TS: Invalid TSS exception'',
     ''#NP: Segment not present exception'',
     ''#SS: Stack fault exception'',
     ''#GP: General protection exception'',
     ''#PF: Page fault exception'',
     ''Unknown exception'',
     ''#MF: x87 FPU floating-point error'',
     ''#AC: Alignment check exception'',
     ''#MC: Machine-check exception'',
     ''#XM: SIMD floating-point exception'',
     ''#VE: Virtualization exception'']"

record interrupt_context =
  regs :: registers
  error :: u64
  interrupt :: u64
  retaddr :: u64
  cs :: u64
  rflags :: u64
  rsp :: u64
  ss :: u64

definition int_format :: "u8 list" where
  "int_format = asc ''INT: %02x   Error: %08x'' @ [0x0a, 0x0a]"

definition rip_format :: "u8 list" where
  "rip_format = asc ''CS:RIP: %04x:%016lx             SS:RSP: %04x:%016lx'' @ [0x0a, 0x0a]"

text \<open>The bytes of memory from an address on.\<close>

definition memory_bytes :: "(u64 \<Rightarrow> u8) \<Rightarrow> u64 \<Rightarrow> nat \<Rightarrow> u8 list" where
  "memory_bytes memory a n = map (\<lambda>i. memory (a + of_nat i)) [0..<n]"

definition dump_context :: "int \<Rightarrow> interrupt_context \<Rightarrow> (u64 \<Rightarrow> u8) \<Rightarrow> (nat \<Rightarrow> u8) \<Rightarrow> (nat \<Rightarrow> u8)
    \<Rightarrow> tty_state \<Rightarrow> tty_state option" where
  "dump_context tid context memory frame stack s = do {
     (n, s) \<leftarrow> tty_printf tid int_format [ArgInt (ucast (interrupt context)), ArgInt (ucast (error context))] stack s;
     (n, s) \<leftarrow> tty_printf tid rip_format
        [ArgInt (ucast (cs context)), ArgLong (retaddr context), ArgInt (ucast (ss context)), ArgLong (rsp context)] stack s;
     (n, buf, stored) \<leftarrow> dump_registers frame 640 (regs context);
     str \<leftarrow> c_string buf;
     let s = tty_print tid str s;
     let s = tty_print tid [0x0a] s;
     (n, buf, stored) \<leftarrow> dump_cpuflags buf 640 (rflags context);
     str \<leftarrow> c_string buf;
     let s = tty_print tid str s;
     let s = tty_print tid [0x0a] s;
     let s = tty_print tid (asc ''Stack:'' @ [0x0a]) s;
     let (n, buf) = dump_memory buf 640 (rsp context) (memory_bytes memory (rsp context) (8 * 16)) DUMPSTYLE_ADDR;
     str \<leftarrow> c_string buf;
     Some (tty_print tid str s)
   }"

datatype cpu_op = DisableInterrupts | Halt

definition hang :: "cpu_op stream" where
  "hang = cycle [DisableInterrupts, Halt]"

definition isr_fatal :: "interrupt_context \<Rightarrow> (u64 \<Rightarrow> u8) \<Rightarrow> (nat \<Rightarrow> u8) \<Rightarrow> (nat \<Rightarrow> u8)
    \<Rightarrow> tty_state \<Rightarrow> (tty_state \<times> cpu_op stream) option" where
  "isr_fatal context memory frame stack s = do {
     let i = sint (ucast (interrupt context) :: u32);
     exstr \<leftarrow> (if i < int (length exceptionstr) then if i < 0 then None else Some (exceptionstr ! nat i)
               else Some (asc ''Unknown exception.''));
     let s = tty_activate 0 s;
     let s = tty_set_textcolor 0 TEXTCOLOR_WHITE TEXTCOLOR_RED s;
     let s = tty_clear 0 s;
     (n, s) \<leftarrow> tty_printf 0 (asc ''%s'' @ [0x0a, 0x0a]) [ArgStr (Some exstr)] stack s;
     s \<leftarrow> dump_context 0 context memory frame stack s;
     Some (s, hang)
   }"

definition isr_breakpoint :: "tty_state \<Rightarrow> tty_state" where
  "isr_breakpoint s = tty_print 0 (asc ''Breakpoint hit.'' @ [0x0a]) s"

definition exceptions_init :: "io_event list" where
  "exceptions_init = map (\<lambda>i. IsrSet i ''isr_fatal'') [0..<32] @
     [IsrSet 0xff ''isr_fatal'', IsrSet EXCEPTION_BREAKPOINT ''isr_breakpoint'']"

section \<open>The text of the dumps\<close>

abbreviation hex :: "nat \<Rightarrow> u64 \<Rightarrow> u8 list" where
  "hex w v \<equiv> int_text FLAG_ZERO (int w) 16 v"

definition registers_text :: "registers \<Rightarrow> u8 list" where
  "registers_text r =
     asc ''RAX: '' @ hex 16 (rax r) @ asc ''    RSI: '' @ hex 16 (rsi r) @ asc ''    R11: '' @ hex 16 (r11 r) @ [0x0a] @
     asc ''RBX: '' @ hex 16 (rbx r) @ asc ''    RDI: '' @ hex 16 (rdi r) @ asc ''    R12: '' @ hex 16 (r12 r) @ [0x0a] @
     asc ''RCX: '' @ hex 16 (rcx r) @ asc ''     R8: '' @ hex 16 (r8 r) @ asc ''    R13: '' @ hex 16 (r13 r) @ [0x0a] @
     asc ''RDX: '' @ hex 16 (rdx r) @ asc ''     R9: '' @ hex 16 (r9 r) @ asc ''    R14: '' @ hex 16 (r14 r) @ [0x0a] @
     asc ''RBP: '' @ hex 16 (rbp r) @ asc ''    R10: '' @ hex 16 (r10 r) @ asc ''    R15: '' @ hex 16 (r15 r) @ [0x0a]"

lemma registers_emits:
  "emits registers_format
     [ArgLong (rax r), ArgLong (rsi r), ArgLong (r11 r), ArgLong (rbx r), ArgLong (rdi r), ArgLong (r12 r),
      ArgLong (rcx r), ArgLong (r8 r), ArgLong (r13 r), ArgLong (rdx r), ArgLong (r9 r), ArgLong (r14 r),
      ArgLong (rbp r), ArgLong (r10 r), ArgLong (r15 r)] (registers_text r)"
proof -
  let ?f = "asc ''%016lx''"
  have line: "emits (p @ ?f @ q @ ?f @ t @ ?f @ [0x0a]) [ArgLong a, ArgLong b, ArgLong c]
      (p @ hex 16 a @ q @ hex 16 b @ t @ hex 16 c @ [0x0a])"
    if "c8 CHR ''%'' \<notin> set p" "c8 CHR ''%'' \<notin> set q" "c8 CHR ''%'' \<notin> set t" for p q t a b c
  proof -
    have "emits (p @ ?f @ q @ ?f @ t @ ?f @ [0x0a]) ([] @ [ArgLong a] @ [] @ [ArgLong b] @ [] @ [ArgLong c] @ [])
      (p @ hex 16 a @ q @ hex 16 b @ t @ hex 16 c @ [0x0a])"
      unfolding of_nat_numeral using that by (intro emits_append emits_016lx emits_plain) simp_all
    then show ?thesis by simp
  qed
  have "emits ((asc ''RAX: '' @ ?f @ asc ''    RSI: '' @ ?f @ asc ''    R11: '' @ ?f @ [0x0a]) @
      (asc ''RBX: '' @ ?f @ asc ''    RDI: '' @ ?f @ asc ''    R12: '' @ ?f @ [0x0a]) @
      (asc ''RCX: '' @ ?f @ asc ''     R8: '' @ ?f @ asc ''    R13: '' @ ?f @ [0x0a]) @
      (asc ''RDX: '' @ ?f @ asc ''     R9: '' @ ?f @ asc ''    R14: '' @ ?f @ [0x0a]) @
      (asc ''RBP: '' @ ?f @ asc ''    R10: '' @ ?f @ asc ''    R15: '' @ ?f @ [0x0a]))
     ([ArgLong (rax r), ArgLong (rsi r), ArgLong (r11 r)] @ [ArgLong (rbx r), ArgLong (rdi r), ArgLong (r12 r)] @
      [ArgLong (rcx r), ArgLong (r8 r), ArgLong (r13 r)] @ [ArgLong (rdx r), ArgLong (r9 r), ArgLong (r14 r)] @
      [ArgLong (rbp r), ArgLong (r10 r), ArgLong (r15 r)])
     ((asc ''RAX: '' @ hex 16 (rax r) @ asc ''    RSI: '' @ hex 16 (rsi r) @ asc ''    R11: '' @ hex 16 (r11 r) @ [0x0a]) @
     (asc ''RBX: '' @ hex 16 (rbx r) @ asc ''    RDI: '' @ hex 16 (rdi r) @ asc ''    R12: '' @ hex 16 (r12 r) @ [0x0a]) @
     (asc ''RCX: '' @ hex 16 (rcx r) @ asc ''     R8: '' @ hex 16 (r8 r) @ asc ''    R13: '' @ hex 16 (r13 r) @ [0x0a]) @
     (asc ''RDX: '' @ hex 16 (rdx r) @ asc ''     R9: '' @ hex 16 (r9 r) @ asc ''    R14: '' @ hex 16 (r14 r) @ [0x0a]) @
     (asc ''RBP: '' @ hex 16 (rbp r) @ asc ''    R10: '' @ hex 16 (r10 r) @ asc ''    R15: '' @ hex 16 (r15 r) @ [0x0a]))"
    by (intro emits_append line) simp_all
  then show ?thesis by (simp add: registers_format_def registers_text_def)
qed

text \<open>An integer without sign and prefix is as wide as asked for, or as its digits.\<close>

lemma int_text_width:
  assumes "fl = 0 \<or> fl = FLAG_ZERO" "1 < b" "b \<noteq> 8"
  shows "length (int_text fl w b v) = max (nat w) (max 1 (count_digits b v))"
proof -
  let ?q = "fmt_state fl w (-1) b"
  have q: "precision ?q = -1" "base ?q = b" "width ?q = w" "flags ?q = fl" by (simp_all add: fmt_state_def)
  have f: "\<not> has_flag FLAG_SIGNED ?q" "\<not> has_flag FLAG_PLUS ?q" "\<not> has_flag FLAG_SPACE ?q" "\<not> has_flag FLAG_HASH ?q"
    "\<not> has_flag FLAG_MINUS ?q" "\<not> has_flag FLAG_UPPER ?q"
    using assms(1) by (auto simp: has_flag_def q flag_defs)
  have z: "has_flag FLAG_ZERO ?q \<longleftrightarrow> fl = FLAG_ZERO" "fl AND (FLAG_MINUS OR FLAG_ZERO) = FLAG_ZERO \<longleftrightarrow> fl = FLAG_ZERO"
    using assms(1) by (auto simp: has_flag_def q flag_defs)
  have a: "int_abs v ?q = v" by (simp add: int_abs_def int_minus_def f)
  have n: "int_ndigits v ?q = int (max 1 (count_digits b v))"
    unfolding int_ndigits_def int_prec_def Let_def a
    using count_digits_Suc [OF assms(2), of v] by (cases "v = 0") (simp_all add: f q)
  have x: "int_prefix v ?q = []" "int_nchars v ?q = int_ndigits v ?q"
    by (simp_all add: int_prefix_def int_nchars_def int_minus_def f flag_or)
  have p: "nat (w - int k) + k = max (nat w) k" for k by arith
  have p': "\<not> int k < w \<Longrightarrow> max (nat w) k = k" for k by arith
  define k where "k = max 1 (count_digits b v)"
  show ?thesis unfolding int_text_def int_chars_def Let_def q x n a k_def [symmetric]
    by (cases "int k < w") (simp_all add: f flag_or z p p')
qed

lemma count_digits_bound:
  assumes "1 < b" "unat v < unat b ^ k"
  shows "count_digits b v \<le> k"
proof (cases "v = 0")
  case False
  have "unat b ^ (count_digits b v - 1) < unat b ^ k"
    using count_digits_lower [OF assms(1) False] assms(2) by simp
  moreover have "1 < unat b" using assms(1) by (simp add: word_less_nat_alt)
  ultimately show ?thesis by simp
qed simp

lemma hex_length: "length (int_text FLAG_ZERO 16 16 v) = 16"
proof -
  have "unat v < unat (16 :: u64) ^ 16" using unsigned_less [of v] by simp
  then have "count_digits 16 v \<le> 16" by (intro count_digits_bound) simp_all
  then show ?thesis by (simp add: int_text_width)
qed

lemma registers_text_length: "length (registers_text r) = 360"
  by (simp add: registers_text_def hex_length)

lemma registers_text_nonzero: "0 \<notin> set (registers_text r)"
  by (simp add: registers_text_def int_text_nonzero)

definition cpuflags_text :: "u64 \<Rightarrow> u8 list" where
  "cpuflags_text rf =
     (let bit = (\<lambda>i. int_text 0 0 10 (ucast (flag_bit rf (2 ^ i)))) in
      asc ''CF='' @ bit 0 @ asc ''   PF='' @ bit 2 @ asc ''   AF='' @ bit 4 @ asc ''   ZF='' @ bit 6 @
      asc ''   SF='' @ bit 7 @ asc ''   TF='' @ bit 8 @ asc ''   IF='' @ bit 9 @ asc ''   DF='' @ bit 10 @
      asc ''   OF='' @ bit 11 @ asc ''   IOPL='' @ int_text 0 0 10 (ucast (ucast (drop_bit 12 rf AND 3) :: u32)) @ [0x0a])"

lemmas eflags_defs = CPU_EFLAGS_CARRY_def CPU_EFLAGS_PARITY_def CPU_EFLAGS_ADJUST_def CPU_EFLAGS_ZERO_def
  CPU_EFLAGS_SIGN_def CPU_EFLAGS_TRAP_def CPU_EFLAGS_INTERRUPT_def CPU_EFLAGS_DIRECTION_def CPU_EFLAGS_OVERFLOW_def

lemma cpuflags_emits:
  "emits cpuflags_format
     [ArgInt (flag_bit rf CPU_EFLAGS_CARRY), ArgInt (flag_bit rf CPU_EFLAGS_PARITY),
      ArgInt (flag_bit rf CPU_EFLAGS_ADJUST), ArgInt (flag_bit rf CPU_EFLAGS_ZERO),
      ArgInt (flag_bit rf CPU_EFLAGS_SIGN), ArgInt (flag_bit rf CPU_EFLAGS_TRAP),
      ArgInt (flag_bit rf CPU_EFLAGS_INTERRUPT), ArgInt (flag_bit rf CPU_EFLAGS_DIRECTION),
      ArgInt (flag_bit rf CPU_EFLAGS_OVERFLOW), ArgInt (ucast (drop_bit 12 rf AND 3))] (cpuflags_text rf)"
proof -
  let ?u = "asc ''%u''"
  have "emits (asc ''CF='' @ ?u @ asc ''   PF='' @ ?u @ asc ''   AF='' @ ?u @ asc ''   ZF='' @ ?u @
      asc ''   SF='' @ ?u @ asc ''   TF='' @ ?u @ asc ''   IF='' @ ?u @ asc ''   DF='' @ ?u @
      asc ''   OF='' @ ?u @ asc ''   IOPL='' @ ?u @ [0x0a])
    ([] @ [ArgInt (flag_bit rf (2 ^ 0))] @ [] @ [ArgInt (flag_bit rf (2 ^ 2))] @ [] @ [ArgInt (flag_bit rf (2 ^ 4))] @ [] @
      [ArgInt (flag_bit rf (2 ^ 6))] @ [] @ [ArgInt (flag_bit rf (2 ^ 7))] @ [] @ [ArgInt (flag_bit rf (2 ^ 8))] @ [] @
      [ArgInt (flag_bit rf (2 ^ 9))] @ [] @ [ArgInt (flag_bit rf (2 ^ 10))] @ [] @ [ArgInt (flag_bit rf (2 ^ 11))] @ [] @
      [ArgInt (ucast (drop_bit 12 rf AND 3))] @ [])
    (cpuflags_text rf)"
    unfolding cpuflags_text_def Let_def by (intro emits_append emits_u emits_plain) simp_all
  then show ?thesis unfolding eflags_defs by (simp add: cpuflags_format_def)
qed

lemma cpuflags_text_length: "length (cpuflags_text rf) \<le> 220"
proof -
  have d: "length (int_text 0 0 10 (ucast w)) \<le> 10" for w :: u32
  proof -
    have "unat w < 4294967296" using unsigned_less [of w] by simp
    then have "unat (ucast w :: u64) < unat (10 :: u64) ^ 10" by (simp add: unsigned_ucast_eq take_bit_eq_mod)
    then have "count_digits 10 (ucast w) \<le> 10" by (intro count_digits_bound) simp_all
    then show ?thesis by (simp add: int_text_width)
  qed
  show ?thesis
    using d [of "flag_bit rf (2 ^ 0)"] d [of "flag_bit rf (2 ^ 2)"] d [of "flag_bit rf (2 ^ 4)"]
      d [of "flag_bit rf (2 ^ 6)"] d [of "flag_bit rf (2 ^ 7)"] d [of "flag_bit rf (2 ^ 8)"]
      d [of "flag_bit rf (2 ^ 9)"] d [of "flag_bit rf (2 ^ 10)"] d [of "flag_bit rf (2 ^ 11)"]
      d [of "ucast (drop_bit 12 rf AND 3)"]
    unfolding cpuflags_text_def Let_def length_append by simp
qed

lemma cpuflags_text_nonzero: "0 \<notin> set (cpuflags_text rf)"
  by (simp add: cpuflags_text_def int_text_nonzero)

lemma snprintf_emits:
  assumes "emits fmt xs t" "length t < n" "0 \<notin> set t"
  obtains r buf' where "snprintf buf n fmt xs = Some (r, buf', [])" "c_string buf' = Some t"
proof
  show "snprintf buf n fmt xs = Some (sint (of_nat (length t) :: u32), written t n buf, [])"
    using emits_fmt_text [OF assms(1)] by (simp add: snprintf_def vsnprintf_fmt_text)
  have "takeWhile (\<lambda>c. c \<noteq> 0) t = t" unfolding takeWhile_eq_all_conv using assms(3) by blast
  then show "c_string (written t n buf) = Some t" using c_string_fits [OF assms(2)] by simp
qed

lemma digit_nonzero: "k < 16 \<Longrightarrow> digit ! k \<noteq> 0"
proof -
  have "\<forall>k \<in> set [0..<16]. digit ! k \<noteq> 0" by code_simp
  then show "k < 16 \<Longrightarrow> digit ! k \<noteq> 0" by simp
qed

lemma nibble_less: "unat (v AND 0xf :: 'a::len word) < 16"
proof -
  have "v AND 0xf = take_bit 4 v" by (simp add: take_bit_eq_mask mask_eq_exp_minus_1)
  then show ?thesis by (simp only: unsigned_take_bit_eq) (simp add: take_bit_eq_mod)
qed

lemma high_nibble_less: "unat (drop_bit 4 (v :: u8)) < 16"
proof -
  have "unat v < 256" using unsigned_less [of v] by simp
  then show ?thesis by (simp add: drop_bit_eq_div unat_div)
qed

lemma put_hex_nonzero: "0 \<notin> set (fst (put_hex n v))"
proof (induction n arbitrary: v)
  case (Suc n)
  then show ?case using digit_nonzero [OF nibble_less [of v]] by (auto simp: case_prod_beta)
qed simp

lemma dump_text_nonzero: "0 \<notin> set (dump_text style addr mm)"
proof -
  have "0 \<notin> set (head_text style addr m)" for m
    using put_hex_nonzero by (cases style) (auto simp: head_text_def offset_piece_def addr_piece_def case_prod_beta)
  moreover have "0 \<notin> set (hex_piece mm k)" for k
    using digit_nonzero [OF nibble_less] digit_nonzero [OF high_nibble_less] by (auto simp: hex_piece_def)
  moreover have "0 \<notin> set (ascii_piece mm k)" for k by (auto simp: ascii_piece_def)
  ultimately show ?thesis by (simp add: dump_text_def line_text_def)
qed

section \<open>Properties\<close>

text \<open>The vectors a routine installs handlers for.\<close>

fun handler_after :: "io_event list \<Rightarrow> nat \<Rightarrow> string option" where
  "handler_after [] v = None"
| "handler_after (e # es) v =
     (case handler_after es v of Some h \<Rightarrow> Some h
      | None \<Rightarrow> (case e of IsrSet w h \<Rightarrow> if w = v then Some h else None | _ \<Rightarrow> None))"

lemma handler_after_append:
  "handler_after (es @ fs) v = (case handler_after fs v of Some h \<Rightarrow> Some h | None \<Rightarrow> handler_after es v)"
  by (induction es) (simp_all split: option.split)

lemma exceptions_init_handlers:
  "handler_after exceptions_init v =
     (if v = 3 then Some ''isr_breakpoint'' else if v < 32 \<or> v = 0xff then Some ''isr_fatal'' else None)"
proof -
  have "handler_after (map (\<lambda>i. IsrSet i ''isr_fatal'') [0..<n]) v = (if v < n then Some ''isr_fatal'' else None)" for n
    by (induction n) (auto simp: handler_after_append less_Suc_eq)
  then show ?thesis
    by (simp add: exceptions_init_def handler_after_append EXCEPTION_BREAKPOINT_def del: upt_rec_numeral)
qed

text \<open>What a fatal exception prints, string by string.\<close>

definition exception_name :: "interrupt_context \<Rightarrow> u8 list" where
  "exception_name c =
     (let i = unat (ucast (interrupt c) :: u32) in
      if i < 21 then exceptionstr ! i else asc ''Unknown exception.'')"

definition fatal_report :: "interrupt_context \<Rightarrow> (u64 \<Rightarrow> u8) \<Rightarrow> u8 list list" where
  "fatal_report c memory =
     [exception_name c @ [0x0a, 0x0a],
      asc ''INT: '' @ hex 2 (ucast (ucast (interrupt c) :: u32)) @ asc ''   Error: '' @
        hex 8 (ucast (ucast (error c) :: u32)) @ [0x0a, 0x0a],
      asc ''CS:RIP: '' @ hex 4 (ucast (ucast (cs c) :: u32)) @ asc '':'' @ hex 16 (retaddr c) @
        asc ''             SS:RSP: '' @ hex 4 (ucast (ucast (ss c) :: u32)) @ asc '':'' @ hex 16 (rsp c) @ [0x0a, 0x0a],
      registers_text (regs c), [0x0a],
      cpuflags_text (rflags c), [0x0a],
      asc ''Stack:'' @ [0x0a],
      dump_text DUMPSTYLE_ADDR (rsp c) (memory_bytes memory (rsp c) 128)]"

lemma exceptionstr_chars:
  assumes "n < 21"
  shows "0 \<notin> set (exceptionstr ! n)" "length (exceptionstr ! n) < 100"
proof -
  have "list_all (\<lambda>e. 0 \<notin> set e \<and> length e < 100) exceptionstr" "length exceptionstr = 21"
    unfolding exceptionstr_def asc_def by code_simp+
  then show "0 \<notin> set (exceptionstr ! n)" "length (exceptionstr ! n) < 100"
    using assms by (simp_all add: list_all_length)
qed

lemma exception_name_chars: "0 \<notin> set (exception_name c)" "length (exception_name c) < 100"
  using exceptionstr_chars by (auto simp: exception_name_def Let_def)

lemma str_text_plain: "str_text 0 0 (-1) t = t"
  by (simp add: str_text_def string_chars_def fmt_state_def has_flag_def Let_def)

lemma name_emits: "emits (asc ''%s'' @ [0x0a, 0x0a]) [ArgStr (Some t)] (t @ [0x0a, 0x0a])"
proof -
  have "emits (asc ''%s'' @ [0x0a, 0x0a]) ([ArgStr (Some t)] @ []) (str_text 0 0 (-1) t @ [0x0a, 0x0a])"
    by (intro emits_append emits_s emits_plain) simp_all
  then show ?thesis by (simp add: str_text_plain)
qed

lemma dump_context_prints:
  "dump_context tid c memory frame stack s = Some (fold (tty_print tid) (tl (fatal_report c memory)) s)"
proof -
  note len = int_text_length [of 16 FLAG_ZERO]
  let ?i = "asc ''INT: '' @ hex 2 (ucast (ucast (interrupt c) :: u32)) @ asc ''   Error: '' @
        hex 8 (ucast (ucast (error c) :: u32)) @ [0x0a, 0x0a]"
  let ?r = "asc ''CS:RIP: '' @ hex 4 (ucast (ucast (cs c) :: u32)) @ asc '':'' @ hex 16 (retaddr c) @
        asc ''             SS:RSP: '' @ hex 4 (ucast (ucast (ss c) :: u32)) @ asc '':'' @ hex 16 (rsp c) @ [0x0a, 0x0a]"
  let ?m = "memory_bytes memory (rsp c) 128"
  let ?d = "dump_text DUMPSTYLE_ADDR (rsp c) ?m"
  have "emits (asc ''INT: '' @ asc ''%02x'' @ asc ''   Error: '' @ asc ''%08x'' @ [0x0a, 0x0a])
      ([] @ [ArgInt (ucast (interrupt c))] @ [] @ [ArgInt (ucast (error c))] @ []) ?i"
    unfolding of_nat_numeral by (intro emits_append emits_02x emits_08x emits_plain) simp_all
  then have ie: "emits int_format [ArgInt (ucast (interrupt c)), ArgInt (ucast (error c))] ?i"
    by (simp add: int_format_def)
  have il: "length ?i < 8192"
    using len [of 2 "ucast (ucast (interrupt c) :: u32)"] len [of 8 "ucast (ucast (error c) :: u32)"] by simp
  have "emits (asc ''CS:RIP: '' @ asc ''%04x'' @ asc '':'' @ asc ''%016lx'' @ asc ''             SS:RSP: '' @
      asc ''%04x'' @ asc '':'' @ asc ''%016lx'' @ [0x0a, 0x0a])
      ([] @ [ArgInt (ucast (cs c))] @ [] @ [ArgLong (retaddr c)] @ [] @ [ArgInt (ucast (ss c))] @ [] @ [ArgLong (rsp c)] @ []) ?r"
    unfolding of_nat_numeral by (intro emits_append emits_04x emits_016lx emits_plain) simp_all
  then have re: "emits rip_format [ArgInt (ucast (cs c)), ArgLong (retaddr c), ArgInt (ucast (ss c)), ArgLong (rsp c)] ?r"
    by (simp add: rip_format_def)
  have rl: "length ?r < 8192"
    using len [of 4 "ucast (ucast (cs c) :: u32)"] len [of 4 "ucast (ucast (ss c) :: u32)"] by (simp add: hex_length)
  have nz: "0 \<notin> set ?i" "0 \<notin> set ?r" by (simp_all add: int_text_nonzero)
  obtain n1 b1 where b1: "dump_registers frame 640 (regs c) = Some (n1, b1, [])" "c_string b1 = Some (registers_text (regs c))"
    unfolding dump_registers_def
    by (rule snprintf_emits [OF registers_emits [of "regs c"], of 640 frame])
      (simp_all add: registers_text_length registers_text_nonzero)
  obtain n2 b2 where b2: "dump_cpuflags b1 640 (rflags c) = Some (n2, b2, [])" "c_string b2 = Some (cpuflags_text (rflags c))"
    unfolding dump_cpuflags_def
    by (rule snprintf_emits [OF cpuflags_emits [of "rflags c"], of 640 b1])
      (use cpuflags_text_length [of "rflags c"] in \<open>simp_all add: cpuflags_text_nonzero\<close>)
  have dl: "length ?d = 600" by (simp add: length_dump_text line_width_def memory_bytes_def)
  have d: "c_string (snd (dump_memory b2 640 (rsp c) ?m DUMPSTYLE_ADDR)) = Some ?d"
  proof -
    have "takeWhile (\<lambda>c. c \<noteq> 0) ?d = ?d"
      unfolding takeWhile_eq_all_conv using dump_text_nonzero [of DUMPSTYLE_ADDR "rsp c" ?m] by blast
    then show ?thesis using c_string_fits [of ?d 640 b2] dl by (simp add: dump_memory_fits)
  qed
  show ?thesis
    unfolding dump_context_def tty_printf_emits [OF ie il nz(1)] tty_printf_emits [OF re rl nz(2)]
    by (simp add: b1 b2 d split_beta fatal_report_def)
qed

lemma exstr:
  assumes "interrupt c < 2 ^ 31"
  shows "(if sint (ucast (interrupt c) :: u32) < int (length exceptionstr)
      then if sint (ucast (interrupt c) :: u32) < 0 then None else Some (exceptionstr ! nat (sint (ucast (interrupt c) :: u32)))
      else Some (asc ''Unknown exception.'')) = Some (exception_name c)"
proof -
  have i: "unat (interrupt c) < 2147483648" using assms by (simp add: word_less_nat_alt)
  then have u: "unat (ucast (interrupt c) :: u32) = unat (interrupt c)"
    by (simp add: unsigned_ucast_eq take_bit_eq_mod)
  have "(ucast (interrupt c) :: u32) = of_nat (unat (interrupt c))" by simp
  then have t: "sint (ucast (interrupt c) :: u32) = int (unat (interrupt c))"
    using sint_of_nat_32 [of "unat (interrupt c)"] i by simp
  have l: "length exceptionstr = 21" by (simp add: exceptionstr_def)
  show ?thesis unfolding exception_name_def Let_def t u l by (simp del: asc_simps of_nat_unat)
qed

lemma cell_active: "active_tty (set_x i x s) = active_tty s" "active_tty (put_cell a w s) = active_tty s"
  by (simp_all add: set_x_def put_cell_def)

lemma scroll_active: "active_tty (scroll_row i s) = active_tty s"
  by (simp add: scroll_row_def Let_def)

lemma linefeed_active: "active_tty (do_linefeed i s) = active_tty s"
  by (simp add: do_linefeed_def Let_def scroll_active)

lemma escape_active: "active_tty (snd (escape_seq i str s)) = active_tty s"
  by (simp add: escape_seq_def Let_def)

lemma printchar_active: "active_tty (snd (tty_printchar i str s)) = active_tty s"
  unfolding tty_printchar_def Let_def by (simp add: escape_active linefeed_active cell_active)

lemma print_chars_active: "active_tty (print_chars i str s) = active_tty s"
  by (induction i str s rule: print_chars.induct) (simp_all add: split_beta printchar_active)

lemma prints_active: "active_tty (fold (tty_print tid) strs s) = active_tty s"
  by (induction strs arbitrary: s) (simp_all add: tty_print_def Let_def print_chars_active)

text \<open>C21: a fatal exception is reported.  Whatever the consoles show and whatever is on the stack,
  the handler of a fatal exception with vector below \<open>2 ^ 31\<close> never returns but hangs with
  interrupts disabled; console 0 is the active one and shows, on a cleared screen in white on
  red, the name of the exception, the interrupt frame, all registers and flags and the 128 bytes
  at the stack pointer, every part complete: its buffer of 640 bytes is never too small.\<close>

theorem isr_fatal_reports:
  assumes "0 < length (ttys s)" and "interrupt c < 2 ^ 31"
  shows "\<exists>s'. isr_fatal c memory frame stack s = Some (s', cycle [DisableInterrupts, Halt]) \<and> active_tty s' = 0 \<and>
    shows_term 0 s' (fold term_chars (fatal_report c memory) (blank_terminal 0x4f00 0x4f00))"
proof -
  let ?t = "tty_set_textcolor 0 TEXTCOLOR_WHITE TEXTCOLOR_RED (tty_activate 0 s)"
  let ?s = "fold (tty_print 0) (fatal_report c memory) (tty_clear 0 ?t)"
  have i0: "tty_id 0 = 0" by (simp add: tty_id_def MAX_TTYS_def)
  have t: "0 < length (ttys ?t)" "textcolor_cur (ttys ?t ! 0) = 0x4f00" "textcolor_orig (ttys ?t ! 0) = 0x4f00"
    using assms(1) by (simp_all add: tty_set_textcolor_def tty_activate_def i0 Let_def color_def)
  have sh: "shows_term 0 ?s (fold term_chars (fatal_report c memory) (blank_terminal 0x4f00 0x4f00))"
    using prints_show [OF clear_shows [of 0 ?t], of "fatal_report c memory"] t unfolding i0 by simp
  have nm: "0 \<notin> set (exception_name c @ [0x0a, 0x0a])" "length (exception_name c @ [0x0a, 0x0a]) < 8192"
    using exception_name_chars [of c] by simp_all
  have n: "isr_fatal c memory frame stack s = Some (?s, hang)"
    unfolding isr_fatal_def Let_def exstr [OF assms(2)] bind.bind_lunit tty_printf_emits [OF name_emits nm(2,1)]
    by (simp add: dump_context_prints fatal_report_def)
  have a: "active_tty ?s = 0"
    unfolding prints_active by (simp add: tty_clear_def tty_set_textcolor_def tty_activate_def i0 Let_def)
  show ?thesis using sh n a by (auto simp: hang_def)
qed

text \<open>A page fault, with an error code and a value in one register.\<close>

definition sample_context :: interrupt_context where
  "sample_context = \<lparr>regs = \<lparr>rax = 0x1234, rbx = 0, rcx = 0, rdx = 0, rsi = 0, rdi = 0, rbp = 0,
       r8 = 0, r9 = 0, r10 = 0, r11 = 0, r12 = 0, r13 = 0, r14 = 0, r15 = 0\<rparr>,
     error = 2, interrupt = 14, retaddr = 0x301000, cs = 8, rflags = 0x202, rsp = 0x201fc0, ss = 16\<rparr>"

theorem isr_fatal_reports_witness:
  "hd (fatal_report sample_context (\<lambda>_. 0x41)) = asc ''#PF: Page fault exception'' @ [0x0a, 0x0a] \<and>
   (\<exists>s'. isr_fatal sample_context (\<lambda>_. 0x41) (\<lambda>_. 0xff) (\<lambda>_. 0x5a) any_tty_state =
        Some (s', cycle [DisableInterrupts, Halt]) \<and> active_tty s' = 0 \<and>
      shows_term 0 s' (fold term_chars (fatal_report sample_context (\<lambda>_. 0x41)) (blank_terminal 0x4f00 0x4f00)))"
proof
  show "hd (fatal_report sample_context (\<lambda>_. 0x41)) = asc ''#PF: Page fault exception'' @ [0x0a, 0x0a]"
    by (simp add: fatal_report_def exception_name_def sample_context_def exceptionstr_def)
  show "\<exists>s'. isr_fatal sample_context (\<lambda>_. 0x41) (\<lambda>_. 0xff) (\<lambda>_. 0x5a) any_tty_state =
        Some (s', cycle [DisableInterrupts, Halt]) \<and> active_tty s' = 0 \<and>
      shows_term 0 s' (fold term_chars (fatal_report sample_context (\<lambda>_. 0x41)) (blank_terminal 0x4f00 0x4f00))"
    by (rule isr_fatal_reports) (simp_all add: sample_context_def any_ttys)
qed

end
