(* ===== verification/Spec2Isabelle.thy ===== *)
theory Spec2Isabelle
  imports Pmap Keyboard Tty Output Timer Syscall Growth KmemMap Pci Acpi Exception
begin

text \<open>
  MonkOS, a small x86-64 kernel (sources under \<^verbatim>\<open>src/\<close>), as definitions in HOL and theorems about
  them.  Paths below are relative to \<^verbatim>\<open>src/\<close>.

  \<^bold>\<open>The program.\<close>  The boot loader leaves a BIOS memory map and a boot page table in low memory
  and jumps to \<^verbatim>\<open>kmain\<close> (\<^verbatim>\<open>kernel/main.c\<close>).  \<^verbatim>\<open>acpi_init\<close> walks the firmware's tables, mapping
  them in the boot page table, and adds their pages and those of the interrupt controllers to the
  memory map; \<^verbatim>\<open>pmap_init\<close> cleans the map; \<^verbatim>\<open>page_init\<close> builds the kernel's page table from it
  (\<^verbatim>\<open>kmem_init\<close>) and puts the usable frames on a free list, from which page tables of address spaces
  and the pages in them are allocated; a heap sits on such pages.  The keyboard interrupt puts keys
  into a ring buffer that the shell takes them from; the shell and the PCI probe print on virtual
  consoles through \<^verbatim>\<open>vsnprintf\<close>, and everything logs into two ring buffers.  Fatal exceptions dump
  the processor's state on the first console.

  \<^bold>\<open>Theories and the code they model.\<close>
  \<^item> \<open>Prelude\<close>: types, hardware events, characters, loops over lists, unsigned words.
  \<^item> \<open>Qsort\<close> (\<^verbatim>\<open>libc/stdlib/qsort.c\<close>), \<open>Cstring\<close> (\<^verbatim>\<open>libc/string/*.c\<close>): the array is a list, memory a
    map of bytes.  A comparison function is an instance of the locale \<open>sort_order\<close>, interpreted for
    \<^verbatim>\<open>cmp_region\<close> of the memory map and for \<^verbatim>\<open>strcmp\<close>.  \<open>qsort_correct\<close>, \<open>strcmp_correct\<close>,
    \<open>strlcat_correct\<close>.
  \<^item> \<open>Pmap\<close> (\<^verbatim>\<open>kernel/mem/pmap.c\<close>): \<open>pmapregion\<close>, \<open>pmap\<close>, \<open>pmap_state\<close> are the structures and the
    module's variables, \<open>normalize_map\<close> the five passes of \<^verbatim>\<open>normalize\<close>.  The specification is
    \<open>type_at\<close>, the type a table gives an address; each pass has a lemma on it.
  \<^item> \<open>PageTable\<close>, \<open>Kmem\<close>, \<open>KmemMap\<close> (\<^verbatim>\<open>include/kernel/mem/paging.h\<close>, \<^verbatim>\<open>kernel/mem/kmem.c\<close>): entries
    in memory and the translation the processor performs (\<open>translate\<close>); the kernel's own page table,
    and the proof that it is the identity on the memory map.
  \<^item> \<open>Frames\<close>, \<open>Paging\<close>, \<open>Vspace\<close> (\<^verbatim>\<open>kernel/mem/paging.c\<close>): the frame database with its free list
    (locale \<open>frame_pool\<close>, interpreted for \<open>pfalloc\<close> and \<open>pffree\<close>); the operations on page tables
    over the state \<open>vm\<close>; the invariant \<open>space\<close> of an address space, established by
    \<open>pagetable_create\<close> and kept by \<open>add_pte\<close>, \<open>page_alloc\<close> and \<open>page_free\<close>.
  \<^item> \<open>Heap\<close>, \<open>First_Fit\<close>, \<open>Allocator\<close>, \<open>Growth\<close> (\<^verbatim>\<open>kernel/mem/heap.c\<close>): the code on the words of the
    heap; \<open>heap_ok\<close>, which reads them as a list of blocks; the contract of an allocator (locale
    \<open>storage\<close>) and its interpretation; growth by further pages.
  \<^item> \<open>Fifo\<close>, \<open>Keyboard\<close> (\<^verbatim>\<open>kernel/device/keyboard.c\<close>): ring buffers as queues (locale
    \<open>bounded_fifo\<close>); the interrupt handler and its consumers, interleaved by the step relation
    \<open>kb_step\<close>.
  \<^item> \<open>Log\<close> (\<^verbatim>\<open>kernel/debug/log.c\<close>): the two rings (\<open>log_context\<close>), refined by a list of messages.
  \<^item> \<open>Tty\<close> (\<^verbatim>\<open>kernel/device/tty.c\<close>): four consoles in video memory, refined by plain terminals of 25
    rows (\<open>shows_term\<close>).
  \<^item> \<open>Printf\<close>, \<open>Format\<close>, \<open>Output\<close> (\<^verbatim>\<open>libc/stdio\<close>, \<^verbatim>\<open>logf\<close>, \<^verbatim>\<open>tty_printf\<close>): the format parser step by
    step; the text of a format, put together from its conversions (\<open>emits\<close>); the front ends.
  \<^item> \<open>Timer\<close>, \<open>Syscall\<close> (\<^verbatim>\<open>kernel/device/timer.c\<close>, \<^verbatim>\<open>kernel/syscall/syscall.c\<close>): operations that only
    drive the hardware are lists of events.
  \<^item> \<open>Pci\<close> (\<^verbatim>\<open>kernel/device/pci.c\<close>): the probe, with recursion over bridges, against the relation
    \<open>finds\<close>.
  \<^item> \<open>Acpi\<close> (\<^verbatim>\<open>kernel/mem/acpi.c\<close>, \<^verbatim>\<open>include/kernel/mem/acpi.h\<close>): the tables in the firmware's memory,
    read at their offsets; the initialization and the iterations over MADT and MCFG.
  \<^item> \<open>Dump\<close>, \<open>Exception\<close> (\<^verbatim>\<open>kernel/debug/dump.c\<close>, \<^verbatim>\<open>kernel/interrupt/exception.c\<close>): dumps of registers,
    flags and memory into a buffer, piece by piece (\<open>lays\<close>), against their texts; the handler of fatal
    exceptions, which prints the dumps and ends in the stream of a hanging processor.
  \<^bold>\<open>Conventions.\<close>  Fixed-width integers are words; C's \<open>int\<close> is an unbounded integer where the code
  stays far from its limits, and a 32-bit word read with \<open>sint\<close> elsewhere.  Pointers are addresses or
  indices.  Every operation that may fail to return, read or write outside its array, or call
  \<^verbatim>\<open>fatal\<close> returns an option, \<open>None\<close> for these cases; loops that may not end are partial functions,
  so not returning is \<open>None\<close>, and theorems about them state that the result is \<open>Some\<close>.  Hardware
  (ports, control registers, interrupt controller) appears as the list of events an operation
  causes, with what the devices answer as arguments.

  \<^bold>\<open>Bounds and fuel.\<close>  The only fuel is the depth of the recursion of \<^verbatim>\<open>add_pte\<close>: it is the number of
  frames plus 2, each level takes a frame, and \<open>add_pte_terminates\<close> shows that it is never reached: the
  recursion without a bound (\<open>add_pte_ends\<close>) ends, with the same result.  \<open>page_alloc_returns\<close> says how many frames and how much of the table window suffice.
  The identity map is proved for maps whose tables fit the 80 pages reserved for them.

  \<^bold>\<open>Where the code fails.\<close>  Some theorems state defects: a log message that evicts one too many, a
  newline that writes in front of its console, unterminated output of \<^verbatim>\<open>vsnprintf\<close>, empty regions that
  hide overlaps, a frame count that is never lowered, \<^verbatim>\<open>heap_free\<close> of a block that is not the first,
  bridges in a circle, entries of length 0 in the MADT,
  memory dumps longer than their buffer.  The theorems that hold are stated under
  hypotheses that exclude these cases; so does \<open>heap_alloc_grows\<close> for a free block of 8 bytes at the
  end of a heap, whose footer the code overwrites.

  \<^bold>\<open>Not modelled.\<close>  The boot loader and the assembly parts (\<^verbatim>\<open>boot/*.asm\<close>, \<^verbatim>\<open>kernel/start.asm\<close>,
  \<^verbatim>\<open>kernel/interrupt/interrupt.asm\<close>, \<^verbatim>\<open>kernel/x86/cpu.asm\<close>, the memory routines of
  \<^verbatim>\<open>libc/string/*.asm\<close>) are not C; where C calls them (\<^verbatim>\<open>memcpy\<close>, \<^verbatim>\<open>memmove\<close>, \<^verbatim>\<open>memzero\<close>, \<^verbatim>\<open>memsetw\<close>,
  \<^verbatim>\<open>isr_set\<close>, \<^verbatim>\<open>irq_enable\<close>) the caller's model has their effect.  The inline assembly of
  \<^verbatim>\<open>include/kernel/x86/cpu_inl.h\<close> is the hardware events.  \<^verbatim>\<open>kernel/shell.c\<close> and
  \<^verbatim>\<open>kernel/main.c\<close> are not modelled: the command interpreter and the calls of the initialization
  routines in order.  The fields of the FADT are read by no code.
\<close>

end
